(* ===== verification/XV6_Prelude.thy ===== *)
theory XV6_Prelude
  imports Main "HOL-Library.Word"
begin

text \<open>
  The prelude of the development: the type of a kernel routine and its combinators, the
  total-correctness predicate the component proofs are stated with, and the generic facts on
  lists, ranges and words that the components share.

  A C routine is a function from the state to an outcome. It returns a value and a new state
  (\<open>Ret\<close>), it calls \<^verbatim>\<open>panic()\<close> (\<open>Panic\<close> with the message of the source), or it gives the CPU
  away in \<^verbatim>\<open>sched()\<close>: \<open>Swtch s k\<close> is the state at the context switch and the rest of the routine,
  which goes on from whatever state the kernel is in when the process runs again. Outcomes are a
  codatatype, because a routine may be put to sleep any number of times.

  An access that C leaves undefined (a null pointer, an index outside an array) is the outcome
  \<open>Panic ''wild access''\<close>.
\<close>

section \<open>Routines\<close>

codatatype ('a, 's) outcome = Ret 'a 's | Panic string | Swtch 's "'s \<Rightarrow> ('a, 's) outcome"

type_synonym ('a, 's) routine = "'s \<Rightarrow> ('a, 's) outcome"

named_theorems ksimps \<open>one-step equations of routines\<close>
named_theorems ktotal \<open>total correctness of routines\<close>

abbreviation retK :: "'a \<Rightarrow> ('a, 's) routine" where
  "retK x \<equiv> Ret x"

definition panicK :: "string \<Rightarrow> ('a, 's) routine" where
  "panicK msg = (\<lambda>s. Panic msg)"

abbreviation wildK :: "('a, 's) routine" where
  "wildK \<equiv> panicK ''wild access''"

text \<open>The context switch: the routine goes on in the state in which it is resumed.\<close>

definition swtchK :: "(unit, 's) routine" where
  "swtchK = (\<lambda>s. Swtch s (Ret ()))"

primcorec bind_out :: "('a, 's) outcome \<Rightarrow> ('a \<Rightarrow> ('b, 's) routine) \<Rightarrow> ('b, 's) outcome" where
  "bind_out m f =
     (case m of Ret x t \<Rightarrow> f x t | Panic msg \<Rightarrow> Panic msg
      | Swtch t k \<Rightarrow> Swtch t (\<lambda>u. bind_out (k u) f))"

lemma bind_out_simps [simp]:
  "bind_out (Ret x t) f = f x t" "bind_out (Panic msg) f = Panic msg"
  "bind_out (Swtch t k) f = Swtch t (\<lambda>u. bind_out (k u) f)"
  by (subst bind_out.code, simp)+

definition bindK :: "('a, 's) routine \<Rightarrow> ('a \<Rightarrow> ('b, 's) routine) \<Rightarrow> ('b, 's) routine" where
  "bindK m f = (\<lambda>s. bind_out (m s) f)"

definition thenK :: "('a, 's) routine \<Rightarrow> ('b, 's) routine \<Rightarrow> ('b, 's) routine" where
  "thenK m n = bindK m (\<lambda>_. n)"

definition getK :: "('s \<Rightarrow> 'a) \<Rightarrow> ('a, 's) routine" where
  "getK f = (\<lambda>s. Ret (f s) s)"

definition modK :: "('s \<Rightarrow> 's) \<Rightarrow> (unit, 's) routine" where
  "modK f = (\<lambda>s. Ret () (f s))"

definition whenK :: "bool \<Rightarrow> (unit, 's) routine \<Rightarrow> (unit, 's) routine" where
  "whenK c m = (if c then m else retK ())"

text \<open>A panic guard: \<^verbatim>\<open>if(c) panic(msg)\<close>.\<close>

definition panic_if :: "bool \<Rightarrow> string \<Rightarrow> (unit, 's) routine" where
  "panic_if c msg = (if c then panicK msg else retK ())"

text \<open>A \<^verbatim>\<open>for\<close> loop without early exit, over the list of values its variable takes.\<close>

fun forK :: "'a list \<Rightarrow> ('a \<Rightarrow> (unit, 's) routine) \<Rightarrow> (unit, 's) routine" where
  "forK [] f = retK ()"
| "forK (x # xs) f = thenK (f x) (forK xs f)"

text \<open>
  A \<^verbatim>\<open>for\<close> loop whose body may leave it: the body returns \<open>None\<close> to go on and \<open>Some r\<close> to leave
  with \<open>r\<close>; the loop returns \<open>None\<close> when it ran to its end.
\<close>

fun loopK :: "'a list \<Rightarrow> ('a \<Rightarrow> ('b option, 's) routine) \<Rightarrow> ('b option, 's) routine" where
  "loopK [] f = retK None"
| "loopK (x # xs) f =
     bindK (f x) (\<lambda>r. case r of None \<Rightarrow> loopK xs f | Some v \<Rightarrow> retK (Some v))"

text \<open>
  A loop whose body ends by sleeping when it goes on: the body returns \<open>Some r\<close> to leave the loop
  and \<open>None\<close>, after a context switch, to start again. A body that comes back twice with \<open>None\<close>
  without a context switch in between does not occur.
\<close>

primcorec while_out :: "('a option, 's) routine \<Rightarrow> ('a option, 's) outcome \<Rightarrow> ('a, 's) outcome" where
  "while_out body m =
     (case m of
        Panic msg \<Rightarrow> Panic msg
      | Swtch t k \<Rightarrow> Swtch t (\<lambda>u. while_out body (k u))
      | Ret r t \<Rightarrow>
          (case r of
             Some x \<Rightarrow> Ret x t
           | None \<Rightarrow>
               (case body t of
                  Panic msg \<Rightarrow> Panic msg
                | Swtch t' k \<Rightarrow> Swtch t' (\<lambda>u. while_out body (k u))
                | Ret r' t' \<Rightarrow> (case r' of Some x \<Rightarrow> Ret x t' | None \<Rightarrow> Panic ''busy loop''))))"

definition whileK :: "('a option, 's) routine \<Rightarrow> ('a, 's) routine" where
  "whileK body = (\<lambda>s. while_out body (body s))"

lemma whileK_leave [simp]: "body s = Ret (Some x) t \<Longrightarrow> whileK body s = Ret x t"
  unfolding whileK_def by (subst while_out.code) simp

lemma whileK_block:
  "body s = Swtch t k \<Longrightarrow> whileK body s = Swtch t (\<lambda>u. while_out body (k u))"
  unfolding whileK_def by (subst while_out.code) simp

lemma whileK_panic: "body s = Panic msg \<Longrightarrow> whileK body s = Panic msg"
  unfolding whileK_def by (subst while_out.code) simp

lemma while_out_again:
  assumes "\<And>t'. body t \<noteq> Ret None t'"
  shows "while_out body (Ret None t) = whileK body t"
  unfolding whileK_def using assms
  by (subst (1 2) while_out.code) (auto split: outcome.splits option.splits)

lemma panicK_apply [simp, ksimps]: "panicK msg s = Panic msg"
  by (simp add: panicK_def)

lemma getK_apply [simp, ksimps]: "getK f s = Ret (f s) s"
  by (simp add: getK_def)

lemma modK_apply [simp, ksimps]: "modK f s = Ret () (f s)"
  by (simp add: modK_def)

lemma whenK_apply [simp, ksimps]: "whenK c m s = (if c then m s else Ret () s)"
  by (simp add: whenK_def)

lemma panic_if_apply [simp, ksimps]: "panic_if c msg s = (if c then Panic msg else Ret () s)"
  by (simp add: panic_if_def)

lemma bindK_Ret [simp]: "m s = Ret x t \<Longrightarrow> bindK m f s = f x t"
  by (simp add: bindK_def)

lemma bindK_Panic [simp]: "m s = Panic msg \<Longrightarrow> bindK m f s = Panic msg"
  by (simp add: bindK_def)

lemma bindK_Swtch [simp]: "m s = Swtch t k \<Longrightarrow> bindK m f s = Swtch t (\<lambda>u. bind_out (k u) f)"
  by (simp add: bindK_def)

lemma thenK_Ret [simp]: "m s = Ret x t \<Longrightarrow> thenK m n s = n t"
  by (simp add: thenK_def)

lemma thenK_Panic [simp]: "m s = Panic msg \<Longrightarrow> thenK m n s = Panic msg"
  by (simp add: thenK_def)

lemma thenK_Swtch [simp]: "m s = Swtch t k \<Longrightarrow> thenK m n s = Swtch t (\<lambda>u. bind_out (k u) (\<lambda>_. n))"
  by (simp add: thenK_def)

lemma bindK_eq_Ret:
  "bindK m f s = Ret y u \<longleftrightarrow> (\<exists>x t. m s = Ret x t \<and> f x t = Ret y u)"
  by (cases "m s") (auto simp: bindK_def)

lemma thenK_eq_Ret:
  "thenK m n s = Ret y u \<longleftrightarrow> (\<exists>x t. m s = Ret x t \<and> n t = Ret y u)"
  by (simp add: thenK_def bindK_eq_Ret)

lemma bind_out_assoc: "bind_out (bind_out m f) g = bind_out m (\<lambda>x t. bind_out (f x t) g)"
proof (coinduction arbitrary: m rule: outcome.coinduct_strong)
  case Eq_outcome
  then show ?case
    by (cases m) (auto simp: rel_fun_def)
qed

lemma bindK_assoc: "bindK (bindK m f) g = bindK m (\<lambda>x. bindK (f x) g)"
  by (rule ext) (simp add: bindK_def bind_out_assoc)

lemma bindK_if: "bindK (if c then m else n) f s = (if c then bindK m f s else bindK n f s)"
  by simp

lemma bindK_ret [simp]: "bindK (retK x) f = f x"
  by (rule ext) simp

lemma thenK_ret [simp]: "thenK (retK x) m = m"
  by (rule ext) simp

lemma thenK_assoc: "thenK (thenK l m) n = thenK l (thenK m n)"
  by (simp add: thenK_def bindK_assoc)

lemma forK_append: "forK (xs @ ys) f = thenK (forK xs f) (forK ys f)"
  by (induction xs) (simp_all add: thenK_assoc)

section \<open>Total correctness\<close>

text \<open>
  \<open>okK m s Q\<close>: from \<open>s\<close> the routine returns (it neither panics nor gives the CPU away), and its
  result and final state satisfy \<open>Q\<close>.
\<close>

definition okK :: "('a, 's) routine \<Rightarrow> 's \<Rightarrow> ('a \<Rightarrow> 's \<Rightarrow> bool) \<Rightarrow> bool" where
  "okK m s Q \<longleftrightarrow> (\<exists>x t. m s = Ret x t \<and> Q x t)"

lemma okK_I: "m s = Ret x t \<Longrightarrow> Q x t \<Longrightarrow> okK m s Q"
  by (auto simp: okK_def)

lemma okK_E: "okK m s Q \<Longrightarrow> (\<And>x t. m s = Ret x t \<Longrightarrow> Q x t \<Longrightarrow> P) \<Longrightarrow> P"
  by (auto simp: okK_def)

lemma okK_mono: "okK m s Q \<Longrightarrow> (\<And>x t. Q x t \<Longrightarrow> R x t) \<Longrightarrow> okK m s R"
  by (auto simp: okK_def)

lemma okK_ret [simp]: "okK (retK x) s Q \<longleftrightarrow> Q x s"
  by (simp add: okK_def)

lemma okK_get [simp]: "okK (getK f) s Q \<longleftrightarrow> Q (f s) s"
  by (simp add: okK_def)

lemma okK_mod [simp]: "okK (modK f) s Q \<longleftrightarrow> Q () (f s)"
  by (simp add: okK_def)

lemma okK_panic [simp]: "\<not> okK (panicK msg) s Q"
  by (simp add: okK_def)

lemma okK_swtch [simp]: "\<not> okK swtchK s Q"
  by (simp add: okK_def swtchK_def)

lemma okK_panic_if [simp]: "okK (panic_if c msg) s Q \<longleftrightarrow> \<not> c \<and> Q () s"
  by (simp add: okK_def)

lemma okK_when [simp]: "okK (whenK c m) s Q \<longleftrightarrow> (if c then okK m s Q else Q () s)"
  by (simp add: okK_def)

lemma okK_bind [simp]: "okK (bindK m f) s Q \<longleftrightarrow> okK m s (\<lambda>x t. okK (f x) t Q)"
  by (auto simp: okK_def bindK_eq_Ret)

lemma okK_then [simp]: "okK (thenK m n) s Q \<longleftrightarrow> okK m s (\<lambda>_ t. okK n t Q)"
  by (simp add: thenK_def)

lemma okK_if [simp]:
  "okK (if c then m else n) s Q \<longleftrightarrow> (if c then okK m s Q else okK n s Q)"
  by simp

lemma okK_while: "okK body s (\<lambda>r t. \<exists>x. r = Some x \<and> Q x t) \<Longrightarrow> okK (whileK body) s Q"
  by (auto simp: okK_def)

lemma okK_conj: "okK m s Q \<Longrightarrow> okK m s R \<Longrightarrow> okK m s (\<lambda>x t. Q x t \<and> R x t)"
  by (auto simp: okK_def)

text \<open>The invariant rule of a loop: the invariant is indexed by the values already visited.\<close>

lemma okK_for:
  assumes "I [] s"
    and "\<And>ys x zs t. xs = ys @ x # zs \<Longrightarrow> I ys t \<Longrightarrow> okK (f x) t (\<lambda>_ u. I (ys @ [x]) u)"
  shows "okK (forK xs f) s (\<lambda>_ t. I xs t)"
proof -
  have "okK (forK zs f) t (\<lambda>_ u. I xs u)" if "xs = ys @ zs" "I ys t" for ys zs t
    using that
  proof (induction zs arbitrary: ys t)
    case Nil
    then show ?case by simp
  next
    case (Cons z zs)
    have "okK (f z) t (\<lambda>_ u. I (ys @ [z]) u)"
      using assms(2) Cons.prems by blast
    then show ?case
      by simp (erule okK_mono, rule Cons.IH [of "ys @ [z]" for ys], use Cons.prems in simp_all)
  qed
  from this [of "[]" xs s] assms(1) show ?thesis by simp
qed

end
