(* ===== verification/Machine.thy ===== *)
theory Machine
  imports XV6_Prelude
begin

unbundle bit_operations_syntax

text \<open>
  The machine the kernel runs on: C integer types as words, the constants and macros of
  \<^verbatim>\<open>kernel/riscv.h\<close>, \<^verbatim>\<open>kernel/param.h\<close> and \<^verbatim>\<open>kernel/memlayout.h\<close>, and byte-addressed physical
  memory with little-endian loads and stores. The lemmas give the arithmetic meaning of the
  page-rounding and page-table-entry macros, and that a store is read back by the matching load
  and by no other.
\<close>

section \<open>Integer types\<close>

type_synonym u8 = "8 word"
type_synonym u16 = "16 word"
type_synonym u32 = "32 word"
type_synonym u64 = "64 word"

section \<open>Constants\<close>

definition NPROC :: nat where "NPROC = 64"
definition NOFILE :: nat where "NOFILE = 16"
definition NFILE :: nat where "NFILE = 100"
definition NINODE :: nat where "NINODE = 50"
definition NDEV :: int where "NDEV = 10"
definition ROOTDEV :: nat where "ROOTDEV = 1"
definition MAXARG :: nat where "MAXARG = 32"
definition MAXOPBLOCKS :: nat where "MAXOPBLOCKS = 10"
definition LOGSIZE :: nat where "LOGSIZE = MAXOPBLOCKS * 3"
definition NBUF :: nat where "NBUF = MAXOPBLOCKS * 3"
definition MAXPATH :: nat where "MAXPATH = 128"
definition MAX_PYSC_PAGES :: nat where "MAX_PYSC_PAGES = 16"
definition MAX_TOTAL_PAGES :: nat where "MAX_TOTAL_PAGES = 32"

lemmas param_defs = NPROC_def NOFILE_def NFILE_def NINODE_def NDEV_def ROOTDEV_def MAXARG_def
  MAXOPBLOCKS_def LOGSIZE_def NBUF_def MAXPATH_def MAX_PYSC_PAGES_def MAX_TOTAL_PAGES_def

definition PGSIZE :: u64 where "PGSIZE = 4096"
definition MAXVA :: u64 where "MAXVA = push_bit (9 + 9 + 9 + 12 - 1) 1"
definition KERNBASE :: u64 where "KERNBASE = 0x80000000"
definition PHYSTOP :: u64 where "PHYSTOP = KERNBASE + 128*1024*1024"
definition UART0 :: u64 where "UART0 = 0x10000000"
definition VIRTIO0 :: u64 where "VIRTIO0 = 0x10001000"
definition PLIC :: u64 where "PLIC = 0x0c000000"
definition TRAMPOLINE :: u64 where "TRAMPOLINE = MAXVA - PGSIZE"
definition TRAPFRAME :: u64 where "TRAPFRAME = TRAMPOLINE - PGSIZE"

definition KSTACK :: "nat \<Rightarrow> u64" where
  "KSTACK p = TRAMPOLINE - of_nat (p + 1) * 2 * PGSIZE"

lemma MAXVA_val: "MAXVA = 0x4000000000"
  by (simp add: MAXVA_def)

lemma PHYSTOP_val: "PHYSTOP = 0x88000000"
  by (simp add: PHYSTOP_def KERNBASE_def)

lemma TRAMPOLINE_val: "TRAMPOLINE = 0x3ffffff000"
  by (simp add: TRAMPOLINE_def MAXVA_val PGSIZE_def)

lemma TRAPFRAME_val: "TRAPFRAME = 0x3fffffe000"
  by (simp add: TRAPFRAME_def TRAMPOLINE_val PGSIZE_def)

lemmas layout_vals = PGSIZE_def MAXVA_val KERNBASE_def PHYSTOP_val TRAMPOLINE_val TRAPFRAME_val

section \<open>Page rounding\<close>

definition PGROUNDUP :: "u64 \<Rightarrow> u64" where
  "PGROUNDUP sz = (sz + PGSIZE - 1) AND NOT (PGSIZE - 1)"

definition PGROUNDDOWN :: "u64 \<Rightarrow> u64" where
  "PGROUNDDOWN a = a AND NOT (PGSIZE - 1)"

lemma and_not_mask: "x AND NOT (mask n) = push_bit n (drop_bit n (x :: 'a::len word))"
  by (rule bit_word_eqI) (auto simp: bit_simps)
lemma and_not_page_mask: "x AND - 4096 = push_bit 12 (drop_bit 12 (x::u64))"
proof -
  have "(- 4096 :: u64) = NOT (mask 12)" by (simp add: mask_eq_exp_minus_1)
  then show ?thesis by (simp only: and_not_mask)
qed
lemma PGROUNDDOWN_alt: "PGROUNDDOWN a = push_bit 12 (drop_bit 12 a)"
  by (simp add: PGROUNDDOWN_def PGSIZE_def and_not_page_mask)

lemma unat_PGROUNDDOWN: "unat (PGROUNDDOWN a) = unat a div 4096 * 4096"
  using unsigned_less [of a, where ?'a = nat]
  by (simp add: PGROUNDDOWN_alt drop_bit_eq_div push_bit_eq_mult unat_word_ariths unat_div)

lemma PGROUNDDOWN_le: "PGROUNDDOWN a \<le> a"
  by (simp add: word_le_nat_alt unat_PGROUNDDOWN)

lemma unat_PGROUNDUP:
  assumes "unat a \<le> 2 ^ 64 - 4096"
  shows "unat (PGROUNDUP a) = (unat a + 4095) div 4096 * 4096"
proof -
  have "unat (a + 4095) = unat a + 4095"
    using assms by (simp add: unat_word_ariths)
  moreover have "PGROUNDUP a = PGROUNDDOWN (a + 4095)"
    by (simp add: PGROUNDUP_def PGROUNDDOWN_def PGSIZE_def add.commute)
  ultimately show ?thesis by (simp add: unat_PGROUNDDOWN)
qed

definition page_aligned :: "u64 \<Rightarrow> bool" where
  "page_aligned a \<longleftrightarrow> a mod PGSIZE = 0"

lemma page_aligned_unat: "page_aligned a \<longleftrightarrow> unat a mod 4096 = 0"
  by (simp add: page_aligned_def PGSIZE_def word_unat_eq_iff unat_mod)

lemma page_aligned_PGROUNDDOWN [simp]: "page_aligned (PGROUNDDOWN a)"
  by (simp add: page_aligned_unat unat_PGROUNDDOWN)

lemma PGROUNDDOWN_aligned [simp]: "page_aligned a \<Longrightarrow> PGROUNDDOWN a = a"
  by (auto simp: word_unat_eq_iff unat_PGROUNDDOWN page_aligned_unat)

section \<open>Page-table entries\<close>

definition PTE_V :: u64 where "PTE_V = push_bit 0 1"
definition PTE_R :: u64 where "PTE_R = push_bit 1 1"
definition PTE_W :: u64 where "PTE_W = push_bit 2 1"
definition PTE_X :: u64 where "PTE_X = push_bit 3 1"
definition PTE_U :: u64 where "PTE_U = push_bit 4 1"
definition PTE_A :: u64 where "PTE_A = push_bit 6 1"
definition PTE_PG :: u64 where "PTE_PG = push_bit 9 1"

definition PA2PTE :: "u64 \<Rightarrow> u64" where
  "PA2PTE pa = push_bit 10 (drop_bit 12 pa)"

definition PTE2PA :: "u64 \<Rightarrow> u64" where
  "PTE2PA pte = push_bit 12 (drop_bit 10 pte)"

definition PTE_FLAGS :: "u64 \<Rightarrow> u64" where
  "PTE_FLAGS pte = pte AND 0x3FF"

definition PX :: "nat \<Rightarrow> u64 \<Rightarrow> u64" where
  "PX level va = drop_bit (12 + 9 * level) va AND 0x1FF"

lemmas pte_bit_defs = PTE_V_def PTE_R_def PTE_W_def PTE_X_def PTE_U_def PTE_A_def PTE_PG_def

lemma and_bit_eq_0: "(v :: 'a::len word) AND push_bit n 1 = 0 \<longleftrightarrow> \<not> bit v n"
  by (simp add: push_bit_eq_mult and_exp_eq_0_iff_not_bit)

lemma pte_tests [simp]:
  "v AND PTE_V = 0 \<longleftrightarrow> \<not> bit v 0" "v AND PTE_R = 0 \<longleftrightarrow> \<not> bit v 1"
  "v AND PTE_W = 0 \<longleftrightarrow> \<not> bit v 2" "v AND PTE_X = 0 \<longleftrightarrow> \<not> bit v 3"
  "v AND PTE_U = 0 \<longleftrightarrow> \<not> bit v 4" "v AND PTE_A = 0 \<longleftrightarrow> \<not> bit v 6"
  "v AND PTE_PG = 0 \<longleftrightarrow> \<not> bit v 9"
  unfolding pte_bit_defs by (rule and_bit_eq_0)+

lemma bit_mask_literal: "bit (0x3FF :: u64) n \<longleftrightarrow> n < 10" "bit (0x1FF :: u64) n \<longleftrightarrow> n < 9"
proof -
  have "(0x3FF :: u64) = mask 10" "(0x1FF :: u64) = mask 9"
    by (simp_all add: mask_eq_exp_minus_1)
  then show "bit (0x3FF :: u64) n \<longleftrightarrow> n < 10" "bit (0x1FF :: u64) n \<longleftrightarrow> n < 9"
    by (simp_all only: bit_mask_iff) auto
qed

lemma bit_page_aligned: "page_aligned a \<Longrightarrow> bit a n \<Longrightarrow> 12 \<le> n"
  by (drule PGROUNDDOWN_aligned) (metis PGROUNDDOWN_alt bit_push_bit_iff)

text \<open>The physical address stored in an entry is read back whatever the flag bits are.\<close>

lemma PTE2PA_PA2PTE:
  assumes "page_aligned pa" and "\<And>n. bit fl n \<Longrightarrow> n < 10"
  shows "PTE2PA (PA2PTE pa OR fl) = pa"
proof (rule bit_word_eqI)
  fix n assume "n < LENGTH(64)"
  then show "bit (PTE2PA (PA2PTE pa OR fl)) n = bit pa n"
    using assms(2) [of "10 + (n - 12)"] bit_page_aligned [OF assms(1), of n]
    by (auto simp: PTE2PA_def PA2PTE_def bit_simps)
qed

lemma page_aligned_PTE2PA [simp]: "page_aligned (PTE2PA pte)"
proof -
  have "PGROUNDDOWN (PTE2PA pte) = PTE2PA pte"
    unfolding PGROUNDDOWN_alt PTE2PA_def by (rule bit_word_eqI) (auto simp: bit_simps)
  then show ?thesis by (metis page_aligned_PGROUNDDOWN)
qed

lemma unat_PX: "unat (PX l va) < 512"
proof -
  have "(0x1FF :: u64) = mask 9" by (simp add: mask_eq_exp_minus_1)
  then have "PX l va = take_bit 9 (drop_bit (12 + 9 * l) va)"
    by (simp only: PX_def take_bit_eq_mask)
  then have "unat (PX l va) = take_bit 9 (unat (drop_bit (12 + 9 * l) va))"
    by (simp add: unsigned_take_bit_eq)
  then show ?thesis by (simp add: take_bit_eq_mod)
qed

section \<open>Little-endian encoding\<close>

primrec le_bytes :: "nat \<Rightarrow> 'a::len word \<Rightarrow> u8 list" where
  "le_bytes 0 w = []"
| "le_bytes (Suc n) w = ucast w # le_bytes n (drop_bit 8 w)"

primrec le_word :: "u8 list \<Rightarrow> 'a::len word" where
  "le_word [] = 0"
| "le_word (b # bs) = ucast b OR push_bit 8 (le_word bs)"

lemma length_le_bytes [simp]: "length (le_bytes n w) = n"
  by (induction n arbitrary: w) simp_all

lemma nth_le_bytes: "i < n \<Longrightarrow> le_bytes n w ! i = ucast (drop_bit (8 * i) w)"
  by (induction n arbitrary: w i) (auto simp: nth_Cons drop_bit_drop_bit add.commute split: nat.split)

lemma bit_u8_high: "bit (b :: u8) k \<Longrightarrow> k < 8"
  by (drule bit_imp_le_length) simp

lemma bit_le_word: "bit (le_word bs :: 'a::len word) k \<longleftrightarrow>
   k < LENGTH('a) \<and> k div 8 < length bs \<and> bit (bs ! (k div 8)) (k mod 8)"
proof (induction bs arbitrary: k)
  case Nil then show ?case by simp
next
  case (Cons b bs)
  show ?case
  proof (cases "k < 8")
    case True
    then have "k div 8 = 0" "k mod 8 = k" by auto
    with True show ?thesis by (auto simp: bit_or_iff bit_push_bit_iff bit_unsigned_iff)
  next
    case False
    then have k: "k div 8 = Suc ((k - 8) div 8)" "k mod 8 = (k - 8) mod 8"
      by (simp_all add: le_mod_geq le_div_geq)
    have "bit (le_word (b # bs) :: 'a word) k \<longleftrightarrow> k < LENGTH('a) \<and> bit (le_word bs :: 'a word) (k - 8)"
      using False by (auto simp: bit_or_iff bit_push_bit_iff bit_unsigned_iff dest: bit_u8_high)
    with k show ?thesis unfolding Cons.IH by auto
  qed
qed

lemma le_bytes_le_word:
  assumes "8 * length bs \<le> LENGTH('a)"
  shows "le_bytes (length bs) (le_word bs :: 'a::len word) = bs"
proof (rule nth_equalityI)
  fix i assume i: "i < length (le_bytes (length bs) (le_word bs :: 'a word))"
  show "le_bytes (length bs) (le_word bs :: 'a::len word) ! i = bs ! i"
  proof (rule bit_word_eqI)
    fix k assume "k < LENGTH(8)"
    then have k: "k < 8" by simp
    then have "(8 * i + k) div 8 = i" "(8 * i + k) mod 8 = k" by simp_all
    moreover have "8 * i + k < LENGTH('a)" using i k assms by simp
    ultimately show "bit (le_bytes (length bs) (le_word bs :: 'a::len word) ! i) k = bit (bs ! i) k"
      using i k by (simp add: nth_le_bytes bit_unsigned_iff bit_drop_bit_eq bit_le_word)
  qed
qed simp

lemma le_word_le_bytes: "le_word (le_bytes n w) = take_bit (8 * n) w"
proof (induction n arbitrary: w)
  case 0
  then show ?case by simp
next
  case (Suc n)
  show ?case
    unfolding le_bytes.simps le_word.simps Suc.IH
    by (rule bit_word_eqI) (auto simp: bit_simps)
qed

section \<open>Physical memory\<close>

type_synonym ram = "u64 \<Rightarrow> u8"

definition rd_bytes :: "ram \<Rightarrow> u64 \<Rightarrow> nat \<Rightarrow> u8 list" where
  "rd_bytes m a n = map (\<lambda>i. m (a + of_nat i)) [0..<n]"

primrec wr_bytes :: "ram \<Rightarrow> u64 \<Rightarrow> u8 list \<Rightarrow> ram" where
  "wr_bytes m a [] = m"
| "wr_bytes m a (b # bs) = wr_bytes (m(a := b)) (a + 1) bs"

lemma length_rd_bytes [simp]: "length (rd_bytes m a n) = n"
  by (simp add: rd_bytes_def)

lemma nth_rd_bytes [simp]: "i < n \<Longrightarrow> rd_bytes m a n ! i = m (a + of_nat i)"
  by (simp add: rd_bytes_def)

lemma unat_pred: "x \<noteq> 0 \<Longrightarrow> unat (x - 1 :: 'a::len word) = unat x - 1"
  by (simp add: unat_minus_one)

lemma wr_bytes_apply:
  assumes "length bs \<le> 2 ^ 64"
  shows "wr_bytes m a bs x = (if unat (x - a) < length bs then bs ! unat (x - a) else m x)"
  using assms
proof (induction bs arbitrary: m a)
  case Nil
  then show ?case by simp
next
  case (Cons b bs)
  show ?case
  proof (cases "x = a")
    case True
    have "unat (a - (a + 1)) = 2 ^ 64 - 1"
      by (simp add: unsigned_minus_1_eq_mask mask_eq_exp_minus_1)
    then show ?thesis
      by (subst wr_bytes.simps, subst Cons.IH) (use Cons.prems True in auto)
  next
    case False
    have "unat (x - a) = Suc (unat (x - (a + 1)))"
      using False unat_pred [of "x - a"] by (simp add: diff_diff_add unat_gt_0 Suc_pred)
    then show ?thesis
      by (subst wr_bytes.simps, subst Cons.IH) (use Cons.prems False in auto)
  qed
qed

lemma unat_of_nat64: "n < 2 ^ 64 \<Longrightarrow> unat (of_nat n :: u64) = n"
  by (simp add: unat_of_nat)

lemma rd_wr_bytes_same:
  "length bs \<le> 2 ^ 64 \<Longrightarrow> rd_bytes (wr_bytes m a bs) a (length bs) = bs"
  by (rule nth_equalityI) (auto simp: wr_bytes_apply unat_of_nat64)

lemma rd_wr_bytes_other:
  assumes "length bs \<le> 2 ^ 64" and "\<And>i. i < n \<Longrightarrow> length bs \<le> unat (b + of_nat i - a)"
  shows "rd_bytes (wr_bytes m a bs) b n = rd_bytes m b n"
  by (rule nth_equalityI) (use assms in \<open>auto simp: wr_bytes_apply simp flip: not_less\<close>)

definition read64 :: "ram \<Rightarrow> u64 \<Rightarrow> u64" where
  "read64 m a = le_word (rd_bytes m a 8)"

definition write64 :: "ram \<Rightarrow> u64 \<Rightarrow> u64 \<Rightarrow> ram" where
  "write64 m a v = wr_bytes m a (le_bytes 8 v)"

lemma read64_write64_same [simp]: "read64 (write64 m a v) a = v"
  using rd_wr_bytes_same [of "le_bytes 8 v" m a]
  by (simp add: read64_def write64_def le_word_le_bytes take_bit_word_eq_self)

lemma write64_read64 [simp]: "write64 m a (read64 m a) = m"
proof -
  have "le_bytes 8 (read64 m a) = rd_bytes m a 8"
    using le_bytes_le_word [of "rd_bytes m a 8", where ?'a = 64] by (simp add: read64_def)
  then show ?thesis by (auto simp: write64_def wr_bytes_apply fun_eq_iff)
qed

definition aligned8 :: "u64 \<Rightarrow> bool" where
  "aligned8 a \<longleftrightarrow> unat a mod 8 = 0"

lemma aligned8_apart:
  assumes "aligned8 a" "aligned8 b" "a \<noteq> b" "i < 8"
  shows "8 \<le> unat (b + of_nat i - a)"
proof -
  have mod8: "unat (b - a) mod 8 = 0"
    using assms(1,2) unsigned_less [of a, where ?'a = nat] unsigned_less [of b, where ?'a = nat]
    by (simp add: aligned8_def unat_sub_if' split: if_splits) presburger
  have "unat (b - a) \<noteq> 0" using assms(3) by (simp add: unat_eq_0)
  with mod8 have ge: "8 \<le> unat (b - a)" by presburger
  obtain q where q: "unat (b - a) = 8 * q" using mod8 by auto
  have "unat (b - a) + i < 2 ^ 64"
    using unsigned_less [of "b - a", where ?'a = nat] q assms(4) by simp
  then have "unat (b - a + of_nat i) = unat (b - a) + i"
    using assms(4) by (simp add: unat_word_ariths unat_of_nat)
  with ge show ?thesis by (simp add: algebra_simps)
qed

lemma read64_write64_other:
  "aligned8 a \<Longrightarrow> aligned8 b \<Longrightarrow> a \<noteq> b \<Longrightarrow> read64 (write64 m a v) b = read64 m b"
  unfolding read64_def write64_def
  by (subst rd_wr_bytes_other) (auto dest: aligned8_apart)

lemma in_page_iff:
  assumes "page_aligned p"
  shows "unat (x - p) < 4096 \<longleftrightarrow> PGROUNDDOWN x = p"
proof -
  obtain q where q: "unat p = 4096 * q"
    using assms by (auto simp: page_aligned_unat)
  have "unat p < 2 ^ 64" "unat x < 2 ^ 64"
    using unsigned_less [of p, where ?'a = nat] unsigned_less [of x, where ?'a = nat] by simp_all
  then show ?thesis
    by (auto simp: word_unat_eq_iff unat_PGROUNDDOWN q unat_sub_if')
qed

lemma unat_add_no_wrap: "unat (a :: u64) + n < 2 ^ 64 \<Longrightarrow> unat (a + of_nat n) = unat a + n"
  by (simp add: unat_word_ariths unat_of_nat)

lemma unat_less_64 [simp]: "unat (x :: u64) < 18446744073709551616"
  using unsigned_less [of x, where ?'a = nat] by simp

lemma aligned8_add:
  assumes "aligned8 a" "i < 8"
  shows "unat (a + of_nat i) = unat a + i"
proof -
  obtain q where q: "unat a = 8 * q" using assms(1) by (auto simp: aligned8_def)
  show ?thesis
    by (rule unat_add_no_wrap) (use unsigned_less [of a, where ?'a = nat] q assms(2) in simp)
qed

lemma PGROUNDDOWN_aligned8:
  assumes "aligned8 a" "i < 8"
  shows "PGROUNDDOWN (a + of_nat i) = PGROUNDDOWN a"
proof -
  obtain q where q: "unat a = 8 * q" using assms(1) by (auto simp: aligned8_def)
  have "(8 * q + i) div 4096 = 8 * q div 4096"
    using assms(2) div_mult2_eq [of "8 * q + i" 8 512] div_mult2_eq [of "8 * q" 8 512] by simp
  then show ?thesis
    by (simp add: word_unat_eq_iff unat_PGROUNDDOWN aligned8_add [OF assms] q)
qed

lemma read64_cong:
  assumes "aligned8 a" and "\<And>x. PGROUNDDOWN x = PGROUNDDOWN a \<Longrightarrow> m x = m' x"
  shows "read64 m a = read64 m' a"
proof -
  have "rd_bytes m a 8 = rd_bytes m' a 8"
    by (rule nth_equalityI) (auto intro!: assms(2) PGROUNDDOWN_aligned8 [OF assms(1)])
  then show ?thesis by (simp add: read64_def)
qed

lemma page_aligned_aligned8: "page_aligned p \<Longrightarrow> aligned8 p"
  by (auto simp: page_aligned_unat aligned8_def)

lemma write64_outside:
  assumes "aligned8 a" "PGROUNDDOWN x \<noteq> PGROUNDDOWN a"
  shows "write64 m a v x = m x"
proof -
  have "\<not> unat (x - a) < 8"
  proof
    assume "unat (x - a) < 8"
    then have "PGROUNDDOWN (a + of_nat (unat (x - a))) = PGROUNDDOWN a"
      by (rule PGROUNDDOWN_aligned8 [OF assms(1)])
    then show False using assms(2) by simp
  qed
  then show ?thesis by (simp add: write64_def wr_bytes_apply)
qed

end
