(* ===== verification/CString.thy ===== *)
theory CString
  imports Machine
begin

text \<open>
  \<^verbatim>\<open>kernel/string.c\<close>. The block operations work on physical memory; the string operations work
  on byte lists, a C string being the list of its characters, so that reading at the end of the
  list yields the terminating NUL. The lemmas show that \<^verbatim>\<open>memmove\<close> copies correctly also when
  source and destination overlap, that \<^verbatim>\<open>memset\<close> writes exactly its range, and what the bounded
  string operations compute.
\<close>

section \<open>Block operations\<close>

primrec memset_loop :: "ram \<Rightarrow> u64 \<Rightarrow> u8 \<Rightarrow> nat \<Rightarrow> nat \<Rightarrow> ram" where
  "memset_loop m dst c i 0 = m"
| "memset_loop m dst c i (Suc k) = memset_loop (m(dst + of_nat i := c)) dst c (i + 1) k"

definition memset :: "ram \<Rightarrow> u64 \<Rightarrow> u8 \<Rightarrow> nat \<Rightarrow> ram" where
  "memset m dst c n = memset_loop m dst c 0 n"

text \<open>\<^verbatim>\<open>while(n-- > 0) *--d = *--s;\<close> from the ends down, and \<^verbatim>\<open>while(n-- > 0) *d++ = *s++;\<close>\<close>

primrec memmove_down :: "ram \<Rightarrow> u64 \<Rightarrow> u64 \<Rightarrow> nat \<Rightarrow> ram" where
  "memmove_down m d s 0 = m"
| "memmove_down m d s (Suc k) = memmove_down (m(d - 1 := m (s - 1))) (d - 1) (s - 1) k"

primrec memmove_up :: "ram \<Rightarrow> u64 \<Rightarrow> u64 \<Rightarrow> nat \<Rightarrow> ram" where
  "memmove_up m d s 0 = m"
| "memmove_up m d s (Suc k) = memmove_up (m(d := m s)) (d + 1) (s + 1) k"

definition memmove :: "ram \<Rightarrow> u64 \<Rightarrow> u64 \<Rightarrow> nat \<Rightarrow> ram" where
  "memmove m dst src n =
     (if src < dst \<and> src + of_nat n > dst
      then memmove_down m (dst + of_nat n) (src + of_nat n) n
      else memmove_up m dst src n)"

definition memcpy :: "ram \<Rightarrow> u64 \<Rightarrow> u64 \<Rightarrow> nat \<Rightarrow> ram" where
  "memcpy m dst src n = memmove m dst src n"

fun memcmp :: "u8 list \<Rightarrow> u8 list \<Rightarrow> nat \<Rightarrow> int" where
  "memcmp (x # xs) (y # ys) (Suc n) =
     (if x \<noteq> y then int (unat x) - int (unat y) else memcmp xs ys n)"
| "memcmp _ _ _ = 0"

section \<open>Strings\<close>

definition ch :: "u8 list \<Rightarrow> u8" where
  "ch s = (case s of [] \<Rightarrow> 0 | c # _ \<Rightarrow> c)"

primrec strncmp :: "u8 list \<Rightarrow> u8 list \<Rightarrow> nat \<Rightarrow> int" where
  "strncmp p q 0 = 0"
| "strncmp p q (Suc n) =
     (if ch p \<noteq> 0 \<and> ch p = ch q then strncmp (tl p) (tl q) n
      else int (unat (ch p)) - int (unat (ch q)))"

text \<open>The bytes \<^verbatim>\<open>strncpy(s, t, n)\<close> writes at \<^verbatim>\<open>s\<close>; always exactly \<open>n\<close>.\<close>

primrec strncpy_bytes :: "u8 list \<Rightarrow> nat \<Rightarrow> u8 list" where
  "strncpy_bytes t 0 = []"
| "strncpy_bytes t (Suc n) =
     (if ch t \<noteq> 0 then ch t # strncpy_bytes (tl t) n else 0 # replicate n 0)"

definition strncpy :: "u8 list \<Rightarrow> u8 list \<Rightarrow> nat \<Rightarrow> u8 list" where
  "strncpy s t n = strncpy_bytes t n @ drop n s"

text \<open>The bytes \<^verbatim>\<open>safestrcpy(s, t, n)\<close> writes at \<^verbatim>\<open>s\<close>, where \<^verbatim>\<open>k\<close> is the value of \<^verbatim>\<open>--n\<close>.\<close>

primrec safestrcpy_bytes :: "u8 list \<Rightarrow> nat \<Rightarrow> u8 list" where
  "safestrcpy_bytes t 0 = [0]"
| "safestrcpy_bytes t (Suc k) =
     (if ch t \<noteq> 0 then ch t # safestrcpy_bytes (tl t) k else [0, 0])"

definition safestrcpy :: "u8 list \<Rightarrow> u8 list \<Rightarrow> int \<Rightarrow> u8 list" where
  "safestrcpy s t n =
     (if n \<le> 0 then s
      else (let w = safestrcpy_bytes t (nat (n - 1)) in w @ drop (length w) s))"

primrec strlen :: "u8 list \<Rightarrow> nat" where
  "strlen [] = 0"
| "strlen (c # s) = (if c \<noteq> 0 then Suc (strlen s) else 0)"

section \<open>Lemmas\<close>

lemma memset_loop_wr:
  "memset_loop m d c i k = wr_bytes m (d + of_nat i) (replicate k c)"
  by (induction k arbitrary: m i) (simp_all add: algebra_simps)

lemma memset_wr: "memset m d c n = wr_bytes m d (replicate n c)"
  by (simp add: memset_def memset_loop_wr)

lemma memset_apply:
  "n \<le> 2 ^ 64 \<Longrightarrow> memset m d c n x = (if unat (x - d) < n then c else m x)"
  by (simp add: memset_wr wr_bytes_apply)

lemma memset_page:
  "page_aligned p \<Longrightarrow> memset m p c 4096 x = (if PGROUNDDOWN x = p then c else m x)"
  by (simp add: memset_apply in_page_iff)

lemma read64_memset0:
  assumes "aligned8 a" "page_aligned p" "PGROUNDDOWN a = p"
  shows "read64 (memset m p 0 4096) a = 0"
proof -
  have "rd_bytes (memset m p 0 4096) a 8 = replicate 8 0"
    by (rule nth_equalityI) (use PGROUNDDOWN_aligned8 [OF assms(1)] assms(2,3) in \<open>auto simp: memset_page\<close>)
  then show ?thesis by (simp add: read64_def numeral_eq_Suc)
qed

lemma memmove_up_apply:
  assumes "k \<le> 2 ^ 64" and "\<And>i j. j < i \<Longrightarrow> i < k \<Longrightarrow> s + of_nat i \<noteq> d + of_nat j"
  shows "memmove_up m d s k x = (if unat (x - d) < k then m (s + (x - d)) else m x)"
  using assms
proof (induction k arbitrary: m d s)
  case 0
  then show ?case by simp
next
  case (Suc k)
  have H: "s + 1 + of_nat i \<noteq> d + 1 + of_nat j" if "j < i" "i < k" for i j
    using Suc.prems(2) [of "Suc j" "Suc i"] that by (simp add: algebra_simps)
  have idx: "s + (x - d) = s + 1 + (x - (d + 1))" by (simp add: algebra_simps)
  have step: "memmove_up m d s (Suc k) x =
      (if unat (x - (d + 1)) < k then (m(d := m s)) (s + (x - d)) else (m(d := m s)) x)"
    unfolding memmove_up.simps idx by (rule Suc.IH [OF _ H]) (use Suc.prems(1) in simp_all)
  show ?case
  proof (cases "x = d")
    case True
    have "unat (d - (d + 1)) = 2 ^ 64 - 1"
      by (simp add: unsigned_minus_1_eq_mask mask_eq_exp_minus_1)
    then show ?thesis unfolding step using Suc.prems(1) True by auto
  next
    case False
    then have un: "unat (x - d) = Suc (unat (x - (d + 1)))"
      using unat_pred [of "x - d"] by (simp add: diff_diff_add unat_gt_0 Suc_pred)
    have "s + (x - d) \<noteq> d" if "unat (x - d) < Suc k"
      using Suc.prems(2) [of 0 "unat (x - d)"] that un by simp
    then show ?thesis unfolding step using un False by auto
  qed
qed

lemma memmove_down_apply:
  assumes "k \<le> 2 ^ 64" and "\<And>i j. j < i \<Longrightarrow> i < k \<Longrightarrow> s - 1 - of_nat i \<noteq> d - 1 - of_nat j"
  shows "memmove_down m d s k x = (if unat (d - 1 - x) < k then m (s - (d - x)) else m x)"
  using assms
proof (induction k arbitrary: m d s)
  case 0
  then show ?case by simp
next
  case (Suc k)
  have H: "s - 1 - 1 - of_nat i \<noteq> d - 1 - 1 - of_nat j" if "j < i" "i < k" for i j
    using Suc.prems(2) [of "Suc j" "Suc i"] that by (simp add: algebra_simps)
  have idx: "s - (d - x) = s - 1 - (d - 1 - x)" by (simp add: algebra_simps)
  have step: "memmove_down m d s (Suc k) x =
      (if unat (d - 1 - 1 - x) < k then (m(d - 1 := m (s - 1))) (s - (d - x))
       else (m(d - 1 := m (s - 1))) x)"
    unfolding memmove_down.simps idx by (rule Suc.IH [OF _ H]) (use Suc.prems(1) in simp_all)
  show ?case
  proof (cases "x = d - 1")
    case True
    then have "unat (d - 1 - 1 - x) = 2 ^ 64 - 1"
      by (simp add: unsigned_minus_1_eq_mask mask_eq_exp_minus_1)
    then show ?thesis unfolding step using Suc.prems(1) True by auto
  next
    case False
    then have un: "unat (d - 1 - x) = Suc (unat (d - 1 - 1 - x))"
      using unat_pred [of "d - 1 - x"] by (simp add: unat_gt_0 Suc_pred algebra_simps)
    have "s - (d - x) \<noteq> d - 1" if "unat (d - 1 - x) < Suc k"
      using Suc.prems(2) [of 0 "unat (d - 1 - x)"] that un by (simp add: algebra_simps)
    then show ?thesis unfolding step using un False by auto
  qed
qed

lemma unat_flip_less:
  assumes "n \<le> 2 ^ 64" and "unat (y :: u64) < n"
  shows "unat (of_nat n - 1 - y) < n"
proof -
  have "(of_nat n - 1 :: u64) = of_nat (n - 1)" using assms(2) by simp
  moreover have "unat (of_nat (n - 1) :: u64) = n - 1"
    by (rule unat_of_nat64) (use assms in simp)
  ultimately have un: "unat (of_nat n - 1 :: u64) = n - 1" by simp
  then have "y \<le> of_nat n - 1" using assms(2) by (simp add: word_le_nat_alt)
  then have "unat (of_nat n - 1 - y) = n - 1 - unat y" using un by (simp add: unat_sub)
  then show ?thesis using assms(2) by simp
qed

lemma unat_range_flip:
  assumes "n \<le> 2 ^ 64"
  shows "unat (d + of_nat n - 1 - x :: u64) < n \<longleftrightarrow> unat (x - d) < n"
proof -
  have "d + of_nat n - 1 - x = of_nat n - 1 - (x - d)"
    and "x - d = of_nat n - 1 - (d + of_nat n - 1 - x)" by (simp_all add: algebra_simps)
  with unat_flip_less [OF assms] show ?thesis by metis
qed

text \<open>
  Copying downwards is right when the source does not lie above the destination, copying upwards when it
  does not lie below it or ends before it.
\<close>

lemma memmove_down_range:
  assumes b: "unat src + n < 2 ^ 64" "unat dst + n < 2 ^ 64" and "src \<le> dst"
  shows "memmove_down m (dst + of_nat n) (src + of_nat n) n = wr_bytes m dst (rd_bytes m src n)"
proof
  fix x
  have n: "n \<le> 2 ^ 64" using b by simp
  have off: "unat (a + of_nat i) = unat a + i" if "i \<le> n" "a = src \<or> a = dst" for a i
    using that b by (auto intro!: unat_add_no_wrap)
  have "src + of_nat n - 1 - of_nat i \<noteq> dst + of_nat n - 1 - of_nat j" if "j < i" "i < n" for i j
  proof
    assume "src + of_nat n - 1 - of_nat i = dst + of_nat n - 1 - of_nat j"
    then have "src + of_nat j = dst + of_nat i" by (simp add: algebra_simps)
    then have "unat src + j = unat dst + i" using off [of j src] off [of i dst] that by simp
    with assms(3) that show False by (simp add: word_le_nat_alt)
  qed
  note down = memmove_down_apply [OF n this, of m x]
  have "src + of_nat n - (dst + of_nat n - x) = src + (x - dst)" by (simp add: algebra_simps)
  then have "memmove_down m (dst + of_nat n) (src + of_nat n) n x = (if unat (x - dst) < n then m (src + (x - dst)) else m x)"
    unfolding unat_range_flip [OF n, of dst x, symmetric] by (simp only: down)
  then show "memmove_down m (dst + of_nat n) (src + of_nat n) n x = wr_bytes m dst (rd_bytes m src n) x"
    using n by (simp add: wr_bytes_apply)
qed

lemma memmove_up_range:
  assumes b: "unat src + n < 2 ^ 64" "unat dst + n < 2 ^ 64" and "dst \<le> src \<or> src + of_nat n \<le> dst"
  shows "memmove_up m dst src n = wr_bytes m dst (rd_bytes m src n)"
proof
  fix x
  have n: "n \<le> 2 ^ 64" using b by simp
  have off: "unat (a + of_nat i) = unat a + i" if "i \<le> n" "a = src \<or> a = dst" for a i
    using that b by (auto intro!: unat_add_no_wrap)
  have "src + of_nat i \<noteq> dst + of_nat j" if "j < i" "i < n" for i j
  proof
    assume "src + of_nat i = dst + of_nat j"
    then have "unat src + i = unat dst + j" using off [of i src] off [of j dst] that by simp
    with assms(3) that off [of n src] show False by (auto simp: word_le_nat_alt)
  qed
  then have "memmove_up m dst src n x = (if unat (x - dst) < n then m (src + (x - dst)) else m x)"
    by (rule memmove_up_apply [OF n])
  then show "memmove_up m dst src n x = wr_bytes m dst (rd_bytes m src n) x"
    using n by (simp add: wr_bytes_apply)
qed

lemma memmove_correct:
  assumes "unat src + n < 2 ^ 64" and "unat dst + n < 2 ^ 64"
  shows "memmove m dst src n = wr_bytes m dst (rd_bytes m src n)"
proof (cases "src < dst \<and> src + of_nat n > dst")
  case True
  then have "src \<le> dst" by (simp add: less_imp_le)
  then show ?thesis unfolding memmove_def if_P [OF True] by (rule memmove_down_range [OF assms])
next
  case False
  then have "dst \<le> src \<or> src + of_nat n \<le> dst" by (auto simp: not_less)
  then show ?thesis unfolding memmove_def if_not_P [OF False] by (rule memmove_up_range [OF assms])
qed

text \<open>The characters of a C string within its first \<open>n\<close> bytes.\<close>

definition cstr :: "nat \<Rightarrow> u8 list \<Rightarrow> u8 list" where
  "cstr n s = takeWhile (\<lambda>c. c \<noteq> 0) (take n s)"

lemma cstr_0 [simp]: "cstr 0 s = []"
  by (simp add: cstr_def)

lemma cstr_Suc: "cstr (Suc n) s = (if ch s \<noteq> 0 then ch s # cstr n (tl s) else [])"
  by (cases s) (simp_all add: cstr_def ch_def)

lemma uint_inj: "uint x = uint y \<longleftrightarrow> x = y"
  by (metis word_uint_eqI)

lemma strncmp_eq_0: "strncmp p q n = 0 \<longleftrightarrow> cstr n p = cstr n q"
  by (induction n arbitrary: p q) (auto simp: cstr_Suc uint_inj uint_0_iff)

lemma length_strncpy_bytes [simp]: "length (strncpy_bytes t n) = n"
  by (induction n arbitrary: t) simp_all

lemma cstr_replicate_0 [simp]: "cstr n (replicate k 0) = []"
  by (cases n; cases k) (simp_all add: cstr_def)

lemma cstr_strncpy_bytes: "cstr n (strncpy_bytes t n @ r) = cstr n t"
  by (induction n arbitrary: t) (simp_all add: cstr_Suc ch_def)

lemma strncmp_strncpy: "strncmp t (strncpy s t n) n = 0"
  by (simp add: strncmp_eq_0 strncpy_def cstr_strncpy_bytes)

lemma length_safestrcpy_bytes: "length (safestrcpy_bytes t k) \<le> Suc k"
  by (induction k arbitrary: t) simp_all

lemma strlen_takeWhile: "strlen s = length (takeWhile (\<lambda>c. c \<noteq> 0) s)"
  by (induction s) simp_all

lemma cstr_safestrcpy_bytes: "takeWhile (\<lambda>c. c \<noteq> 0) (safestrcpy_bytes t k @ r) = cstr k t"
  by (induction k arbitrary: t) (simp_all add: cstr_Suc)

text \<open>\<^verbatim>\<open>safestrcpy\<close> always leaves a terminated string: the longest prefix that fits.\<close>

lemma safestrcpy_terminates:
  assumes "0 < n" and "nat n \<le> length s"
  shows "takeWhile (\<lambda>c. c \<noteq> 0) (safestrcpy s t n) = cstr (nat n - 1) t"
    and "length (safestrcpy s t n) = length s"
  using assms length_safestrcpy_bytes [of t "nat n - 1"]
  by (auto simp: safestrcpy_def Let_def cstr_safestrcpy_bytes nat_diff_distrib)

lemma memcmp_eq_0:
  assumes "n \<le> length xs" and "n \<le> length ys"
  shows "memcmp xs ys n = 0 \<longleftrightarrow> take n xs = take n ys"
  using assms by (induction xs ys n rule: memcmp.induct) (auto simp: uint_inj uint_0_iff)

end
