(* ===== verification/Kernel_State.thy ===== *)
theory Kernel_State
  imports CString
begin

text \<open>
  The kernel's data: one record per C structure, with the fields of the source, and the record
  \<open>kstate\<close> of the kernel's globals. Pointers into the static tables (\<^verbatim>\<open>proc[]\<close>, \<^verbatim>\<open>ftable.file[]\<close>,
  \<^verbatim>\<open>itable.inode[]\<close>, \<^verbatim>\<open>bcache.buf[]\<close>) are indices, \<open>None\<close> being the null pointer; pointers to
  pages from \<^verbatim>\<open>kalloc()\<close> are physical addresses, 0 being the null pointer. Every structure has the
  all-zero value that static storage has at boot.

  The routines are those of one CPU. \<open>cur\<close> is \<^verbatim>\<open>mycpu()->proc\<close> and \<open>held\<close> the set of spin locks
  this CPU holds: \<^verbatim>\<open>acquire\<close> and \<^verbatim>\<open>release\<close> with their panics are the operations on it (their
  implementation is the subject of the theory \<open>Spinlock\<close>).
\<close>

section \<open>Locks and sleep channels\<close>

datatype sleepid = SL_buf nat | SL_inode nat

datatype lockid =
    L_kmem | L_pid | L_wait | L_proc nat | L_ticks | L_ftable | L_itable | L_bcache
  | L_log | L_pipe u64 | L_cons | L_uart | L_pr | L_sleep sleepid

datatype chan =
    Ch_proc nat | Ch_ticks | Ch_log | Ch_nread u64 | Ch_nwrite u64 | Ch_sleep sleepid
  | Ch_cons | Ch_uart

record sleeplock =
  sl_locked :: bool
  sl_pid :: int

definition sleeplock_zero :: sleeplock where
  "sleeplock_zero = \<lparr>sl_locked = False, sl_pid = 0\<rparr>"

section \<open>Processes\<close>

datatype procstate = UNUSED | USED | SLEEPING | RUNNABLE | RUNNING | ZOMBIE

datatype page_metadata_state = P_UNUSED | P_USED

record page_metadata =
  pm_state :: page_metadata_state
  user_page_VA :: u64
  page_order :: u32
  access_count :: u32

definition page_metadata_zero :: page_metadata where
  "page_metadata_zero = \<lparr>pm_state = P_UNUSED, user_page_VA = 0, page_order = 0, access_count = 0\<rparr>"

record kcontext =
  ctx_ra :: u64
  ctx_sp :: u64
  ctx_s :: "u64 list"

definition context_zero :: kcontext where
  "context_zero = \<lparr>ctx_ra = 0, ctx_sp = 0, ctx_s = replicate 12 0\<rparr>"

record proc =
  pstate :: procstate
  pchan :: "chan option"
  killed :: bool
  xstate :: int
  pid :: int
  parent :: "nat option"
  kstack :: u64
  psz :: u64
  ppagetable :: u64
  trapframe :: u64
  pcontext :: kcontext
  ofile :: "nat option list"
  cwd :: "nat option"
  pname :: "u8 list"
  page_fault_counter :: int
  swapFile :: "nat option"
  file_pages :: "page_metadata list"
  memory_pages :: "page_metadata list"
  page_order_counter :: u64
  pages_in_file_counter :: u64
  pages_in_memory_counter :: u64

definition proc_zero :: proc where
  "proc_zero = \<lparr>pstate = UNUSED, pchan = None, killed = False, xstate = 0, pid = 0, parent = None,
     kstack = 0, psz = 0, ppagetable = 0, trapframe = 0, pcontext = context_zero,
     ofile = replicate NOFILE None, cwd = None, pname = replicate 16 0, page_fault_counter = 0,
     swapFile = None, file_pages = replicate (MAX_TOTAL_PAGES - MAX_PYSC_PAGES) page_metadata_zero,
     memory_pages = replicate MAX_PYSC_PAGES page_metadata_zero, page_order_counter = 0,
     pages_in_file_counter = 0, pages_in_memory_counter = 0\<rparr>"

text \<open>Offsets of the fields of \<^verbatim>\<open>struct trapframe\<close> in the trapframe page.\<close>

definition TF_kernel_satp :: u64 where "TF_kernel_satp = 0"
definition TF_kernel_sp :: u64 where "TF_kernel_sp = 8"
definition TF_kernel_trap :: u64 where "TF_kernel_trap = 16"
definition TF_epc :: u64 where "TF_epc = 24"
definition TF_kernel_hartid :: u64 where "TF_kernel_hartid = 32"
definition TF_sp :: u64 where "TF_sp = 48"
definition TF_a :: "nat \<Rightarrow> u64" where "TF_a n = 112 + 8 * of_nat n"
definition TF_SIZE :: nat where "TF_SIZE = 288"

section \<open>Files, inodes and buffers\<close>

datatype ftype = FD_NONE | FD_PIPE | FD_INODE | FD_DEVICE

record kfile =
  ftype :: ftype
  fref :: int
  readable :: u8
  writable :: u8
  fpipe :: u64
  fip :: "nat option"
  foff :: nat
  fmajor :: int

definition file_zero :: kfile where
  "file_zero = \<lparr>ftype = FD_NONE, fref = 0, readable = 0, writable = 0, fpipe = 0, fip = None,
     foff = 0, fmajor = 0\<rparr>"

record inode =
  idev :: nat
  inum :: nat
  iref :: int
  ilk :: sleeplock
  ivalid :: bool
  itype :: int
  imajor :: int
  iminor :: int
  inlink :: int
  isize :: nat
  iaddrs :: "nat list"

definition NDIRECT :: nat where "NDIRECT = 12"

definition inode_zero :: inode where
  "inode_zero = \<lparr>idev = 0, inum = 0, iref = 0, ilk = sleeplock_zero, ivalid = False, itype = 0,
     imajor = 0, iminor = 0, inlink = 0, isize = 0, iaddrs = replicate (NDIRECT + 1) 0\<rparr>"

definition BSIZE :: nat where "BSIZE = 1024"

record buf =
  bvalid :: bool
  bdev :: nat
  blockno :: nat
  blk :: sleeplock
  refcnt :: nat
  bdata :: "u8 list"

definition buf_zero :: buf where
  "buf_zero = \<lparr>bvalid = False, bdev = 0, blockno = 0, blk = sleeplock_zero, refcnt = 0,
     bdata = replicate BSIZE 0\<rparr>"

text \<open>
  The buffer cache: the array of buffers and the doubly linked list through \<^verbatim>\<open>prev\<close>/\<^verbatim>\<open>next\<close> as the
  list of buffer indices from \<^verbatim>\<open>head.next\<close> (most recently used) to \<^verbatim>\<open>head.prev\<close>.
\<close>

record bcache =
  bufs :: "buf list"
  lru :: "nat list"

record superblock =
  sb_magic :: nat
  sb_size :: nat
  sb_nblocks :: nat
  sb_ninodes :: nat
  sb_nlog :: nat
  sb_logstart :: nat
  sb_inodestart :: nat
  sb_bmapstart :: nat

definition superblock_zero :: superblock where
  "superblock_zero = \<lparr>sb_magic = 0, sb_size = 0, sb_nblocks = 0, sb_ninodes = 0, sb_nlog = 0,
     sb_logstart = 0, sb_inodestart = 0, sb_bmapstart = 0\<rparr>"

record klog =
  lstart :: nat
  lsize :: nat
  outstanding :: int
  committing :: bool
  ldev :: nat
  lh_n :: nat
  lh_block :: "nat list"

definition klog_zero :: klog where
  "klog_zero = \<lparr>lstart = 0, lsize = 0, outstanding = 0, committing = False, ldev = 0, lh_n = 0,
     lh_block = replicate LOGSIZE 0\<rparr>"

section \<open>Pipes and console\<close>

definition PIPESIZE :: nat where "PIPESIZE = 512"

record pipe =
  pdata :: "u8 list"
  nread :: u32
  nwrite :: u32
  readopen :: bool
  writeopen :: bool

definition INPUT_BUF :: nat where "INPUT_BUF = 128"

record cons =
  cbuf :: "u8 list"
  cons_r :: u32
  cons_w :: u32
  cons_e :: u32

definition UART_TX_BUF_SIZE :: nat where "UART_TX_BUF_SIZE = 32"

text \<open>
  The UART: the driver's transmit buffer and, for the device, the number of bytes its transmit
  register takes before the status register says it is busy, and the received bytes that wait.
\<close>

record uart =
  tx_buf :: "u8 list"
  tx_w :: u64
  tx_r :: u64
  tx_room :: nat
  rx_in :: "u8 list"

section \<open>The kernel state\<close>

text \<open>
  \<open>dtrace\<close> is not a variable of the kernel: it records the block writes in the order the disk
  receives them, which is what a crash can cut short.
\<close>

text \<open>The page replacement policy is chosen when the kernel is built (\<^verbatim>\<open>-D$(SELECTION)\<close>).\<close>

datatype policy = NONE | SCFIFO | NFUA | LAPA | DEBUG | OTHER_SELECTION

record kstate =
  mem :: ram
  freelist :: u64
  held :: "lockid set"
  cur :: "nat option"
  procs :: "proc list"
  initproc :: "nat option"
  forkret_first :: bool
  nextpid :: int
  kernel_pagetable :: u64
  ticks :: u32
  ftable :: "kfile list"
  itable :: "inode list"
  bcache :: bcache
  klog :: klog
  sb :: superblock
  disk :: "nat \<Rightarrow> u8 list"
  dtrace :: "(nat \<times> u8 list) list"
  pipes :: "u64 \<Rightarrow> pipe"
  cons :: cons
  uart :: uart
  uart_out :: "u8 list"
  selection :: policy
  sym_end :: u64
  sym_etext :: u64
  sym_trampoline :: u64

type_synonym 'a K = "('a, kstate) routine"

text \<open>
  The state in which the kernel starts: static storage is zero; memory, the disk, the symbols of
  the linker script and the selected policy are given.
\<close>

definition kernel_boot :: "ram \<Rightarrow> u64 \<Rightarrow> u64 \<Rightarrow> u64 \<Rightarrow> policy \<Rightarrow> (nat \<Rightarrow> u8 list) \<Rightarrow> kstate" where
  "kernel_boot m e et tramp sel d =
     \<lparr>mem = m, freelist = 0, held = {}, cur = None, procs = replicate NPROC proc_zero,
      initproc = None, forkret_first = True, nextpid = 1, kernel_pagetable = 0, ticks = 0,
      ftable = replicate NFILE file_zero, itable = replicate NINODE inode_zero,
      bcache = \<lparr>bufs = replicate NBUF buf_zero, lru = []\<rparr>, klog = klog_zero,
      sb = superblock_zero, disk = d, dtrace = [],
      pipes = (\<lambda>_. \<lparr>pdata = replicate PIPESIZE 0, nread = 0, nwrite = 0, readopen = False,
                    writeopen = False\<rparr>),
      cons = \<lparr>cbuf = replicate INPUT_BUF 0, cons_r = 0, cons_w = 0, cons_e = 0\<rparr>,
      uart = \<lparr>tx_buf = replicate UART_TX_BUF_SIZE 0, tx_w = 0, tx_r = 0, tx_room = 1,
              rx_in = []\<rparr>, uart_out = [],
      selection = sel, sym_end = e, sym_etext = et, sym_trampoline = tramp\<rparr>"

section \<open>Primitive accesses\<close>

definition rd64 :: "u64 \<Rightarrow> u64 K" where
  "rd64 a = getK (\<lambda>s. read64 (mem s) a)"

definition wr64 :: "u64 \<Rightarrow> u64 \<Rightarrow> unit K" where
  "wr64 a v = modK (\<lambda>s. s\<lparr>mem := write64 (mem s) a v\<rparr>)"

definition memsetK :: "u64 \<Rightarrow> u8 \<Rightarrow> nat \<Rightarrow> unit K" where
  "memsetK dst c n = modK (\<lambda>s. s\<lparr>mem := memset (mem s) dst c n\<rparr>)"

definition memmoveK :: "u64 \<Rightarrow> u64 \<Rightarrow> nat \<Rightarrow> unit K" where
  "memmoveK dst src n = modK (\<lambda>s. s\<lparr>mem := memmove (mem s) dst src n\<rparr>)"

definition initlock :: "lockid \<Rightarrow> unit K" where
  "initlock l = modK (\<lambda>s. s\<lparr>held := held s - {l}\<rparr>)"

definition acquire :: "lockid \<Rightarrow> unit K" where
  "acquire l = bindK (getK held) (\<lambda>h.
     if l \<in> h then panicK ''acquire'' else modK (\<lambda>s. s\<lparr>held := insert l (held s)\<rparr>))"

definition release :: "lockid \<Rightarrow> unit K" where
  "release l = bindK (getK held) (\<lambda>h.
     if l \<notin> h then panicK ''release'' else modK (\<lambda>s. s\<lparr>held := held s - {l}\<rparr>))"

text \<open>Dereferencing the current process: a null \<^verbatim>\<open>myproc()\<close> is a wild access.\<close>

definition myproc :: "nat K" where
  "myproc = (\<lambda>s. case cur s of None \<Rightarrow> Panic ''null proc'' | Some p \<Rightarrow> Ret p s)"

definition getP :: "nat \<Rightarrow> (proc \<Rightarrow> 'a) \<Rightarrow> 'a K" where
  "getP p f = getK (\<lambda>s. f (procs s ! p))"

definition modP :: "nat \<Rightarrow> (proc \<Rightarrow> proc) \<Rightarrow> unit K" where
  "modP p f = modK (\<lambda>s. s\<lparr>procs := (procs s)[p := f (procs s ! p)]\<rparr>)"

lemma rd64_apply [simp]: "rd64 a s = Ret (read64 (mem s) a) s"
  by (simp add: rd64_def)

lemma wr64_apply [simp]: "wr64 a v s = Ret () (s\<lparr>mem := write64 (mem s) a v\<rparr>)"
  by (simp add: wr64_def)

lemma memsetK_apply [simp]: "memsetK d c n s = Ret () (s\<lparr>mem := memset (mem s) d c n\<rparr>)"
  by (simp add: memsetK_def)

lemma memmoveK_apply [simp]: "memmoveK d a n s = Ret () (s\<lparr>mem := memmove (mem s) d a n\<rparr>)"
  by (simp add: memmoveK_def)

lemma initlock_apply [simp]: "initlock l s = Ret () (s\<lparr>held := held s - {l}\<rparr>)"
  by (simp add: initlock_def)

lemma acquire_apply:
  "acquire l s = (if l \<in> held s then Panic ''acquire'' else Ret () (s\<lparr>held := insert l (held s)\<rparr>))"
  by (simp add: acquire_def)

lemma release_apply:
  "release l s = (if l \<notin> held s then Panic ''release'' else Ret () (s\<lparr>held := held s - {l}\<rparr>))"
  by (simp add: release_def)

lemma acquire_free [simp]: "l \<notin> held s \<Longrightarrow> acquire l s = Ret () (s\<lparr>held := insert l (held s)\<rparr>)"
  by (simp add: acquire_apply)

lemma acquire_held [simp]: "l \<in> held s \<Longrightarrow> acquire l s = Panic ''acquire''"
  by (simp add: acquire_apply)

lemma release_held [simp]: "l \<in> held s \<Longrightarrow> release l s = Ret () (s\<lparr>held := held s - {l}\<rparr>)"
  by (simp add: release_apply)

lemma myproc_Some [simp]: "cur s = Some p \<Longrightarrow> myproc s = Ret p s"
  by (simp add: myproc_def)

lemma getP_apply [simp]: "getP p f s = Ret (f (procs s ! p)) s"
  by (simp add: getP_def)

lemma modP_apply [simp]: "modP p f s = Ret () (s\<lparr>procs := (procs s)[p := f (procs s ! p)]\<rparr>)"
  by (simp add: modP_def)

lemma kstate_held_id [simp]: "s\<lparr>held := held s\<rparr> = s"
  by simp

lemma kstate_mem_id [simp]: "s\<lparr>mem := mem s\<rparr> = s"
  by simp

end
