(* ===== verification/Kalloc.thy ===== *)
theory Kalloc
  imports Kernel_State
begin

text \<open>
  \<^verbatim>\<open>kernel/kalloc.c\<close>: the allocator of physical pages. The free list is threaded through the
  first eight bytes of the free pages themselves. The lemmas relate it to the list of free pages:
  \<^verbatim>\<open>kalloc\<close> pops, \<^verbatim>\<open>kfree\<close> pushes, both leave every other page alone, and \<^verbatim>\<open>kinit\<close> makes every whole
  page between the end of the kernel and \<^verbatim>\<open>PHYSTOP\<close> free exactly once.
\<close>

section \<open>Operations\<close>

definition kfree :: "u64 \<Rightarrow> unit K" where
  "kfree pa =
     bindK (getK sym_end) (\<lambda>e.
     thenK (panic_if (pa mod PGSIZE \<noteq> 0 \<or> pa < e \<or> pa \<ge> PHYSTOP) ''kfree'')
     (thenK (memsetK pa 1 4096)
     (thenK (acquire L_kmem)
     (bindK (getK freelist) (\<lambda>next.
      thenK (wr64 pa next)
     (thenK (modK (\<lambda>s. s\<lparr>freelist := pa\<rparr>))
            (release L_kmem)))))))"

definition kalloc :: "u64 K" where
  "kalloc =
     thenK (acquire L_kmem)
     (bindK (getK freelist) (\<lambda>r.
      thenK (whenK (r \<noteq> 0) (bindK (rd64 r) (\<lambda>next. modK (\<lambda>s. s\<lparr>freelist := next\<rparr>))))
     (thenK (release L_kmem)
     (thenK (whenK (r \<noteq> 0) (memsetK r 5 4096))
            (retK r)))))"

function (sequential) freerange_loop :: "u64 \<Rightarrow> u64 \<Rightarrow> unit K" where
  "freerange_loop p pa_end =
     (if p + PGSIZE \<le> pa_end
      then thenK (kfree p)
        (if p < p + PGSIZE then freerange_loop (p + PGSIZE) pa_end else panicK ''address wrap'')
      else retK ())"
  by pat_completeness auto
termination
  by (relation "measure (\<lambda>(p, e). 2 ^ 64 - unat p)")
    (auto simp: word_less_nat_alt intro!: diff_less_mono2)

declare freerange_loop.simps [simp del]

definition freerange :: "u64 \<Rightarrow> u64 \<Rightarrow> unit K" where
  "freerange pa_start pa_end = freerange_loop (PGROUNDUP pa_start) pa_end"

definition kinit :: "unit K" where
  "kinit = thenK (initlock L_kmem) (bindK (getK sym_end) (\<lambda>e. freerange e PHYSTOP))"
section \<open>The free list\<close>

primrec flist :: "ram \<Rightarrow> u64 \<Rightarrow> u64 list \<Rightarrow> bool" where
  "flist m r [] \<longleftrightarrow> r = 0"
| "flist m r (p # ps) \<longleftrightarrow> r = p \<and> p \<noteq> 0 \<and> flist m (read64 m p) ps"

definition page_ok :: "kstate \<Rightarrow> u64 \<Rightarrow> bool" where
  "page_ok s p \<longleftrightarrow> page_aligned p \<and> sym_end s \<le> p \<and> p < PHYSTOP"

definition kmem_inv :: "kstate \<Rightarrow> u64 list \<Rightarrow> bool" where
  "kmem_inv s ps \<longleftrightarrow>
     flist (mem s) (freelist s) ps \<and> distinct ps \<and> (\<forall>p\<in>set ps. page_ok s p) \<and> sym_end s \<noteq> 0"

text \<open>Two states that differ in the allocator's variables and the bytes of one page only.\<close>

definition only_page :: "u64 \<Rightarrow> kstate \<Rightarrow> kstate \<Rightarrow> bool" where
  "only_page p s t \<longleftrightarrow>
     (\<exists>m r. t = s\<lparr>mem := m, freelist := r\<rparr> \<and> (\<forall>x. PGROUNDDOWN x \<noteq> p \<longrightarrow> m x = mem s x))"

lemma only_page_fields:
  assumes "only_page p s t"
  shows "held t = held s" "procs t = procs s" "cur t = cur s" "sym_end t = sym_end s"
    "selection t = selection s" "PGROUNDDOWN x \<noteq> p \<Longrightarrow> mem t x = mem s x"
  using assms by (auto simp: only_page_def)

lemma flist_cong:
  "(\<And>p. p \<in> set ps \<Longrightarrow> read64 m p = read64 m' p) \<Longrightarrow> flist m r ps = flist m' r ps"
  by (induction ps arbitrary: r) simp_all

lemma flist_other_page:
  assumes "\<And>x. PGROUNDDOWN x \<noteq> q \<Longrightarrow> m' x = m x"
    and "q \<notin> set ps" and "\<And>p. p \<in> set ps \<Longrightarrow> page_aligned p"
  shows "flist m' r ps = flist m r ps"
proof (rule flist_cong)
  fix p assume "p \<in> set ps"
  then have "page_aligned p" "p \<noteq> q" using assms(2,3) by auto
  then show "read64 m' p = read64 m p"
    by (intro read64_cong assms(1)) (auto simp: page_aligned_aligned8)
qed

lemma page_ok_nonzero: "page_ok s p \<Longrightarrow> sym_end s \<noteq> 0 \<Longrightarrow> p \<noteq> 0"
  by (auto simp: page_ok_def)

lemma kalloc_empty: "freelist s = 0 \<Longrightarrow> L_kmem \<notin> held s \<Longrightarrow> kalloc s = Ret 0 s"
  by (simp add: kalloc_def)

lemma kalloc_nonempty:
  "freelist s = p \<Longrightarrow> p \<noteq> 0 \<Longrightarrow> L_kmem \<notin> held s \<Longrightarrow>
   kalloc s = Ret p (s\<lparr>mem := memset (mem s) p 5 4096, freelist := read64 (mem s) p\<rparr>)"
  by (simp add: kalloc_def)

lemma kfree_eq:
  "page_ok s p \<Longrightarrow> L_kmem \<notin> held s \<Longrightarrow>
   kfree p s = Ret () (s\<lparr>mem := write64 (memset (mem s) p 1 4096) p (freelist s), freelist := p\<rparr>)"
  by (simp add: kfree_def page_ok_def page_aligned_def not_less not_le)

lemma kfree_panics: "\<not> page_ok s p \<Longrightarrow> kfree p s = Panic ''kfree''"
  by (simp add: kfree_def page_ok_def page_aligned_def not_less not_le) 

lemma memset_outside: "page_aligned p \<Longrightarrow> PGROUNDDOWN x \<noteq> p \<Longrightarrow> memset m p c 4096 x = m x"
  by (simp add: memset_page)

lemma kalloc_pop:
  assumes "kmem_inv s (p # ps)" and "L_kmem \<notin> held s"
  shows "okK kalloc s (\<lambda>r t. r = p \<and> kmem_inv t ps \<and> only_page p s t)"
proof -
  have p: "page_ok s p" "page_aligned p" "freelist s = p" "p \<noteq> 0"
    using assms(1) by (auto simp: kmem_inv_def page_ok_def)
  have fl: "flist (memset (mem s) p 5 4096) r ps = flist (mem s) r ps" for r
    by (rule flist_other_page) (use assms(1) p in \<open>auto simp: kmem_inv_def page_ok_def memset_page\<close>)
  show ?thesis
    using assms(1) p kalloc_nonempty [OF p(3,4) assms(2)]
    by (auto simp: okK_def kmem_inv_def page_ok_def only_page_def memset_page fl)
qed

lemma kfree_push:
  assumes "kmem_inv s ps" and "L_kmem \<notin> held s" and "page_ok s p" and "p \<notin> set ps"
  shows "okK (kfree p) s (\<lambda>_ t. kmem_inv t (p # ps) \<and> only_page p s t)"
proof -
  let ?m = "write64 (memset (mem s) p 1 4096) p (freelist s)"
  have p: "page_aligned p" "p \<noteq> 0"
    using assms(1,3) page_ok_nonzero by (auto simp: kmem_inv_def page_ok_def)
  have out: "?m x = mem s x" if "PGROUNDDOWN x \<noteq> p" for x
    using that p by (simp add: write64_outside page_aligned_aligned8 memset_page)
  have fl: "flist ?m (freelist s) ps"
    using assms(1,4) by (subst flist_other_page [OF out]) (auto simp: kmem_inv_def page_ok_def)
  show ?thesis
    using assms p fl out kfree_eq [OF assms(3,2)]
    by (auto simp: okK_def kmem_inv_def page_ok_def only_page_def)
qed

section \<open>The allocator's contract\<close>

text \<open>
  What the rest of the kernel relies on: an allocator with an abstract list of free pages.
  \<open>ready\<close> is what a caller has to establish before a call.
\<close>

locale page_allocator =
  fixes alloc :: "u64 K" and free :: "u64 \<Rightarrow> unit K"
    and inv :: "kstate \<Rightarrow> u64 list \<Rightarrow> bool" and ready :: "kstate \<Rightarrow> bool"
    and frame :: "u64 \<Rightarrow> kstate \<Rightarrow> kstate \<Rightarrow> bool" and valid :: "kstate \<Rightarrow> u64 \<Rightarrow> bool"
  assumes alloc_empty: "inv s [] \<Longrightarrow> ready s \<Longrightarrow> alloc s = Ret 0 s"
    and alloc_cons: "inv s (p # ps) \<Longrightarrow> ready s \<Longrightarrow>
      okK alloc s (\<lambda>r t. r = p \<and> inv t ps \<and> frame p s t)"
    and free_cons: "inv s ps \<Longrightarrow> ready s \<Longrightarrow> valid s p \<Longrightarrow> p \<notin> set ps \<Longrightarrow>
      okK (free p) s (\<lambda>_ t. inv t (p # ps) \<and> frame p s t)"
    and inv_distinct: "inv s ps \<Longrightarrow> distinct ps"
    and inv_valid: "inv s ps \<Longrightarrow> p \<in> set ps \<Longrightarrow> valid s p \<and> p \<noteq> 0"
    and frame_ready: "frame p s t \<Longrightarrow> ready t = ready s"
    and frame_valid: "frame p s t \<Longrightarrow> valid t q = valid s q"
begin

lemma alloc_result:
  assumes "inv s ps" and "ready s"
  shows "okK alloc s (\<lambda>r t. if ps = [] then r = 0 \<and> t = s
           else r = hd ps \<and> r \<noteq> 0 \<and> valid s r \<and> r \<notin> set (tl ps) \<and> inv t (tl ps) \<and> ready t \<and> frame r s t)"
proof (cases ps)
  case Nil
  then show ?thesis using alloc_empty assms by (auto intro: okK_I)
next
  case (Cons p qs)
  with assms have "inv s (p # qs)" by simp
  from alloc_cons [OF this assms(2)] show ?thesis
    by (rule okK_mono)
      (use Cons assms inv_valid [of s ps p] inv_distinct [of s ps] frame_ready in auto)
qed

text \<open>Freeing a page just allocated gives back the same free list.\<close>

lemma alloc_free:
  assumes "inv s (p # ps)" and "ready s"
  shows "okK (bindK alloc free) s (\<lambda>_ t. inv t (p # ps))"
proof -
  have "valid s p" "p \<notin> set ps"
    using inv_valid [OF assms(1)] inv_distinct [OF assms(1)] by auto
  then show ?thesis
    by (auto simp: frame_ready frame_valid assms(2)
        intro!: okK_mono [OF alloc_cons [OF assms]] okK_mono [OF free_cons])
qed

text \<open>Two pages allocated one after the other are different and both were free.\<close>

lemma alloc_twice:
  assumes "inv s (p # q # ps)" and "ready s"
  shows "okK (bindK alloc (\<lambda>a. bindK alloc (\<lambda>b. retK (a, b)))) s
           (\<lambda>(a, b) t. a = p \<and> b = q \<and> a \<noteq> b \<and> inv t ps)"
proof -
  have "p \<noteq> q" using inv_distinct [OF assms(1)] by auto
  then show ?thesis
    by (auto simp: frame_ready assms(2)
        intro!: okK_mono [OF alloc_cons [OF assms]] okK_mono [OF alloc_cons])
qed

end

interpretation pg: page_allocator kalloc kfree kmem_inv "\<lambda>s. L_kmem \<notin> held s" only_page page_ok
proof
  fix s assume "kmem_inv s []" "L_kmem \<notin> held s"
  then show "kalloc s = Ret 0 s" by (simp add: kalloc_empty kmem_inv_def)
next
  fix s p ps assume "kmem_inv s (p # ps)" "L_kmem \<notin> held s"
  then show "okK kalloc s (\<lambda>r t. r = p \<and> kmem_inv t ps \<and> only_page p s t)" by (rule kalloc_pop)
next
  fix s ps p assume "kmem_inv s ps" "L_kmem \<notin> held s" "page_ok s p" "p \<notin> set ps"
  then show "okK (kfree p) s (\<lambda>_ t. kmem_inv t (p # ps) \<and> only_page p s t)" by (rule kfree_push)
next
  fix s ps p assume "kmem_inv s ps" "p \<in> set ps"
  then show "page_ok s p \<and> p \<noteq> 0" using page_ok_nonzero by (auto simp: kmem_inv_def)
next
  fix p s t assume fr: "only_page p s t"
  then have "held t = held s" by (rule only_page_fields)
  then show "(L_kmem \<notin> held t) = (L_kmem \<notin> held s)" by simp
next
  fix p s t q assume fr: "only_page p s t"
  then have "sym_end t = sym_end s" by (rule only_page_fields)
  then show "page_ok t q = page_ok s q" by (simp add: page_ok_def)
qed (simp add: kmem_inv_def)

section \<open>Initialisation\<close>

definition page_seq :: "u64 \<Rightarrow> nat \<Rightarrow> u64 list" where
  "page_seq p n = map (\<lambda>i. p + of_nat i * PGSIZE) [0..<n]"

lemma page_seq_0 [simp]: "page_seq p 0 = []"
  by (simp add: page_seq_def)

lemma page_seq_Suc: "page_seq p (Suc n) = p # page_seq (p + PGSIZE) n"
  by (auto simp: page_seq_def upt_conv_Cons map_Suc_upt [symmetric] algebra_simps
      simp del: upt_Suc map_Suc_upt)

lemma unat_page_seq:
  assumes "i < n" and "unat p + 4096 * n \<le> 2 ^ 64"
  shows "unat (p + of_nat i * PGSIZE) = unat p + 4096 * i"
proof -
  have eq: "p + of_nat i * PGSIZE = p + of_nat (4096 * i)"
    by (simp add: PGSIZE_def algebra_simps)
  show ?thesis unfolding eq by (rule unat_add_no_wrap) (use assms in simp)
qed

lemma set_page_seq:
  assumes "page_aligned p" and "unat p + 4096 * n \<le> 2 ^ 64"
  shows "set (page_seq p n) = {q. page_aligned q \<and> unat p \<le> unat q \<and> unat q < unat p + 4096 * n}"
proof (intro equalityI subsetI)
  fix q assume "q \<in> set (page_seq p n)"
  then obtain i where i: "i < n" "q = p + of_nat i * PGSIZE" by (auto simp: page_seq_def)
  then show "q \<in> {q. page_aligned q \<and> unat p \<le> unat q \<and> unat q < unat p + 4096 * n}"
    using unat_page_seq [OF i(1) assms(2)] assms(1) by (simp add: page_aligned_unat)
next
  fix q assume q: "q \<in> {q. page_aligned q \<and> unat p \<le> unat q \<and> unat q < unat p + 4096 * n}"
  let ?i = "(unat q - unat p) div 4096"
  have i: "?i < n" "unat p + 4096 * ?i = unat q"
    using q assms(1) by (auto simp: page_aligned_unat less_mult_imp_div_less)
  then have "q = p + of_nat ?i * PGSIZE"
    using unat_page_seq [OF i(1) assms(2)] by (simp add: word_unat_eq_iff)
  with i(1) show "q \<in> set (page_seq p n)" by (auto simp: page_seq_def)
qed

lemma freerange_loop_pages:
  assumes "kmem_inv s ps" and "L_kmem \<notin> held s" and "page_aligned p"
    and "\<And>q. q \<in> set (page_seq p n) \<Longrightarrow> page_ok s q \<and> q \<notin> set ps"
    and "unat p + 4096 * n \<le> unat e" and "unat e < unat p + 4096 * Suc n" and "unat e < 2 ^ 64 - 4096"
  shows "okK (freerange_loop p e) s (\<lambda>_ t. kmem_inv t (rev (page_seq p n) @ ps))"
  using assms
proof (induction n arbitrary: s ps p)
  case 0
  have un: "unat (p + PGSIZE) = unat p + 4096"
    using 0 unat_add_no_wrap [of p 4096] by (simp add: PGSIZE_def)
  then have "\<not> p + PGSIZE \<le> e" using 0 by (simp add: word_le_nat_alt)
  then show ?case using 0 by (simp add: freerange_loop.simps [of p e])
next
  case (Suc n)
  have un: "unat (p + PGSIZE) = unat p + 4096"
    using Suc.prems unat_add_no_wrap [of p 4096] by (simp add: PGSIZE_def)
  then have go: "p + PGSIZE \<le> e" "p < p + PGSIZE"
    using Suc.prems by (simp_all add: word_le_nat_alt word_less_nat_alt)
  have p: "page_ok s p" "p \<notin> set ps" using Suc.prems(4) by (simp_all add: page_seq_Suc)
  have "okK (freerange_loop (p + PGSIZE) e) t (\<lambda>_ u. kmem_inv u (rev (page_seq (p + PGSIZE) n) @ p # ps))"
    if t: "kmem_inv t (p # ps)" "only_page p s t" for t
  proof (rule Suc.IH [OF t(1)])
    show "L_kmem \<notin> held t" using t(2) Suc.prems(2) by (simp add: only_page_fields)
    show "page_aligned (p + PGSIZE)" using Suc.prems(3) un by (simp add: page_aligned_unat)
    fix q assume q: "q \<in> set (page_seq (p + PGSIZE) n)"
    then have "page_ok s q" "q \<notin> set ps" using Suc.prems(4) by (simp_all add: page_seq_Suc)
    moreover have "q \<noteq> p"
      using q set_page_seq [of "p + PGSIZE" n] un Suc.prems by (auto simp: page_aligned_unat)
    ultimately show "page_ok t q \<and> q \<notin> set (p # ps)"
      using only_page_fields(4) [OF t(2)] by (simp add: page_ok_def)
  qed (use Suc.prems un in simp_all)
  then have "okK (thenK (kfree p) (freerange_loop (p + PGSIZE) e)) s
      (\<lambda>_ u. kmem_inv u (rev (page_seq (p + PGSIZE) n) @ p # ps))"
    unfolding okK_then using kfree_push [OF Suc.prems(1,2) p] by (elim okK_mono) simp
  then show ?case
    using go by (simp add: freerange_loop.simps [of p e] page_seq_Suc)
qed

lemma kinit_pages:
  assumes "freelist s = 0" and "sym_end s \<noteq> 0" and "sym_end s \<le> PHYSTOP"
  shows "okK kinit s (\<lambda>_ t. \<exists>ps. kmem_inv t ps \<and> distinct ps \<and>
           set ps = {p. page_aligned p \<and> sym_end s \<le> p \<and> p < PHYSTOP})"
proof -
  let ?s = "s\<lparr>held := held s - {L_kmem}\<rparr>"
  let ?p = "PGROUNDUP (sym_end s)"
  let ?n = "(unat PHYSTOP - unat ?p) div 4096"
  have P: "unat PHYSTOP = 0x88000000" by (simp add: PHYSTOP_val)
  have e: "unat (sym_end s) \<le> 0x88000000" using assms(3) P by (simp add: word_le_nat_alt)
  then have up: "unat ?p = (unat (sym_end s) + 4095) div 4096 * 4096" by (simp add: unat_PGROUNDUP)
  have al: "page_aligned ?p" using up by (simp add: page_aligned_unat)
  have le: "unat (sym_end s) \<le> unat ?p" "unat ?p \<le> 0x88000000"
    using up e by auto
  have n: "unat ?p + 4096 * ?n = 0x88000000" using le al P by (auto simp: page_aligned_unat)
  have least: "unat ?p \<le> unat q \<longleftrightarrow> unat (sym_end s) \<le> unat q" if q: "page_aligned q" for q
  proof -
    obtain k where "unat q = 4096 * k" using q by (auto simp: page_aligned_unat)
    then show ?thesis using up le(1) by auto
  qed
  have st: "set (page_seq ?p ?n) = {p. page_aligned p \<and> sym_end s \<le> p \<and> p < PHYSTOP}"
  proof -
    have "set (page_seq ?p ?n) = {q. page_aligned q \<and> unat ?p \<le> unat q \<and> unat q < 0x88000000}"
      using set_page_seq [OF al, of ?n] unfolding n by simp
    then show ?thesis using least by (auto simp: word_le_nat_alt word_less_nat_alt P)
  qed
  have "okK (freerange_loop ?p PHYSTOP) ?s (\<lambda>_ t. kmem_inv t (rev (page_seq ?p ?n) @ []))"
  proof (rule freerange_loop_pages)
    show "kmem_inv ?s []" using assms by (simp add: kmem_inv_def)
    fix q assume "q \<in> set (page_seq ?p ?n)"
    then show "page_ok ?s q \<and> q \<notin> set []" unfolding st by (simp add: page_ok_def)
  qed (use al n P in simp_all)
  then have "okK kinit s (\<lambda>_ t. kmem_inv t (rev (page_seq ?p ?n)))"
    by (simp add: kinit_def freerange_def okK_def)
  then show ?thesis
    by (rule okK_mono) (use st in \<open>auto simp: kmem_inv_def intro!: exI [of _ "rev (page_seq ?p ?n)"]\<close>)
qed

section \<open>Properties\<close>

text \<open>A state with three free pages, used to show that the hypotheses below can hold.\<close>

definition sample_ram :: ram where
  "sample_ram = write64 (write64 (\<lambda>_. 0) 0x87fff000 0x87ffe000) 0x87ffe000 0x87ffd000"

definition sample_state :: kstate where
  "sample_state =
     (kernel_boot sample_ram 0x80030000 0x80008000 0x80007000 SCFIFO (\<lambda>_. replicate BSIZE 0))
       \<lparr>freelist := 0x87fff000\<rparr>"

definition sample_pages :: "u64 list" where
  "sample_pages = [0x87fff000, 0x87ffe000, 0x87ffd000]"

lemma sample_fields [simp]:
  "mem sample_state = sample_ram" "freelist sample_state = 0x87fff000" "held sample_state = {}"
  "sym_end sample_state = 0x80030000" "cur sample_state = None" "selection sample_state = SCFIFO"
  by (simp_all add: sample_state_def kernel_boot_def)

lemma read64_zero_ram [simp]: "read64 (\<lambda>_. 0) a = 0"
proof -
  have "rd_bytes (\<lambda>_. 0) a 8 = replicate 8 0" by (rule nth_equalityI) simp_all
  then show ?thesis by (simp add: read64_def numeral_eq_Suc)
qed

lemma sample_reads:
  "read64 sample_ram 0x87fff000 = 0x87ffe000" "read64 sample_ram 0x87ffe000 = 0x87ffd000"
  "read64 sample_ram 0x87ffd000 = 0"
  by (simp_all add: sample_ram_def read64_write64_other aligned8_def)

lemma sample_inv: "kmem_inv sample_state sample_pages"
  by (simp add: kmem_inv_def sample_pages_def page_ok_def page_aligned_unat PHYSTOP_val sample_reads)

text \<open>
  C24: After \<^verbatim>\<open>kinit\<close> the free list holds every whole page between the end of the kernel and
  PHYSTOP, each exactly once, and nothing else.
\<close>

theorem kinit_frees_all_pages:
  assumes "freelist s = 0" and "sym_end s \<noteq> 0" and "sym_end s \<le> PHYSTOP"
  shows "okK kinit s (\<lambda>_ t. \<exists>ps. kmem_inv t ps \<and> distinct ps \<and>
           set ps = {p. page_aligned p \<and> sym_end s \<le> p \<and> p < PHYSTOP})"
  by (rule kinit_pages [OF assms])

theorem kinit_frees_all_pages_witness:
  "okK kinit (kernel_boot (\<lambda>_. 0) 0x80030000 0x80008000 0x80007000 NFUA (\<lambda>_. []))
     (\<lambda>_ t. \<exists>ps. kmem_inv t ps \<and> distinct ps \<and>
        set ps = {p. page_aligned p \<and> 0x80030000 \<le> p \<and> p < PHYSTOP})"
  using kinit_frees_all_pages [of "kernel_boot (\<lambda>_. 0) 0x80030000 0x80008000 0x80007000 NFUA (\<lambda>_. [])"]
  by (simp add: kernel_boot_def PHYSTOP_val)

text \<open>
  C25: \<^verbatim>\<open>kalloc\<close> returns the null pointer and changes nothing when no page is free; otherwise it
  returns the first free page, which is aligned and inside the managed range, removes exactly
  that page from the free list and touches no byte of any other page.
\<close>

theorem kalloc_takes_a_free_page:
  assumes "kmem_inv s ps" and "L_kmem \<notin> held s"
  shows "okK kalloc s (\<lambda>r t. if ps = [] then r = 0 \<and> t = s
           else r = hd ps \<and> r \<noteq> 0 \<and> page_ok s r \<and> r \<notin> set (tl ps) \<and> kmem_inv t (tl ps) \<and>
             L_kmem \<notin> held t \<and> only_page r s t)"
  by (rule pg.alloc_result [OF assms])

theorem kalloc_takes_a_free_page_witness:
  "okK kalloc sample_state (\<lambda>r t. r = 0x87fff000 \<and> kmem_inv t [0x87ffe000, 0x87ffd000])"
  using kalloc_takes_a_free_page [OF sample_inv]
  by (auto simp: sample_pages_def elim!: okK_mono)

text \<open>
  C26: \<^verbatim>\<open>kfree\<close> panics for an address that is not a page of the managed range; for such a page that
  is not free already it puts the page at the head of the free list, filled with junk so that no
  other page changes.
\<close>

theorem kfree_returns_the_page:
  assumes "kmem_inv s ps" and "L_kmem \<notin> held s" and "p \<notin> set ps"
  shows "if page_ok s p then okK (kfree p) s (\<lambda>_ t. kmem_inv t (p # ps) \<and> only_page p s t)
         else kfree p s = Panic ''kfree''"
  using kfree_push [OF assms(1,2) _ assms(3)] kfree_panics by simp

theorem kfree_returns_the_page_witness:
  "okK (kfree 0x87ffc000) sample_state (\<lambda>_ t. kmem_inv t (0x87ffc000 # sample_pages)) \<and>
   kfree 0x87ffc008 sample_state = Panic ''kfree''"
  using kfree_returns_the_page [OF sample_inv, of "0x87ffc000"]
    kfree_returns_the_page [OF sample_inv, of "0x87ffc008"]
  by (auto simp: sample_pages_def page_ok_def page_aligned_unat PHYSTOP_val elim!: okK_mono)

text \<open>
  C27: An allocation followed by freeing the page it returned gives back the same free list.
\<close>

theorem kalloc_kfree_restores:
  assumes "kmem_inv s (p # ps)" and "L_kmem \<notin> held s"
  shows "okK (bindK kalloc kfree) s (\<lambda>_ t. kmem_inv t (p # ps))"
  by (rule pg.alloc_free [OF assms])

theorem kalloc_kfree_restores_witness:
  "okK (bindK kalloc kfree) sample_state (\<lambda>_ t. kmem_inv t sample_pages)"
  using kalloc_kfree_restores [of sample_state "0x87fff000" "[0x87ffe000, 0x87ffd000]"] sample_inv
  by (simp add: sample_pages_def)

end
