(* ===== verification/Printf.thy ===== *)
theory Printf
  imports Kernel_State
begin

text \<open>
  \<^verbatim>\<open>kernel/printf.c\<close>: formatted console output. Formatting is a pure function from the format
  string and the arguments to the bytes sent to the console; \<open>kprintf\<close> takes the lock and sends
  them. The console's output is the list of bytes written to the UART's transmit register, so
  that \<^verbatim>\<open>uartputc_sync\<close> appends one byte (it waits until the UART takes it). The routine \<^verbatim>\<open>panic\<close>
  prints and stops the machine; in the model it is the outcome \<open>Panic\<close>.
\<close>

definition str :: "string \<Rightarrow> u8 list" where
  "str s = map of_char s"

definition digits :: "u8 list" where
  "digits = str ''0123456789abcdef''"

text \<open>The \<^verbatim>\<open>do { buf[i++] = digits[x % base]; } while((x /= base) != 0)\<close> loop, least digit first.\<close>

function digit_loop :: "nat \<Rightarrow> nat \<Rightarrow> u8 list" where
  "digit_loop base x =
     digits ! (x mod base) # (if x div base \<noteq> 0 \<and> 2 \<le> base then digit_loop base (x div base) else [])"
  by pat_completeness auto
termination
proof (relation "measure (\<lambda>(base, x). x)")
  fix base x :: nat
  assume "x div base \<noteq> 0 \<and> 2 \<le> base"
  then have "0 < x" and "1 < base" by (auto intro: gr0I)
  then show "((base, x div base), base, x) \<in> measure (\<lambda>(base, x). x)" by simp
qed simp

declare digit_loop.simps [simp del]

text \<open>\<open>xx\<close> is an \<^verbatim>\<open>int\<close>; its magnitude is an \<^verbatim>\<open>unsigned int\<close>.\<close>

definition printint :: "int \<Rightarrow> nat \<Rightarrow> bool \<Rightarrow> u8 list" where
  "printint xx base sign =
     (let neg = sign \<and> xx < 0;
          x = nat ((if neg then - xx else xx) mod 2 ^ 32);
          buf = digit_loop base x @ (if neg then str ''-'' else [])
      in rev buf)"

primrec ptr_loop :: "nat \<Rightarrow> u64 \<Rightarrow> u8 list" where
  "ptr_loop 0 x = []"
| "ptr_loop (Suc i) x = digits ! unat (drop_bit 60 x) # ptr_loop i (push_bit 4 x)"

definition printptr :: "u64 \<Rightarrow> u8 list" where
  "printptr x = str ''0x'' @ ptr_loop 16 x"

text \<open>An argument of \<^verbatim>\<open>printf\<close>: a word or a string; a null string pointer is \<open>VStr None\<close>.\<close>

datatype va = VWord u64 | VStr "u8 list option"

primrec va_int :: "va \<Rightarrow> int" where
  "va_int (VWord w) = sint (ucast w :: u32)"
| "va_int (VStr _) = 0"

primrec va_word :: "va \<Rightarrow> u64" where
  "va_word (VWord w) = w"
| "va_word (VStr _) = 0"

primrec va_str :: "va \<Rightarrow> u8 list" where
  "va_str (VWord w) = []"
| "va_str (VStr s) = (case s of None \<Rightarrow> str ''(null)'' | Some t \<Rightarrow> t)"

definition va_next :: "va list \<Rightarrow> va" where
  "va_next ap = (case ap of [] \<Rightarrow> VWord 0 | v # _ \<Rightarrow> v)"

fun format :: "u8 list \<Rightarrow> va list \<Rightarrow> u8 list" where
  "format [] ap = []"
| "format [c] ap = (if c = 0 \<or> c = of_char CHR ''%'' then [] else [c])"
| "format (c # d # fmt) ap =
     (if c = 0 then []
      else if c \<noteq> of_char CHR ''%'' then c # format (d # fmt) ap
      else if d = 0 then []
      else if d = of_char CHR ''d'' then printint (va_int (va_next ap)) 10 True @ format fmt (tl ap)
      else if d = of_char CHR ''x'' then printint (va_int (va_next ap)) 16 True @ format fmt (tl ap)
      else if d = of_char CHR ''u'' then printint (va_int (va_next ap)) 10 False @ format fmt (tl ap)
      else if d = of_char CHR ''p'' then printptr (va_word (va_next ap)) @ format fmt (tl ap)
      else if d = of_char CHR ''s'' then va_str (va_next ap) @ format fmt (tl ap)
      else if d = of_char CHR ''%'' then of_char CHR ''%'' # format fmt ap
      else of_char CHR ''%'' # d # format fmt ap)"

declare format.simps [simp del]

definition uartputc_sync :: "u8 \<Rightarrow> unit K" where
  "uartputc_sync c = modK (\<lambda>s. s\<lparr>uart_out := uart_out s @ [c]\<rparr>)"

definition BACKSPACE :: int where "BACKSPACE = 0x100"

definition consputc :: "int \<Rightarrow> unit K" where
  "consputc c =
     (if c = BACKSPACE
      then thenK (uartputc_sync 8) (thenK (uartputc_sync 32) (uartputc_sync 8))
      else uartputc_sync (of_int c))"

definition kprintf :: "string \<Rightarrow> va list \<Rightarrow> unit K" where
  "kprintf fmt ap =
     thenK (acquire L_pr)
     (thenK (forK (format (str fmt) ap) (\<lambda>c. consputc (uint c)))
            (release L_pr))"

section \<open>Lemmas\<close>

lemma consputc_byte: "consputc (uint c) s = Ret () (s\<lparr>uart_out := uart_out s @ [c]\<rparr>)"
proof -
  have "uint c \<noteq> BACKSPACE"
    using unsigned_less [of c, where ?'a = int] by (simp add: BACKSPACE_def)
  then show ?thesis by (simp add: consputc_def uartputc_sync_def)
qed

lemma consputs: "forK cs (\<lambda>c. consputc (uint c)) s = Ret () (s\<lparr>uart_out := uart_out s @ cs\<rparr>)"
proof (induction cs arbitrary: s)
  case Nil
  then show ?case by simp
next
  case (Cons c cs)
  then show ?case by (simp add: thenK_Ret [OF consputc_byte])
qed

lemma kprintf_apply [simp]:
  "L_pr \<notin> held s \<Longrightarrow>
   kprintf fmt ap s = Ret () (s\<lparr>uart_out := uart_out s @ format (str fmt) ap\<rparr>)"
  by (simp add: kprintf_def thenK_Ret [OF consputs])

lemma okK_kprintf [simp]:
  "L_pr \<notin> held s \<Longrightarrow>
   okK (kprintf fmt ap) s Q \<longleftrightarrow> Q () (s\<lparr>uart_out := uart_out s @ format (str fmt) ap\<rparr>)"
  by (simp add: okK_def)

text \<open>The value denoted by a digit string, most significant digit first.\<close>

primrec digit_value :: "u8 \<Rightarrow> u8 list \<Rightarrow> nat" where
  "digit_value d [] = 0"
| "digit_value d (x # xs) = (if d = x then 0 else Suc (digit_value d xs))"

definition digits_denote :: "nat \<Rightarrow> u8 list \<Rightarrow> nat" where
  "digits_denote base ds = foldl (\<lambda>v d. base * v + digit_value d digits) 0 ds"

lemma digit_value_nth: "i < 16 \<Longrightarrow> digit_value (digits ! i) digits = i"
proof -
  have "\<forall>i\<in>set [0..<16]. digit_value (digits ! i) digits = i" by code_simp
  then show "i < 16 \<Longrightarrow> digit_value (digits ! i) digits = i" by simp
qed

lemma digit_loop_denotes:
  assumes "2 \<le> base" and "base \<le> 16"
  shows "digits_denote base (rev (digit_loop base x)) = x"
proof (induction x rule: less_induct)
  case (less x)
  have m: "x mod base < 16" using assms mod_less_divisor [of base x] by linarith
  show ?case
  proof (cases "x div base = 0")
    case True
    then have "x mod base = x" using assms by (simp add: div_eq_0_iff)
    then show ?thesis
      using True m by (subst digit_loop.simps) (simp add: digits_denote_def digit_value_nth)
  next
    case False
    then have "0 < x" by (auto intro: gr0I)
    then have "x div base < x" using assms by simp
    note IH = less.IH [OF this]
    show ?thesis
      using False m assms IH
      by (subst digit_loop.simps) (simp add: digits_denote_def digit_value_nth)
  qed
qed

end
