(* ===== verification/PageTable.thy ===== *)
theory PageTable
  imports Kalloc Printf
begin

text \<open>
  The Sv39 page tables of \<^verbatim>\<open>kernel/vm.c\<close>: \<^verbatim>\<open>walk\<close>, \<^verbatim>\<open>walkaddr\<close>, \<^verbatim>\<open>mappages\<close>, \<^verbatim>\<open>kvmmap\<close>, \<^verbatim>\<open>uvmcreate\<close>,
  \<^verbatim>\<open>uvmclear\<close> and the copies between kernel and user memory. A page-table entry pointer is the
  physical address of the entry, 0 being the null pointer. The bytes a copy takes from or leaves
  in a kernel buffer are a list: \<open>copyout\<close> is given the bytes at \<^verbatim>\<open>src\<close>, and \<open>copyin\<close> and \<open>copyinstr\<close>
  return the bytes they stored at \<^verbatim>\<open>dst\<close> along with the C result, also when they fail.
\<close>

section \<open>Operations\<close>

definition pte_addr :: "u64 \<Rightarrow> nat \<Rightarrow> u64 \<Rightarrow> u64" where
  "pte_addr pagetable level va = pagetable + 8 * PX level va"

primrec walk_loop :: "nat \<Rightarrow> u64 \<Rightarrow> u64 \<Rightarrow> bool \<Rightarrow> u64 K" where
  "walk_loop 0 pagetable va alloc = retK (pte_addr pagetable 0 va)"
| "walk_loop (Suc l) pagetable va alloc =
     bindK (rd64 (pte_addr pagetable (Suc l) va)) (\<lambda>pte.
       if pte AND PTE_V \<noteq> 0 then walk_loop l (PTE2PA pte) va alloc
       else if \<not> alloc then retK 0
       else bindK kalloc (\<lambda>p.
         if p = 0 then retK 0
         else thenK (memsetK p 0 4096)
             (thenK (wr64 (pte_addr pagetable (Suc l) va) (PA2PTE p OR PTE_V))
                    (walk_loop l p va alloc))))"

definition walk :: "u64 \<Rightarrow> u64 \<Rightarrow> bool \<Rightarrow> u64 K" where
  "walk pagetable va alloc =
     thenK (panic_if (va \<ge> MAXVA) ''walk'') (walk_loop 2 pagetable va alloc)"

definition walkaddr :: "u64 \<Rightarrow> u64 \<Rightarrow> u64 K" where
  "walkaddr pagetable va =
     (if va \<ge> MAXVA then retK 0
      else bindK (walk pagetable va False) (\<lambda>a.
        if a = 0 then retK 0
        else bindK (rd64 a) (\<lambda>pte.
          thenK (whenK (pte AND PTE_PG \<noteq> 0) (kprintf ''walkaddr(): pte PTE_PG is on\<newline>'' []))
          (if pte AND PTE_V = 0 then retK 0
           else if pte AND PTE_U = 0 then retK 0
           else let pa = PTE2PA pte in
             thenK (whenK (pa = 0) (kprintf '' walkaddr(): pa == 0\<newline>'' [])) (retK pa)))))"

function (sequential) mappages_loop :: "u64 \<Rightarrow> u64 \<Rightarrow> u64 \<Rightarrow> u64 \<Rightarrow> u64 \<Rightarrow> int K" where
  "mappages_loop pagetable a last_a pa perm =
     bindK (walk pagetable a True) (\<lambda>pte.
       if pte = 0 then retK (-1)
       else bindK (rd64 pte) (\<lambda>v.
         thenK (panic_if (v AND PTE_V \<noteq> 0) ''remap'')
        (thenK (wr64 pte (PA2PTE pa OR perm OR PTE_V))
        (if a = last_a then retK 0
         else if a < a + PGSIZE then mappages_loop pagetable (a + PGSIZE) last_a (pa + PGSIZE) perm
         else panicK ''address wrap''))))"
  by pat_completeness auto
termination
  by (relation "measure (\<lambda>(pt, a, l, pa, perm). 2 ^ 64 - unat a)")
    (auto simp: word_less_nat_alt intro!: diff_less_mono2)

declare mappages_loop.simps [simp del]

definition mappages :: "u64 \<Rightarrow> u64 \<Rightarrow> u64 \<Rightarrow> u64 \<Rightarrow> u64 \<Rightarrow> int K" where
  "mappages pagetable va size_b pa perm =
     mappages_loop pagetable (PGROUNDDOWN va) (PGROUNDDOWN (va + size_b - 1)) pa perm"

function (sequential) mappages2_loop :: "u64 \<Rightarrow> u64 \<Rightarrow> u64 \<Rightarrow> u64 \<Rightarrow> u64 \<Rightarrow> int K" where
  "mappages2_loop pagetable a last_a pa perm =
     bindK (walk pagetable a False) (\<lambda>pte.
       if pte = 0 then retK (-1)
       else thenK (wr64 pte (PA2PTE pa OR perm OR PTE_V))
        (if a = last_a then retK 0
         else if a < a + PGSIZE then mappages2_loop pagetable (a + PGSIZE) last_a (pa + PGSIZE) perm
         else panicK ''address wrap''))"
  by pat_completeness auto
termination
  by (relation "measure (\<lambda>(pt, a, l, pa, perm). 2 ^ 64 - unat a)")
    (auto simp: word_less_nat_alt intro!: diff_less_mono2)

declare mappages2_loop.simps [simp del]

definition mappages2 :: "u64 \<Rightarrow> u64 \<Rightarrow> u64 \<Rightarrow> u64 \<Rightarrow> u64 \<Rightarrow> int K" where
  "mappages2 pagetable va size_b pa perm =
     mappages2_loop pagetable (PGROUNDDOWN va) (PGROUNDDOWN (va + size_b - 1)) pa perm"

definition kvmmap :: "u64 \<Rightarrow> u64 \<Rightarrow> u64 \<Rightarrow> u64 \<Rightarrow> u64 \<Rightarrow> unit K" where
  "kvmmap kpgtbl va pa sz perm =
     bindK (mappages kpgtbl va sz pa perm) (\<lambda>r. panic_if (r \<noteq> 0) ''kvmmap'')"

definition uvmcreate :: "u64 K" where
  "uvmcreate =
     bindK kalloc (\<lambda>pagetable.
       if pagetable = 0 then retK 0
       else thenK (memsetK pagetable 0 4096) (retK pagetable))"

definition uvmclear :: "u64 \<Rightarrow> u64 \<Rightarrow> unit K" where
  "uvmclear pagetable va =
     bindK (walk pagetable va False) (\<lambda>pte.
       thenK (panic_if (pte = 0) ''uvmclear'')
       (bindK (rd64 pte) (\<lambda>v. wr64 pte (v AND NOT PTE_U))))"

section \<open>Copies between kernel and user memory\<close>

text \<open>The part of a copy that stays in the page of \<open>va\<close>.\<close>

definition page_part :: "u64 \<Rightarrow> nat \<Rightarrow> nat" where
  "page_part va len = (let n = 4096 - unat (va - PGROUNDDOWN va) in if n > len then len else n)"

lemma offset_in_page: "unat (va - PGROUNDDOWN va) = unat va mod 4096"
  using unat_PGROUNDDOWN [of va] PGROUNDDOWN_le [of va]
  by (simp add: unat_sub word_le_nat_alt minus_div_mult_eq_mod)

lemma page_part_pos: "0 < len \<Longrightarrow> 0 < page_part va len"
  by (simp add: page_part_def Let_def offset_in_page)

lemma page_part_le: "page_part va len \<le> len"
  by (simp add: page_part_def Let_def)

function (sequential) copyout :: "u64 \<Rightarrow> u64 \<Rightarrow> u8 list \<Rightarrow> int K" where
  "copyout pagetable dstva src =
     (if src = [] then retK 0
      else let va0 = PGROUNDDOWN dstva; n = page_part dstva (length src) in
        bindK (walkaddr pagetable va0) (\<lambda>pa0.
          if pa0 = 0 then retK (-1)
          else thenK (modK (\<lambda>s. s\<lparr>mem := wr_bytes (mem s) (pa0 + (dstva - va0)) (take n src)\<rparr>))
                     (copyout pagetable (va0 + PGSIZE) (drop n src))))"
  by pat_completeness auto
termination
  by (relation "measure (\<lambda>(pt, va, src). length src)") (auto simp: page_part_pos)

declare copyout.simps [simp del]

function (sequential) copyin :: "u64 \<Rightarrow> u64 \<Rightarrow> nat \<Rightarrow> (int \<times> u8 list) K" where
  "copyin pagetable srcva len =
     (if len = 0 then retK (0, [])
      else let va0 = PGROUNDDOWN srcva; n = page_part srcva len in
        bindK (walkaddr pagetable va0) (\<lambda>pa0.
          if pa0 = 0 then retK (-1, [])
          else bindK (getK (\<lambda>s. rd_bytes (mem s) (pa0 + (srcva - va0)) n)) (\<lambda>bs.
               bindK (copyin pagetable (va0 + PGSIZE) (len - n)) (\<lambda>(r, rest).
               retK (r, bs @ rest)))))"
  by pat_completeness auto
termination
  by (relation "measure (\<lambda>(pt, va, len). len)") (auto simp: page_part_pos)

declare copyin.simps [simp del]

text \<open>The inner loop of \<^verbatim>\<open>copyinstr\<close>: the bytes stored at \<^verbatim>\<open>dst\<close>, and whether the NUL was found.\<close>

primrec copystr_loop :: "ram \<Rightarrow> u64 \<Rightarrow> nat \<Rightarrow> u8 list \<times> bool" where
  "copystr_loop m p 0 = ([], False)"
| "copystr_loop m p (Suc n) =
     (if m p = 0 then ([0], True)
      else let (bs, got_null) = copystr_loop m (p + 1) n in (m p # bs, got_null))"

function (sequential) copyinstr :: "u64 \<Rightarrow> u64 \<Rightarrow> nat \<Rightarrow> (int \<times> u8 list) K" where
  "copyinstr pagetable srcva mx =
     (if mx = 0 then retK (-1, [])
      else let va0 = PGROUNDDOWN srcva; n = page_part srcva mx in
        bindK (walkaddr pagetable va0) (\<lambda>pa0.
          if pa0 = 0 then retK (-1, [])
          else bindK (getK (\<lambda>s. copystr_loop (mem s) (pa0 + (srcva - va0)) n)) (\<lambda>(bs, got_null).
            if got_null then retK (0, bs)
            else bindK (copyinstr pagetable (va0 + PGSIZE) (mx - n)) (\<lambda>(r, rest).
                 retK (r, bs @ rest)))))"
  by pat_completeness auto
termination
  by (relation "measure (\<lambda>(pt, va, mx). mx)") (auto simp: page_part_pos)

declare copyinstr.simps [simp del]

section \<open>The tree of page-table pages\<close>

text \<open>
  The pages of the page table rooted at \<open>pt\<close>, \<open>l\<close> being the level of its root, and the shape of
  a proper table: the pages of different entries are disjoint and none is its own descendant.
\<close>

definition slot :: "u64 \<Rightarrow> nat \<Rightarrow> u64" where
  "slot pt i = pt + 8 * of_nat i"

definition child :: "ram \<Rightarrow> u64 \<Rightarrow> nat \<Rightarrow> u64 option" where
  "child m pt i = (if bit (read64 m (slot pt i)) 0 then Some (PTE2PA (read64 m (slot pt i))) else None)"

primrec pt_set :: "nat \<Rightarrow> ram \<Rightarrow> u64 \<Rightarrow> u64 set" where
  "pt_set 0 m pt = {pt}"
| "pt_set (Suc l) m pt =
     insert pt (\<Union>i\<in>{..<512}. case child m pt i of None \<Rightarrow> {} | Some c \<Rightarrow> pt_set l m c)"

primrec pt_wf :: "nat \<Rightarrow> ram \<Rightarrow> u64 \<Rightarrow> bool" where
  "pt_wf 0 m pt \<longleftrightarrow> page_aligned pt"
| "pt_wf (Suc l) m pt \<longleftrightarrow> page_aligned pt \<and>
     (\<forall>i<512. \<forall>c. child m pt i = Some c \<longrightarrow> pt_wf l m c \<and> pt \<notin> pt_set l m c) \<and>
     (\<forall>i<512. \<forall>j<512. \<forall>c d. i \<noteq> j \<longrightarrow> child m pt i = Some c \<longrightarrow> child m pt j = Some d \<longrightarrow>
        pt_set l m c \<inter> pt_set l m d = {})"

text \<open>The address of the leaf entry of \<open>va\<close>, and its value (0 when there is no leaf page).\<close>

primrec leaf :: "nat \<Rightarrow> ram \<Rightarrow> u64 \<Rightarrow> u64 \<Rightarrow> u64 option" where
  "leaf 0 m pt va = Some (slot pt (unat (PX 0 va)))"
| "leaf (Suc l) m pt va =
     (case child m pt (unat (PX (Suc l) va)) of None \<Rightarrow> None | Some c \<Rightarrow> leaf l m c va)"

definition pte_of :: "nat \<Rightarrow> ram \<Rightarrow> u64 \<Rightarrow> u64 \<Rightarrow> u64" where
  "pte_of l m pt va = (case leaf l m pt va of None \<Rightarrow> 0 | Some a \<Rightarrow> read64 m a)"

lemma pte_addr_slot: "pte_addr pt l va = slot pt (unat (PX l va))"
  by (simp add: pte_addr_def slot_def)

lemma unat_slot:
  assumes "page_aligned pt" and "i < 512"
  shows "unat (slot pt i) = unat pt + 8 * i"
proof -
  obtain q where q: "unat pt = 4096 * q" using assms(1) by (auto simp: page_aligned_unat)
  have "slot pt i = pt + of_nat (8 * i)" by (simp add: slot_def)
  moreover have "unat pt + 8 * i < 2 ^ 64"
    using unsigned_less [of pt, where ?'a = nat] q assms(2) by simp
  ultimately show ?thesis by (simp only: unat_add_no_wrap)
qed

lemma slot_facts:
  assumes "page_aligned pt" and "i < 512"
  shows "PGROUNDDOWN (slot pt i) = pt" "aligned8 (slot pt i)"
proof -
  obtain q where q: "unat pt = 4096 * q" using assms(1) by (auto simp: page_aligned_unat)
  show "PGROUNDDOWN (slot pt i) = pt"
    using assms(2) by (simp add: word_unat_eq_iff unat_PGROUNDDOWN unat_slot [OF assms] q)
  show "aligned8 (slot pt i)"
    by (simp add: aligned8_def unat_slot [OF assms] q mod_add_eq [symmetric])
qed

lemma slot_inj:
  assumes "page_aligned pt" "page_aligned pu" "i < 512" "j < 512" "slot pt i = slot pu j"
  shows "pt = pu \<and> i = j"
proof
  show "pt = pu" using slot_facts(1) assms by metis
  then show "i = j" using assms unat_slot by (metis add_left_cancel mult_left_cancel zero_neq_numeral)
qed

lemma child_cong:
  assumes "page_aligned pt" and "i < 512" and "\<And>x. PGROUNDDOWN x = pt \<Longrightarrow> m' x = m x"
  shows "read64 m' (slot pt i) = read64 m (slot pt i)" "child m' pt i = child m pt i"
proof -
  show "read64 m' (slot pt i) = read64 m (slot pt i)"
    by (rule read64_cong) (use assms slot_facts [OF assms(1,2)] in auto)
  then show "child m' pt i = child m pt i" by (simp add: child_def)
qed

lemma pt_wf_aligned: "pt_wf l m pt \<Longrightarrow> page_aligned pt"
  by (cases l) auto

lemma pt_set_root [simp]: "pt \<in> pt_set l m pt"
  by (cases l) auto

lemma pt_set_child:
  "child m pt i = Some c \<Longrightarrow> i < 512 \<Longrightarrow> pt_set l m c \<subseteq> pt_set (Suc l) m pt"
  by force

lemma pt_agree:
  assumes "pt_wf l m pt" and "\<And>x. PGROUNDDOWN x \<in> pt_set l m pt \<Longrightarrow> m' x = m x"
  shows "pt_set l m' pt = pt_set l m pt \<and> pt_wf l m' pt \<and>
    (\<forall>va. leaf l m' pt va = leaf l m pt va \<and> pte_of l m' pt va = pte_of l m pt va)"
  using assms
proof (induction l arbitrary: pt)
  case 0
  then have "read64 m' (slot pt (unat (PX 0 va))) = read64 m (slot pt (unat (PX 0 va)))" for va
    by (intro child_cong) (auto simp: unat_PX)
  then show ?case using 0 by (simp add: pte_of_def)
next
  case (Suc l)
  have ch: "child m' pt i = child m pt i" if "i < 512" for i
    by (rule child_cong) (use Suc.prems that in auto)
  have sub: "pt_set l m' c = pt_set l m c \<and> pt_wf l m' c \<and>
      (\<forall>va. leaf l m' c va = leaf l m c va \<and> pte_of l m' c va = pte_of l m c va)"
    if "i < 512" "child m pt i = Some c" for i c
  proof (rule Suc.IH)
    show "pt_wf l m c" using Suc.prems that by auto
    show "m' x = m x" if "PGROUNDDOWN x \<in> pt_set l m c" for x
      using Suc.prems(2) that pt_set_child [OF \<open>child m pt i = Some c\<close> \<open>i < 512\<close>] by blast
  qed
  have "pt_set (Suc l) m' pt = pt_set (Suc l) m pt"
    using sub by (auto simp: ch split: option.splits)
  moreover have "pt_wf (Suc l) m' pt"
    using Suc.prems(1) sub by (simp add: ch)
  moreover have "leaf (Suc l) m' pt va = leaf (Suc l) m pt va \<and> pte_of (Suc l) m' pt va = pte_of (Suc l) m pt va" for va
    using sub [of "unat (PX (Suc l) va)"] unat_PX [of "Suc l" va]
    by (auto simp: ch pte_of_def split: option.splits)
  ultimately show ?case by blast
qed

lemma pt_set_split:
  assumes "i < 512"
  shows "pt_set (Suc l) m pt =
    insert pt ((case child m pt i of None \<Rightarrow> {} | Some c \<Rightarrow> pt_set l m c) \<union>
      (\<Union>j\<in>{..<512} - {i}. case child m pt j of None \<Rightarrow> {} | Some d \<Rightarrow> pt_set l m d))"
proof -
  have e: "{..<512} = insert i ({..<512} - {i})" using assms by auto
  show ?thesis unfolding pt_set.simps by (subst (1) e) (simp only: UN_insert)
qed

text \<open>One entry of the root gets a new subtree, the others stay.\<close>

lemma pt_replace:
  assumes wf: "pt_wf (Suc l) m pt" and i: "i < 512"
    and others: "\<And>j. j < 512 \<Longrightarrow> j \<noteq> i \<Longrightarrow> child m' pt j = child m pt j"
    and new: "child m' pt i = Some c'" "pt_wf l m' c'" "pt \<notin> pt_set l m' c'"
    and apart: "\<And>j d. j < 512 \<Longrightarrow> j \<noteq> i \<Longrightarrow> child m pt j = Some d \<Longrightarrow>
      pt_set l m d \<inter> pt_set l m' c' = {} \<and> (\<forall>x. PGROUNDDOWN x \<in> pt_set l m d \<longrightarrow> m' x = m x)"
  shows "pt_wf (Suc l) m' pt"
    "pt_set (Suc l) m' pt = insert pt (pt_set l m' c' \<union>
       (\<Union>j\<in>{..<512} - {i}. case child m pt j of None \<Rightarrow> {} | Some d \<Rightarrow> pt_set l m d))"
    "unat (PX (Suc l) va) \<noteq> i \<Longrightarrow> leaf (Suc l) m' pt va = leaf (Suc l) m pt va \<and>
       pte_of (Suc l) m' pt va = pte_of (Suc l) m pt va"
proof -
  have sib: "pt_set l m' d = pt_set l m d \<and> pt_wf l m' d \<and>
      (\<forall>va. leaf l m' d va = leaf l m d va \<and> pte_of l m' d va = pte_of l m d va)"
    if "j < 512" "j \<noteq> i" "child m pt j = Some d" for j d
    by (rule pt_agree) (use wf apart that in auto)
  have al: "page_aligned pt" using wf by simp
  have dj: "pt_set l m' c \<inter> pt_set l m' d = {}"
    if "j < 512" "k < 512" "j \<noteq> k" "child m' pt j = Some c" "child m' pt k = Some d" for j k c d
  proof (cases "j = i \<or> k = i")
    case True
    then show ?thesis
      using that new others apart [of k d] apart [of j c] sib [of k d] sib [of j c] by auto
  next
    case False
    then show ?thesis using that wf others sib [of k d] sib [of j c] by (simp add: others)
  qed
  have ch: "pt_wf l m' c \<and> pt \<notin> pt_set l m' c" if "j < 512" "child m' pt j = Some c" for j c
    using that new wf others sib [of j c] by (cases "j = i") auto
  show "pt_wf (Suc l) m' pt"
    using al ch dj by simp
  have "(\<Union>j\<in>{..<512} - {i}. case child m' pt j of None \<Rightarrow> {} | Some d \<Rightarrow> pt_set l m' d)
    = (\<Union>j\<in>{..<512} - {i}. case child m pt j of None \<Rightarrow> {} | Some d \<Rightarrow> pt_set l m d)"
    using sib others by (intro SUP_cong) (auto split: option.splits)
  then show "pt_set (Suc l) m' pt = insert pt (pt_set l m' c' \<union>
       (\<Union>j\<in>{..<512} - {i}. case child m pt j of None \<Rightarrow> {} | Some d \<Rightarrow> pt_set l m d))"
    unfolding pt_set_split [OF i] by (simp only: new(1) option.case)
  show "leaf (Suc l) m' pt va = leaf (Suc l) m pt va \<and>
       pte_of (Suc l) m' pt va = pte_of (Suc l) m pt va" if "unat (PX (Suc l) va) \<noteq> i"
    using that sib [of "unat (PX (Suc l) va)"] unat_PX [of "Suc l" va] others
    by (auto simp: pte_of_def split: option.splits)
qed

section \<open>Walking\<close>

definition only_pages :: "u64 set \<Rightarrow> kstate \<Rightarrow> kstate \<Rightarrow> bool" where
  "only_pages P s t \<longleftrightarrow>
     (\<exists>m r. t = s\<lparr>mem := m, freelist := r\<rparr> \<and> (\<forall>x. PGROUNDDOWN x \<notin> P \<longrightarrow> m x = mem s x))"

lemma only_pages_fields:
  assumes "only_pages P s t"
  shows "held t = held s" "procs t = procs s" "cur t = cur s" "sym_end t = sym_end s"
    "selection t = selection s" "PGROUNDDOWN x \<notin> P \<Longrightarrow> mem t x = mem s x" "page_ok t q = page_ok s q"
  using assms by (auto simp: only_pages_def page_ok_def)

lemma only_pages_refl: "only_pages P s s"
  by (auto simp: only_pages_def intro!: exI [of _ "mem s"] exI [of _ "freelist s"])

lemma only_page_pages: "only_page p s t \<Longrightarrow> p \<in> P \<Longrightarrow> only_pages P s t"
  by (auto simp: only_page_def only_pages_def)

lemma only_pages_mono: "only_pages P s t \<Longrightarrow> P \<subseteq> Q \<Longrightarrow> only_pages Q s t"
  by (fastforce simp: only_pages_def)

lemma only_pages_trans: "only_pages P s t \<Longrightarrow> only_pages P t u \<Longrightarrow> only_pages P s u"
  by (auto simp: only_pages_def) blast

lemma only_pages_mem:
  "(\<And>x. PGROUNDDOWN x \<notin> P \<Longrightarrow> m x = mem s x) \<Longrightarrow> only_pages P s (s\<lparr>mem := m\<rparr>)"
  by (auto simp: only_pages_def intro!: exI [of _ m] exI [of _ "freelist s"])

lemma kmem_inv_pages:
  assumes "kmem_inv s fl" and "\<And>x. PGROUNDDOWN x \<notin> P \<Longrightarrow> m x = mem s x" and "set fl \<inter> P = {}"
  shows "kmem_inv (s\<lparr>mem := m\<rparr>) fl"
proof -
  have "flist m (freelist s) fl = flist (mem s) (freelist s) fl"
  proof (rule flist_cong)
    fix p assume p: "p \<in> set fl"
    then have "page_aligned p" using assms(1) by (auto simp: kmem_inv_def page_ok_def)
    then show "read64 m p = read64 (mem s) p"
      using p assms(2,3) by (intro read64_cong) (auto simp: page_aligned_aligned8)
  qed
  then show ?thesis using assms(1) by (simp add: kmem_inv_def page_ok_def)
qed

lemma walk_loop_noalloc:
  "walk_loop l pt va False s = Ret (case leaf l (mem s) pt va of None \<Rightarrow> 0 | Some a \<Rightarrow> a) s"
  by (induction l arbitrary: pt) (auto simp: pte_addr_slot child_def)

lemma pt_zero_page:
  assumes "page_aligned p" and "\<And>i. i < 512 \<Longrightarrow> read64 m (slot p i) = 0"
  shows "pt_wf l m p" "pt_set l m p = {p}" "pte_of l m p va = 0"
proof -
  have "child m p i = None" if "i < 512" for i
    using assms(2) [OF that] by (simp add: child_def)
  then show "pt_wf l m p" "pt_set l m p = {p}" "pte_of l m p va = 0"
    using assms by (cases l; auto simp: pte_of_def unat_PX)+
qed

lemma slot_memset0:
  "page_aligned p \<Longrightarrow> i < 512 \<Longrightarrow> read64 (memset m p 0 4096) (slot p i) = 0"
  by (rule read64_memset0) (simp_all add: slot_facts)

text \<open>
  A table that grew: \<open>k\<close> pages were taken from the free list \<open>fl\<close> and are now part of the table; no
  other page of memory changed and every address has the entry it had.
\<close>

definition pt_grow :: "nat \<Rightarrow> u64 \<Rightarrow> kstate \<Rightarrow> u64 list \<Rightarrow> nat \<Rightarrow> kstate \<Rightarrow> bool" where
  "pt_grow l pt s fl k t \<longleftrightarrow>
     k \<le> length fl \<and> kmem_inv t (drop k fl) \<and>
     only_pages (pt_set l (mem s) pt \<union> set (take k fl)) s t \<and>
     pt_wf l (mem t) pt \<and> pt_set l (mem t) pt = pt_set l (mem s) pt \<union> set (take k fl) \<and>
     (\<forall>va. pte_of l (mem t) pt va = pte_of l (mem s) pt va)"

lemma pt_grow_refl: "kmem_inv s fl \<Longrightarrow> pt_wf l (mem s) pt \<Longrightarrow> pt_grow l pt s fl 0 s"
  by (simp add: pt_grow_def only_pages_refl)

lemma pt_grow_trans:
  assumes "pt_grow l pt s fl k t" and "pt_grow l pt t (drop k fl) j u"
  shows "pt_grow l pt s fl (k + j) u"
proof -
  have "take (k + j) fl = take k fl @ take j (drop k fl)" by (rule take_add)
  moreover have "only_pages (pt_set l (mem s) pt \<union> set (take k fl) \<union> set (take j (drop k fl))) s u"
    using assms by (auto simp: pt_grow_def intro: only_pages_mono only_pages_trans)
  ultimately show ?thesis
    using assms by (auto simp: pt_grow_def add.commute Un_assoc)
qed

lemma pt_grow_child:
  assumes wf: "pt_wf (Suc l) (mem s) pt" and i: "i < 512" and c: "child (mem s) pt i = Some c"
    and free: "set fl \<inter> pt_set (Suc l) (mem s) pt = {}" and g: "pt_grow l c s fl k t"
  shows "pt_grow (Suc l) pt s fl k t" "child (mem t) pt i = Some c"
proof -
  let ?new = "set (take k fl)" and ?m = "mem s" and ?m' = "mem t"
  have new: "?new \<inter> pt_set (Suc l) ?m pt = {}"
    using free set_take_subset [of k fl] by blast
  have chg: "?m' x = ?m x" if "PGROUNDDOWN x \<notin> pt_set l ?m c \<union> ?new" for x
    using g that by (auto simp: pt_grow_def dest: only_pages_fields(6))
  have pt: "pt \<notin> pt_set l ?m c" "page_aligned pt" using wf i c by auto
  have ch: "child ?m' pt j = child ?m pt j" if "j < 512" for j
    by (rule child_cong) (use pt new that chg in auto)
  have setc: "pt_set l ?m' c = pt_set l ?m c \<union> ?new" and wfc: "pt_wf l ?m' c"
    and same: "pte_of l ?m' c va = pte_of l ?m c va" for va
    using g by (auto simp: pt_grow_def)
  have sib: "pt_set l ?m d \<inter> pt_set l ?m' c = {} \<and> (\<forall>x. PGROUNDDOWN x \<in> pt_set l ?m d \<longrightarrow> ?m' x = ?m x)"
    if j: "j < 512" "j \<noteq> i" "child ?m pt j = Some d" for j d
  proof -
    have "pt_set l ?m d \<inter> pt_set l ?m c = {}" using wf i c j by auto
    moreover have "pt_set l ?m d \<inter> ?new = {}" using new pt_set_child [OF j(3,1), of l] by blast
    ultimately show ?thesis unfolding setc using chg by blast
  qed
  have ptn: "pt \<notin> pt_set l ?m' c" using pt new setc by auto
  have chi: "child ?m' pt i = Some c" using ch i c by simp
  then show "child ?m' pt i = Some c" .
  have others: "child ?m' pt j = child ?m pt j" if "j < 512" "j \<noteq> i" for j using ch that by simp
  have R1: "pt_wf (Suc l) ?m' pt"
    by (rule pt_replace(1) [OF wf i]; fact others chi wfc ptn sib)
  have R2: "pt_set (Suc l) ?m' pt = insert pt (pt_set l ?m' c \<union>
       (\<Union>j\<in>{..<512} - {i}. case child ?m pt j of None \<Rightarrow> {} | Some d \<Rightarrow> pt_set l ?m d))"
    by (rule pt_replace(2) [OF wf i]; fact others chi wfc ptn sib)
  have R3: "pte_of (Suc l) ?m' pt va = pte_of (Suc l) ?m pt va" if "unat (PX (Suc l) va) \<noteq> i" for va
    by (rule pt_replace(3) [OF wf i, THEN conjunct2]; fact others chi wfc ptn sib that)
  have "pte_of (Suc l) ?m' pt va = pte_of (Suc l) ?m pt va" for va
  proof (cases "unat (PX (Suc l) va) = i")
    case True
    then show ?thesis using same [of va] ch [OF i] c by (simp add: pte_of_def)
  next
    case False
    then show ?thesis by (rule R3)
  qed
  moreover have "pt_set (Suc l) ?m' pt = pt_set (Suc l) ?m pt \<union> ?new"
    using R2 pt_set_split [OF i, of l ?m pt] by (simp add: setc c Un_ac del: pt_set.simps)
  ultimately show "pt_grow (Suc l) pt s fl k t"
    using g R1 pt_set_child [OF c i, of l] by (auto simp: pt_grow_def intro: only_pages_mono)
qed

lemma PTE2PA_V: "page_aligned p \<Longrightarrow> PTE2PA (PA2PTE p OR PTE_V) = p"
  by (rule PTE2PA_PA2PTE) (auto simp: PTE_V_def bit_1_iff)

lemma bit_PTE_V [simp]: "bit PTE_V 0"
  by (simp add: PTE_V_def)

lemma pt_install:
  assumes wf: "pt_wf (Suc l) (mem s) pt" and i: "i < 512" and none: "child (mem s) pt i = None"
    and inv: "kmem_inv s (p # ps)" and free: "set (p # ps) \<inter> pt_set (Suc l) (mem s) pt = {}"
    and s1: "kmem_inv s1 ps" "only_page p s s1"
    and t: "t = s1\<lparr>mem := write64 (memset (mem s1) p 0 4096) (slot pt i) (PA2PTE p OR PTE_V)\<rparr>"
  shows "pt_grow (Suc l) pt s (p # ps) 1 t" "child (mem t) pt i = Some p"
proof -
  let ?m = "mem s" and ?m' = "mem t"
  have pt: "page_aligned pt" using wf by simp
  have p: "page_aligned p" "p \<notin> pt_set (Suc l) ?m pt" "p \<noteq> pt" "p \<notin> set ps"
    using inv free by (auto simp: kmem_inv_def page_ok_def)
  note sl = slot_facts [OF pt]
  have chg: "?m' x = ?m x" if "PGROUNDDOWN x \<noteq> p" "PGROUNDDOWN x \<noteq> pt" for x
    using that sl [OF i] only_page_fields(6) [OF s1(2) that(1)] p(1)
    by (simp add: t write64_outside memset_page)
  have wr: "read64 ?m' (slot pt i) = PA2PTE p OR PTE_V" by (simp add: t)
  have old: "read64 ?m' (slot pt j) = read64 ?m (slot pt j)" if "j < 512" "j \<noteq> i" for j
  proof -
    have "slot pt j \<noteq> slot pt i" using that i slot_inj [OF pt pt] by blast
    then have "read64 ?m' (slot pt j) = read64 (memset (mem s1) p 0 4096) (slot pt j)"
      using sl i that by (simp add: t read64_write64_other)
    also have "\<dots> = read64 ?m (slot pt j)"
      by (rule read64_cong)
        (use sl that p pt only_page_fields(6) [OF s1(2)] in \<open>auto simp: memset_page\<close>)
    finally show ?thesis .
  qed
  have zero: "read64 ?m' (slot p j) = 0" if "j < 512" for j
  proof -
    have "slot p j \<noteq> slot pt i" using that i slot_inj [OF p(1) pt] p(3) by blast
    then show ?thesis
      using sl [OF i] slot_facts [OF p(1) that] that p(1)
      by (simp add: t read64_write64_other slot_memset0)
  qed
  have z: "pt_wf l ?m' p" "pt_set l ?m' p = {p}" "pte_of l ?m' p va = 0" for va
    by (rule pt_zero_page; fact p(1) zero)+
  have chi: "child ?m' pt i = Some p"
    using p(1) by (simp add: child_def wr PTE2PA_V bit_or_iff)
  then show "child ?m' pt i = Some p" .
  have others: "child ?m' pt j = child ?m pt j" if "j < 512" "j \<noteq> i" for j
    using old [OF that] by (simp add: child_def)
  have ptn: "pt \<notin> pt_set l ?m' p" using z p by simp
  have sib: "pt_set l ?m d \<inter> pt_set l ?m' p = {} \<and> (\<forall>x. PGROUNDDOWN x \<in> pt_set l ?m d \<longrightarrow> ?m' x = ?m x)"
    if j: "j < 512" "j \<noteq> i" "child ?m pt j = Some d" for j d
  proof -
    have "pt \<notin> pt_set l ?m d" using wf j by auto
    moreover have "p \<notin> pt_set l ?m d" using p(2) pt_set_child [OF j(3,1), of l] by blast
    ultimately show ?thesis by (auto simp: z(2) intro!: chg)
  qed
  have R1: "pt_wf (Suc l) ?m' pt"
    by (rule pt_replace(1) [OF wf i]; fact others chi z(1) ptn sib)
  have R2: "pt_set (Suc l) ?m' pt = insert pt (pt_set l ?m' p \<union>
       (\<Union>j\<in>{..<512} - {i}. case child ?m pt j of None \<Rightarrow> {} | Some d \<Rightarrow> pt_set l ?m d))"
    by (rule pt_replace(2) [OF wf i]; fact others chi z(1) ptn sib)
  have "pte_of (Suc l) ?m' pt va = pte_of (Suc l) ?m pt va" for va
  proof (cases "unat (PX (Suc l) va) = i")
    case True
    then show ?thesis using z(3) [of va] chi none by (simp add: pte_of_def)
  next
    case False
    show ?thesis
      by (rule pt_replace(3) [OF wf i, THEN conjunct2]; fact others chi z(1) ptn sib False)
  qed
  moreover have "pt_set (Suc l) ?m' pt = pt_set (Suc l) ?m pt \<union> {p}"
    using R2 pt_set_split [OF i, of l ?m pt] none by (simp add: z(2) del: pt_set.simps) auto
  moreover have "kmem_inv t ps"
    unfolding t
  proof (rule kmem_inv_pages [OF s1(1), of "{p, pt}"])
    show "set ps \<inter> {p, pt} = {}" using free p(4) by auto
    show "write64 (memset (mem s1) p 0 4096) (slot pt i) (PA2PTE p OR PTE_V) x = mem s1 x"
      if "PGROUNDDOWN x \<notin> {p, pt}" for x
      using that p(1) sl [OF i] by (simp add: write64_outside memset_page)
  qed
  moreover have "only_pages (pt_set (Suc l) ?m pt \<union> {p}) s t"
  proof -
    obtain m r where "s1 = s\<lparr>mem := m, freelist := r\<rparr>" using s1(2) by (auto simp: only_page_def)
    then have "t = s\<lparr>mem := ?m', freelist := r\<rparr>" by (simp add: t)
    then show ?thesis
      unfolding only_pages_def using chg pt_set_root [of pt "Suc l" ?m] by blast
  qed
  ultimately show "pt_grow (Suc l) pt s (p # ps) 1 t"
    using R1 by (simp add: pt_grow_def del: pt_set.simps pt_wf.simps)
qed

text \<open>
  The allocating walk: it finds the entry of \<open>va\<close> or builds the missing levels with fresh zeroed
  pages; it fails only when the free list has run out.
\<close>

lemma walk_loop_alloc:
  assumes "kmem_inv s fl" and "L_kmem \<notin> held s" and "pt_wf l (mem s) pt"
    and "set fl \<inter> pt_set l (mem s) pt = {}" and "0 \<notin> pt_set l (mem s) pt"
  shows "okK (walk_loop l pt va True) s (\<lambda>a t. \<exists>k. pt_grow l pt s fl k t \<and>
    (if a = 0 then k = length fl \<and> k < l else leaf l (mem t) pt va = Some a \<and> k \<le> l))"
  using assms
proof (induction l arbitrary: s fl pt)
  case 0
  have "PGROUNDDOWN (slot pt (unat (PX 0 va))) = pt" using 0 unat_PX by (simp add: slot_facts)
  then have "slot pt (unat (PX 0 va)) \<noteq> 0" using 0(5) by (auto simp: PGROUNDDOWN_def)
  then show ?case using 0 by (auto simp: pte_addr_slot intro!: exI [of _ 0] pt_grow_refl)
next
  case (Suc l)
  let ?i = "unat (PX (Suc l) va)"
  have i: "?i < 512" by (rule unat_PX)
  have step: "okK (walk_loop l c va True) t (\<lambda>a u. \<exists>k. pt_grow (Suc l) pt t fl' k u \<and>
      (if a = 0 then k = length fl' \<and> k < l else leaf (Suc l) (mem u) pt va = Some a \<and> k \<le> l))"
    if c: "child (mem t) pt ?i = Some c" and t: "kmem_inv t fl'" "L_kmem \<notin> held t"
      "pt_wf (Suc l) (mem t) pt" "set fl' \<inter> pt_set (Suc l) (mem t) pt = {}"
      "0 \<notin> pt_set (Suc l) (mem t) pt" for t fl' c
  proof -
    have sub: "pt_set l (mem t) c \<subseteq> pt_set (Suc l) (mem t) pt" by (rule pt_set_child [OF c i])
    have "okK (walk_loop l c va True) t (\<lambda>a u. \<exists>k. pt_grow l c t fl' k u \<and>
        (if a = 0 then k = length fl' \<and> k < l else leaf l (mem u) c va = Some a \<and> k \<le> l))"
      using t sub c i by (intro Suc.IH) auto
    then show ?thesis
    proof (rule okK_mono)
      fix a u
      assume "\<exists>k. pt_grow l c t fl' k u \<and>
        (if a = 0 then k = length fl' \<and> k < l else leaf l (mem u) c va = Some a \<and> k \<le> l)"
      then obtain k where g: "pt_grow l c t fl' k u"
        and a: "if a = 0 then k = length fl' \<and> k < l else leaf l (mem u) c va = Some a \<and> k \<le> l" by blast
      show "\<exists>k. pt_grow (Suc l) pt t fl' k u \<and>
          (if a = 0 then k = length fl' \<and> k < l else leaf (Suc l) (mem u) pt va = Some a \<and> k \<le> l)"
        using pt_grow_child [OF t(3) i c t(4) g] a by (auto split: if_splits)
    qed
  qed
  show ?case
  proof (cases "child (mem s) pt ?i")
    case (Some c)
    then have v: "bit (read64 (mem s) (pte_addr pt (Suc l) va)) 0"
      "c = PTE2PA (read64 (mem s) (pte_addr pt (Suc l) va))"
      by (auto simp: child_def pte_addr_slot split: if_splits)
    have "walk_loop (Suc l) pt va True s = walk_loop l c va True s" by (simp add: v)
    with step [OF Some Suc.prems] show ?thesis
      unfolding okK_def by (auto split: if_splits simp del: leaf.simps walk_loop.simps)
  next
    case None
    then have v: "\<not> bit (read64 (mem s) (pte_addr pt (Suc l) va)) 0"
      by (auto simp: child_def pte_addr_slot split: if_splits)
    show ?thesis
    proof (cases fl)
      case Nil
      then have "kalloc s = Ret 0 s"
        using Suc.prems by (intro kalloc_empty) (auto simp: kmem_inv_def)
      then have "walk_loop (Suc l) pt va True s = Ret 0 s" by (simp add: v)
      then show ?thesis
        using Suc.prems Nil pt_grow_refl [of s fl "Suc l" pt] by (auto simp: okK_def)
    next
      case (Cons p ps)
      obtain s1 where k: "kalloc s = Ret p s1" and s1: "kmem_inv s1 ps" "only_page p s s1"
        using kalloc_pop [of s p ps] Suc.prems Cons by (auto simp: okK_def)
      define t where
        "t = s1\<lparr>mem := write64 (memset (mem s1) p 0 4096) (slot pt ?i) (PA2PTE p OR PTE_V)\<rparr>"
      have g: "pt_grow (Suc l) pt s fl 1 t" and c: "child (mem t) pt ?i = Some p"
        using pt_install [OF Suc.prems(3) i None _ _ s1 t_def] Suc.prems Cons by auto
      have p0: "p \<noteq> 0" using Suc.prems(1) Cons by (auto simp: kmem_inv_def)
      have "walk_loop (Suc l) pt va True s = walk_loop l p va True t"
        using k p0 v by (simp add: t_def pte_addr_slot)
      moreover have "okK (walk_loop l p va True) t (\<lambda>a u. \<exists>k. pt_grow (Suc l) pt t ps k u \<and>
        (if a = 0 then k = length ps \<and> k < l else leaf (Suc l) (mem u) pt va = Some a \<and> k \<le> l))"
      proof (rule step [OF c])
        show "kmem_inv t ps" "pt_wf (Suc l) (mem t) pt" using g Cons by (auto simp: pt_grow_def)
        have S: "pt_set (Suc l) (mem t) pt = insert p (pt_set (Suc l) (mem s) pt)"
          using g Cons by (simp add: pt_grow_def del: pt_set.simps)
        show "set ps \<inter> pt_set (Suc l) (mem t) pt = {}" "0 \<notin> pt_set (Suc l) (mem t) pt"
          unfolding S using Suc.prems Cons p0 by (auto simp: kmem_inv_def)
        show "L_kmem \<notin> held t" using g Suc.prems(2) by (auto simp: pt_grow_def dest: only_pages_fields(1))
      qed
      moreover have "pt_grow (Suc l) pt s fl (1 + k) u" if "pt_grow (Suc l) pt t ps k u" for k u
        using pt_grow_trans [OF g] that Cons by simp
      ultimately show ?thesis
        using Cons by (auto simp: okK_def split: if_splits)
    qed
  qed
qed

section \<open>Writing an entry\<close>

lemma leaf_in_tree:
  "pt_wf l m pt \<Longrightarrow> leaf l m pt va = Some a \<Longrightarrow>
   PGROUNDDOWN a \<in> pt_set l m pt \<and> aligned8 a \<and> (0 < l \<longrightarrow> PGROUNDDOWN a \<noteq> pt)"
proof (induction l arbitrary: pt)
  case 0
  then show ?case using unat_PX [of 0 va] by (auto simp: slot_facts)
next
  case (Suc l)
  then obtain c where c: "child m pt (unat (PX (Suc l) va)) = Some c" "leaf l m c va = Some a"
    by (auto split: option.splits)
  then show ?case using Suc.IH [of c] Suc.prems unat_PX [of "Suc l" va] by (auto split: option.splits)
qed

lemma bit_PX: "bit (PX k va) n \<longleftrightarrow> n < 9 \<and> bit va (12 + 9 * k + n)"
  unfolding PX_def bit_and_iff bit_mask_literal bit_drop_bit_eq by auto

lemma pte_of_child:
  "child m pt (unat (PX (Suc l) va)) = Some c \<Longrightarrow> pte_of (Suc l) m pt va = pte_of l m c va"
  by (simp add: pte_of_def)

lemma high_bits_0:
  assumes "va < MAXVA" and "38 \<le> n"
  shows "\<not> bit va n"
proof -
  have "unat va < 2 ^ 38" using assms(1) by (simp add: MAXVA_val word_less_nat_alt)
  then have "unat va < 2 ^ n" using assms(2) power_increasing [of 38 n "2 :: nat"] by linarith
  then have "\<not> bit (unat va) n" by (metis take_bit_nat_eq_self bit_take_bit_iff less_irrefl)
  then show ?thesis by (simp add: bit_unsigned_iff)
qed

lemma bit_PGROUNDDOWN: "bit (PGROUNDDOWN va) n \<longleftrightarrow> 12 \<le> n \<and> bit va n"
  by (auto simp: PGROUNDDOWN_alt bit_simps dest: bit_imp_le_length)

lemma same_page_iff:
  assumes "va < MAXVA" and "vb < MAXVA"
  shows "(\<forall>k\<le>2. PX k va = PX k vb) \<longleftrightarrow> PGROUNDDOWN va = PGROUNDDOWN vb"
proof
  assume eq: "\<forall>k\<le>2. PX k va = PX k vb"
  show "PGROUNDDOWN va = PGROUNDDOWN vb"
  proof (rule bit_word_eqI)
    fix n
    have "bit va n = bit vb n" if "12 \<le> n" "n < 38"
    proof -
      define k where "k = (n - 12) div 9"
      have "n = 12 + 9 * k + (n - 12) mod 9" "k \<le> 2" "(n - 12) mod 9 < 9"
        using that by (simp_all add: k_def)
      then show ?thesis using eq bit_PX [of k va "(n - 12) mod 9"] bit_PX [of k vb "(n - 12) mod 9"] by metis
    qed
    then show "bit (PGROUNDDOWN va) n = bit (PGROUNDDOWN vb) n"
      using high_bits_0 [OF assms(1), of n] high_bits_0 [OF assms(2), of n]
      by (auto simp: bit_PGROUNDDOWN not_le [symmetric])
  qed
next
  assume "PGROUNDDOWN va = PGROUNDDOWN vb"
  then have "bit va n = bit vb n" if "12 \<le> n" for n using that by (metis bit_PGROUNDDOWN)
  then show "\<forall>k\<le>2. PX k va = PX k vb" by (auto intro!: bit_word_eqI simp: bit_PX)
qed

lemma pt_write_leaf:
  assumes "pt_wf l m pt" and "leaf l m pt va = Some a"
  shows "pt_wf l (write64 m a v) pt" "pt_set l (write64 m a v) pt = pt_set l m pt"
    "leaf l (write64 m a v) pt vb = leaf l m pt vb"
    "pte_of l (write64 m a v) pt vb = (if \<forall>k\<le>l. PX k vb = PX k va then v else pte_of l m pt vb)"
proof -
  let ?m' = "write64 m a v"
  have "pt_wf l ?m' pt \<and> pt_set l ?m' pt = pt_set l m pt \<and>
    (\<forall>vb. leaf l ?m' pt vb = leaf l m pt vb \<and>
      pte_of l ?m' pt vb = (if \<forall>k\<le>l. PX k vb = PX k va then v else pte_of l m pt vb))"
    using assms
  proof (induction l arbitrary: pt)
    case 0
    then have a: "a = slot pt (unat (PX 0 va))" "aligned8 a" using unat_PX slot_facts by auto
    have "read64 ?m' (slot pt (unat (PX 0 vb))) =
        (if PX 0 vb = PX 0 va then v else read64 m (slot pt (unat (PX 0 vb))))" for vb
    proof (cases "PX 0 vb = PX 0 va")
      case False
      then have "slot pt (unat (PX 0 vb)) \<noteq> a"
        using slot_inj [of pt pt] 0 unat_PX a by (metis pt_wf.simps(1) unsigned_word_eqI)
      then show ?thesis
        using False 0 a unat_PX by (simp add: read64_write64_other slot_facts)
    qed (simp add: a)
    then show ?case using 0 by (simp add: pte_of_def)
  next
    case (Suc l)
    let ?i = "unat (PX (Suc l) va)"
    have i: "?i < 512" by (rule unat_PX)
    obtain c where c: "child m pt ?i = Some c" "leaf l m c va = Some a"
      using Suc.prems(2) by (auto split: option.splits)
    have wfc: "pt_wf l m c" "pt \<notin> pt_set l m c" "page_aligned pt" using Suc.prems(1) c i by auto
    note IH = Suc.IH [OF wfc(1) c(2)]
    note a = leaf_in_tree [OF wfc(1) c(2)]
    have chg: "?m' x = m x" if "PGROUNDDOWN x \<notin> pt_set l m c" for x
      using a that by (auto intro!: write64_outside)
    have ch: "child ?m' pt j = child m pt j" if "j < 512" for j
      by (rule child_cong) (use wfc that chg in auto)
    have others: "child ?m' pt j = child m pt j" if "j < 512" "j \<noteq> ?i" for j using ch that by simp
    have chi: "child ?m' pt ?i = Some c" using ch i c by simp
    have wfc': "pt_wf l ?m' c" and ptn: "pt \<notin> pt_set l ?m' c" using IH wfc by auto
    have sib: "pt_set l m d \<inter> pt_set l ?m' c = {} \<and> (\<forall>x. PGROUNDDOWN x \<in> pt_set l m d \<longrightarrow> ?m' x = m x)"
      if j: "j < 512" "j \<noteq> ?i" "child m pt j = Some d" for j d
    proof -
      have "pt_set l m d \<inter> pt_set l m c = {}" using Suc.prems(1) i c j by auto
      then show ?thesis using IH chg by blast
    qed
    have "pt_wf (Suc l) ?m' pt"
      by (rule pt_replace(1) [OF Suc.prems(1) i]; fact others chi wfc' ptn sib)
    moreover have "pt_set (Suc l) ?m' pt = pt_set (Suc l) m pt"
    proof -
      have "pt_set (Suc l) ?m' pt = insert pt (pt_set l ?m' c \<union>
        (\<Union>j\<in>{..<512} - {?i}. case child m pt j of None \<Rightarrow> {} | Some d \<Rightarrow> pt_set l m d))"
        by (rule pt_replace(2) [OF Suc.prems(1) i]; fact others chi wfc' ptn sib)
      then show ?thesis using pt_set_split [OF i, of l m pt] IH c by (simp del: pt_set.simps)
    qed
    moreover have "leaf (Suc l) ?m' pt vb = leaf (Suc l) m pt vb \<and>
      pte_of (Suc l) ?m' pt vb = (if \<forall>k\<le>Suc l. PX k vb = PX k va then v else pte_of (Suc l) m pt vb)" for vb
    proof (cases "unat (PX (Suc l) vb) = ?i")
      case True
      then have "PX (Suc l) vb = PX (Suc l) va" by (rule unsigned_word_eqI)
      then have "(\<forall>k\<le>Suc l. PX k vb = PX k va) \<longleftrightarrow> (\<forall>k\<le>l. PX k vb = PX k va)"
        by (auto simp: le_Suc_eq)
      then show ?thesis using IH chi c True by (simp add: pte_of_child) blast
    next
      case False
      have "leaf (Suc l) ?m' pt vb = leaf (Suc l) m pt vb \<and> pte_of (Suc l) ?m' pt vb = pte_of (Suc l) m pt vb"
        by (rule pt_replace(3) [OF Suc.prems(1) i]; fact others chi wfc' ptn sib False)
      then show ?thesis using False by auto
    qed
    ultimately show ?case by blast
  qed
  then show "pt_wf l ?m' pt" "pt_set l ?m' pt = pt_set l m pt" "leaf l ?m' pt vb = leaf l m pt vb"
    "pte_of l ?m' pt vb = (if \<forall>k\<le>l. PX k vb = PX k va then v else pte_of l m pt vb)" by auto
qed

section \<open>Mapping pages\<close>

text \<open>A page table together with the allocator it takes its pages from.\<close>

definition pt_inv :: "kstate \<Rightarrow> u64 \<Rightarrow> u64 list \<Rightarrow> bool" where
  "pt_inv s pt fl \<longleftrightarrow> kmem_inv s fl \<and> pt_wf 2 (mem s) pt \<and> set fl \<inter> pt_set 2 (mem s) pt = {} \<and>
     (\<forall>p\<in>pt_set 2 (mem s) pt. page_ok s p)"

lemma pt_inv_nonzero: "pt_inv s pt fl \<Longrightarrow> 0 \<notin> pt_set 2 (mem s) pt"
  by (auto simp: pt_inv_def kmem_inv_def page_ok_def)

lemma pt_inv_grow:
  assumes "pt_inv s pt fl" and "pt_grow 2 pt s fl k t"
  shows "pt_inv t pt (drop k fl)"
proof -
  have fl: "distinct fl" "\<forall>p\<in>set fl. page_ok s p" using assms(1) by (auto simp: pt_inv_def kmem_inv_def)
  have "set (drop k fl) \<inter> set (take k fl) = {}"
    using fl(1) by (metis append_take_drop_id distinct_append inf_commute)
  moreover have "page_ok t p = page_ok s p" for p
    using assms(2) by (auto simp: pt_grow_def dest: only_pages_fields(7))
  moreover have "set (drop k fl) \<subseteq> set fl" "set (take k fl) \<subseteq> set fl"
    by (auto dest: in_set_dropD in_set_takeD)
  ultimately show ?thesis
    using assms fl by (auto simp: pt_inv_def pt_grow_def simp del: pt_set.simps)
qed

lemma walk_alloc:
  assumes "pt_inv s pt fl" and "L_kmem \<notin> held s" and "va < MAXVA"
  shows "okK (walk pt va True) s (\<lambda>a t. \<exists>k. pt_grow 2 pt s fl k t \<and> pt_inv t pt (drop k fl) \<and>
    (if a = 0 then k = length fl \<and> k < 2 else leaf 2 (mem t) pt va = Some a \<and> k \<le> 2))"
proof -
  have "okK (walk_loop 2 pt va True) s (\<lambda>a t. \<exists>k. pt_grow 2 pt s fl k t \<and>
    (if a = 0 then k = length fl \<and> k < 2 else leaf 2 (mem t) pt va = Some a \<and> k \<le> 2))"
    by (rule walk_loop_alloc) (use assms pt_inv_nonzero in \<open>auto simp: pt_inv_def\<close>)
  then have "okK (walk pt va True) s (\<lambda>a t. \<exists>k. pt_grow 2 pt s fl k t \<and>
    (if a = 0 then k = length fl \<and> k < 2 else leaf 2 (mem t) pt va = Some a \<and> k \<le> 2))"
    using assms(3) by (simp add: walk_def not_le)
  then show ?thesis by (rule okK_mono) (use pt_inv_grow [OF assms(1)] in blast)
qed

lemma walk_noalloc:
  assumes "pt_inv s pt fl" and "va < MAXVA"
  shows "walk pt va False s = Ret (case leaf 2 (mem s) pt va of None \<Rightarrow> 0 | Some a \<Rightarrow> a) s"
    "leaf 2 (mem s) pt va = Some a \<Longrightarrow> a \<noteq> 0"
proof -
  show "walk pt va False s = Ret (case leaf 2 (mem s) pt va of None \<Rightarrow> 0 | Some a \<Rightarrow> a) s"
    using assms(2) by (simp add: walk_def walk_loop_noalloc not_le)
  assume "leaf 2 (mem s) pt va = Some a"
  then have "PGROUNDDOWN a \<in> pt_set 2 (mem s) pt"
    using leaf_in_tree assms(1) by (auto simp: pt_inv_def simp del: leaf.simps)
  then show "a \<noteq> 0" using pt_inv_nonzero [OF assms(1)] by (auto simp: PGROUNDDOWN_def)
qed

text \<open>
  The table \<open>t\<close> after the first \<open>n\<close> pages from \<open>a\<close> have been mapped to \<open>pa\<close> and onwards: exactly
  the entries of those pages changed.
\<close>

definition mapped_entry :: "u64 \<Rightarrow> nat \<Rightarrow> u64 \<Rightarrow> u64 \<Rightarrow> (u64 \<Rightarrow> u64) \<Rightarrow> u64 \<Rightarrow> u64" where
  "mapped_entry a n pa perm old vb =
     (if unat (PGROUNDDOWN vb - a) < 4096 * n then PA2PTE (pa + (PGROUNDDOWN vb - a)) OR perm OR PTE_V
      else old vb)"

definition pt_mapped :: "u64 \<Rightarrow> u64 \<Rightarrow> nat \<Rightarrow> u64 \<Rightarrow> u64 \<Rightarrow> kstate \<Rightarrow> u64 list \<Rightarrow> nat \<Rightarrow> kstate \<Rightarrow> bool" where
  "pt_mapped pt a n pa perm s fl k t \<longleftrightarrow>
     k \<le> length fl \<and> pt_inv t pt (drop k fl) \<and>
     only_pages (pt_set 2 (mem s) pt \<union> set (take k fl)) s t \<and>
     pt_set 2 (mem t) pt = pt_set 2 (mem s) pt \<union> set (take k fl) \<and>
     (\<forall>vb<MAXVA. pte_of 2 (mem t) pt vb = mapped_entry a n pa perm (pte_of 2 (mem s) pt) vb)"

lemma page_step:
  assumes "page_aligned a" and "n < 2 ^ 52"
  shows "unat (PGROUNDDOWN vb - a) < 4096 * Suc n \<longleftrightarrow>
    PGROUNDDOWN vb = a \<or> unat (PGROUNDDOWN vb - (a + PGSIZE)) < 4096 * n"
proof -
  obtain q where q: "unat a = 4096 * q" using assms(1) by (auto simp: page_aligned_unat)
  obtain r where r: "unat (PGROUNDDOWN vb) = 4096 * r"
    by (metis page_aligned_PGROUNDDOWN page_aligned_unat mult_div_mod_eq add_0_right)
  have lt: "4096 * q < 2 ^ 64" "4096 * r < 2 ^ 64"
    using unsigned_less [of a, where ?'a = nat] unsigned_less [of "PGROUNDDOWN vb", where ?'a = nat] q r
    by simp_all
  define x where "x = PGROUNDDOWN vb - a"
  have "unat x mod 4096 = 0"
    using lt unfolding x_def by (auto simp: unat_sub_if' q r)
  then obtain y where y: "unat x = 4096 * y" by auto
  have e: "PGROUNDDOWN vb - (a + PGSIZE) = x - 4096" by (simp add: x_def PGSIZE_def algebra_simps)
  have z: "PGROUNDDOWN vb = a \<longleftrightarrow> x = 0" by (simp add: x_def)
  show ?thesis
  proof (cases "x = 0")
    case True
    then show ?thesis using z by (simp add: x_def [symmetric])
  next
    case False
    then have "y \<noteq> 0" using y unat_eq_0 [of x] by (intro notI) simp
    then have "unat (x - 4096) = 4096 * y - 4096" using y by (subst unat_sub) (auto simp: word_le_nat_alt)
    then show ?thesis using False z e y \<open>y \<noteq> 0\<close> by (simp add: x_def [symmetric]) arith
  qed
qed

lemma pt_mapped_Suc:
  assumes "pt_mapped pt (a + PGSIZE) n (pa + PGSIZE) perm t (drop k fl) j u"
    and t: "pt_mapped pt a 1 pa perm s fl k t" and "page_aligned a" and "n < 2 ^ 52"
  shows "pt_mapped pt a (Suc n) pa perm s fl (k + j) u"
proof -
  have "only_pages (pt_set 2 (mem s) pt \<union> set (take k fl) \<union> set (take j (drop k fl))) s u"
    using assms(1,2) by (auto simp: pt_mapped_def intro: only_pages_mono only_pages_trans)
  moreover have "pte_of 2 (mem u) pt vb = mapped_entry a (Suc n) pa perm (pte_of 2 (mem s) pt) vb"
    if vb: "vb < MAXVA" for vb
  proof -
    have one: "unat (PGROUNDDOWN vb - a) < 4096 \<longleftrightarrow> PGROUNDDOWN vb = a"
      using page_step [OF assms(3), of 0 vb] by simp
    have "PGROUNDDOWN vb \<noteq> a" if "unat (PGROUNDDOWN vb - (a + PGSIZE)) < 4096 * n"
    proof
      assume "PGROUNDDOWN vb = a"
      then have "unat (PGROUNDDOWN vb - (a + PGSIZE)) = 2 ^ 64 - 4096" by (simp add: PGSIZE_def)
      then show False using that assms(4) by simp
    qed
    moreover have "pa + PGSIZE + (PGROUNDDOWN vb - (a + PGSIZE)) = pa + (PGROUNDDOWN vb - a)"
      by (simp add: algebra_simps)
    ultimately show ?thesis
      using assms(1,2) vb page_step [OF assms(3,4), of vb] one
      by (auto simp: pt_mapped_def mapped_entry_def simp del: mult_Suc_right)
  qed
  moreover have "set (take (k + j) fl) = set (take k fl) \<union> set (take j (drop k fl))"
    by (simp only: take_add set_append)
  moreover have "drop (k + j) fl = drop j (drop k fl)" by (simp add: add.commute)
  ultimately show ?thesis
    using assms(1,2) unfolding pt_mapped_def by (simp only: Un_assoc) auto
qed

lemma PGROUNDDOWN_less_MAXVA: "va < MAXVA \<Longrightarrow> PGROUNDDOWN va < MAXVA"
  using PGROUNDDOWN_le [of va] by simp

lemma pt_write_inv:
  assumes "pt_inv s pt fl" and "leaf 2 (mem s) pt va = Some a" and "va < MAXVA"
  shows "pt_inv (s\<lparr>mem := write64 (mem s) a v\<rparr>) pt fl"
    "only_pages (pt_set 2 (mem s) pt) s (s\<lparr>mem := write64 (mem s) a v\<rparr>)"
    "pt_set 2 (write64 (mem s) a v) pt = pt_set 2 (mem s) pt"
    "vb < MAXVA \<Longrightarrow> pte_of 2 (write64 (mem s) a v) pt vb =
       (if PGROUNDDOWN vb = PGROUNDDOWN va then v else pte_of 2 (mem s) pt vb)"
proof -
  have wf: "pt_wf 2 (mem s) pt" using assms(1) by (simp add: pt_inv_def)
  note W = pt_write_leaf [OF wf assms(2), of v]
  note a = leaf_in_tree [OF wf assms(2)]
  have out: "write64 (mem s) a v x = mem s x" if "PGROUNDDOWN x \<notin> pt_set 2 (mem s) pt" for x
    using a that by (auto intro!: write64_outside)
  show "only_pages (pt_set 2 (mem s) pt) s (s\<lparr>mem := write64 (mem s) a v\<rparr>)"
    by (rule only_pages_mem) (rule out)
  show "pt_set 2 (write64 (mem s) a v) pt = pt_set 2 (mem s) pt" by (rule W(2))
  show "pt_inv (s\<lparr>mem := write64 (mem s) a v\<rparr>) pt fl"
    using assms(1) W kmem_inv_pages [OF _ out] by (auto simp: pt_inv_def page_ok_def)
  show "pte_of 2 (write64 (mem s) a v) pt vb =
       (if PGROUNDDOWN vb = PGROUNDDOWN va then v else pte_of 2 (mem s) pt vb)" if "vb < MAXVA"
    using W(4) [of vb] same_page_iff [OF that assms(3)] by simp
qed

text \<open>One turn of the loop of \<^verbatim>\<open>mappages\<close>.\<close>

lemma map_step:
  assumes "pt_inv s pt fl" and "pt_grow 2 pt s fl k t" and "leaf 2 (mem t) pt a = Some e"
    and "page_aligned a" and "a < MAXVA"
  shows "pt_mapped pt a 1 pa perm s fl k (t\<lparr>mem := write64 (mem t) e (PA2PTE pa OR perm OR PTE_V)\<rparr>)"
    "read64 (mem t) e = pte_of 2 (mem s) pt a"
proof -
  have t: "pt_inv t pt (drop k fl)" by (rule pt_inv_grow [OF assms(1,2)])
  note W = pt_write_inv [OF t assms(3,5)]
  show "read64 (mem t) e = pte_of 2 (mem s) pt a"
    using assms(2,3) by (metis option.case(2) pt_grow_def pte_of_def)
  have one: "unat (PGROUNDDOWN vb - a) < 4096 \<longleftrightarrow> PGROUNDDOWN vb = a" for vb
    using page_step [OF assms(4), of 0 vb] by simp
  show "pt_mapped pt a 1 pa perm s fl k (t\<lparr>mem := write64 (mem t) e (PA2PTE pa OR perm OR PTE_V)\<rparr>)"
    using assms(2,4) W(1,3,4) only_pages_trans [of _ s t, OF _ W(2)]
    by (auto simp: pt_mapped_def pt_grow_def mapped_entry_def one)
qed

lemma unat_page_add:
  "unat a + 4096 < 2 ^ 64 \<Longrightarrow> unat (a + PGSIZE) = unat a + 4096"
  by (simp add: PGSIZE_def unat_word_ariths)

lemma page_aligned_add: "page_aligned a \<Longrightarrow> page_aligned (a + PGSIZE)"
proof -
  assume "page_aligned a"
  then obtain q where "unat a = 4096 * q" by (auto simp: page_aligned_unat)
  then show ?thesis
    by (auto simp: page_aligned_unat PGSIZE_def unat_word_ariths mod_mod_cancel)
qed

lemma mapped_entry_0 [simp]: "mapped_entry a 0 pa perm old vb = old vb"
  by (simp add: mapped_entry_def)

lemma pt_mapped_0:
  "pt_inv s pt fl \<Longrightarrow> pt_grow 2 pt s fl k t \<Longrightarrow> pt_mapped pt a 0 pa perm s fl k t"
  using pt_inv_grow [of s pt fl k t] by (simp add: pt_mapped_def pt_grow_def)

lemma mappages_turn:
  assumes inv: "pt_inv s pt fl" and lk: "L_kmem \<notin> held s" and a: "page_aligned a" "a < MAXVA"
    and nv: "\<not> bit (pte_of 2 (mem s) pt a) 0"
  obtains (full) k t where "mappages_loop pt a la pa perm s = Ret (-1) t"
      "pt_mapped pt a 0 pa perm s fl k t" "k = length fl"
  | (step) k t where "pt_mapped pt a 1 pa perm s fl k t"
      "mappages_loop pt a la pa perm s = (if a = la then Ret 0 t
         else if a < a + PGSIZE then mappages_loop pt (a + PGSIZE) la (pa + PGSIZE) perm t
         else Panic ''address wrap'')"
proof -
  obtain e t k where w: "walk pt a True s = Ret e t" and g: "pt_grow 2 pt s fl k t"
    and e: "if e = 0 then k = length fl \<and> k < 2 else leaf 2 (mem t) pt a = Some e \<and> k \<le> 2"
    using walk_alloc [OF inv lk a(2)] by (auto simp: okK_def)
  show thesis
  proof (cases "e = 0")
    case True
    then have "mappages_loop pt a la pa perm s = Ret (-1) t"
      by (subst mappages_loop.simps) (simp add: w)
    then show thesis using full pt_mapped_0 [OF inv g] e True by auto
  next
    case False
    then have l: "leaf 2 (mem t) pt a = Some e" using e by simp
    note M = map_step [OF inv g l a]
    have "mappages_loop pt a la pa perm s = (if a = la then Ret 0
         else if a < a + PGSIZE then mappages_loop pt (a + PGSIZE) la (pa + PGSIZE) perm
         else panicK ''address wrap'') (t\<lparr>mem := write64 (mem t) e (PA2PTE pa OR perm OR PTE_V)\<rparr>)"
      using False nv by (subst mappages_loop.simps) (simp add: w M(2))
    then show thesis using step [OF M(1)] by simp
  qed
qed

text \<open>
  The whole loop, for \<open>n + 1\<close> pages that are not mapped. It returns 0 with all of them mapped or,
  when the allocator runs out of pages, -1 with a first part of them mapped.
\<close>

lemma mappages_loop_correct:
  assumes "pt_inv s pt fl" and "L_kmem \<notin> held s" and "page_aligned a"
    and "unat a + 4096 * n < 2 ^ 38"
    and "\<And>vb. vb < MAXVA \<Longrightarrow> unat (PGROUNDDOWN vb - a) < 4096 * Suc n \<Longrightarrow> \<not> bit (pte_of 2 (mem s) pt vb) 0"
  shows "okK (mappages_loop pt a (a + of_nat n * PGSIZE) pa perm) s (\<lambda>r t. \<exists>k j.
    pt_mapped pt a j pa perm s fl k t \<and>
    (r = 0 \<and> j = Suc n \<or> r = -1 \<and> j \<le> n \<and> k = length fl))"
  using assms
proof (induction n arbitrary: a pa s fl)
  case 0
  then have a: "a < MAXVA" by (simp add: MAXVA_val word_less_nat_alt)
  have nv: "\<not> bit (pte_of 2 (mem s) pt a) 0" using 0(5) [OF a] 0(3) by simp
  show ?case
    by (rule mappages_turn [OF 0(1-3) a nv, of "a + of_nat 0 * PGSIZE" pa perm]) (auto simp: okK_def)
next
  case (Suc n)
  have a: "a < MAXVA" using Suc.prems(4) by (simp add: MAXVA_val word_less_nat_alt)
  have nv: "\<not> bit (pte_of 2 (mem s) pt a) 0" using Suc.prems(5) [OF a] Suc.prems(3) by simp
  let ?last = "a + of_nat (Suc n) * PGSIZE"
  have ua: "unat (a + PGSIZE) = unat a + 4096" using Suc.prems(4) by (intro unat_page_add) simp
  have "unat ?last = unat a + 4096 * Suc n"
    using Suc.prems(4) unat_add_no_wrap [of a "4096 * Suc n"] by (simp add: PGSIZE_def algebra_simps)
  then have ne: "a \<noteq> ?last" by auto
  have wr: "a < a + PGSIZE" using ua by (simp add: word_less_nat_alt)
  have la: "a + PGSIZE + of_nat n * PGSIZE = ?last" by (simp add: algebra_simps)
  show ?case
  proof (rule mappages_turn [OF Suc.prems(1-3) a nv, of ?last pa perm])
    fix k t assume "mappages_loop pt a ?last pa perm s = Ret (-1) t"
      "pt_mapped pt a 0 pa perm s fl k t" "k = length fl"
    then show ?thesis by (auto simp: okK_def)
  next
    fix k t assume m: "pt_mapped pt a 1 pa perm s fl k t"
      and "mappages_loop pt a ?last pa perm s = (if a = ?last then Ret 0 t
         else if a < a + PGSIZE then mappages_loop pt (a + PGSIZE) ?last (pa + PGSIZE) perm t
         else Panic ''address wrap'')"
    then have e: "mappages_loop pt a ?last pa perm s =
        mappages_loop pt (a + PGSIZE) (a + PGSIZE + of_nat n * PGSIZE) (pa + PGSIZE) perm t"
      using ne wr by (simp only: la if_False if_True)
    have n52: "j \<le> Suc n \<Longrightarrow> j < 2 ^ 52" for j using Suc.prems(4) by simp
    have "okK (mappages_loop pt (a + PGSIZE) (a + PGSIZE + of_nat n * PGSIZE) (pa + PGSIZE) perm) t
       (\<lambda>r u. \<exists>i j. pt_mapped pt (a + PGSIZE) j (pa + PGSIZE) perm t (drop k fl) i u \<and>
         (r = 0 \<and> j = Suc n \<or> r = -1 \<and> j \<le> n \<and> i = length (drop k fl)))"
    proof (rule Suc.IH)
      show "pt_inv t pt (drop k fl)" using m by (simp add: pt_mapped_def)
      show "L_kmem \<notin> held t" using m Suc.prems(2) by (auto simp: pt_mapped_def dest: only_pages_fields(1))
      show "page_aligned (a + PGSIZE)" using Suc.prems(3) by (rule page_aligned_add)
      show "unat (a + PGSIZE) + 4096 * n < 2 ^ 38" using Suc.prems(4) ua by simp
      show "\<not> bit (pte_of 2 (mem t) pt vb) 0"
        if vb: "vb < MAXVA" "unat (PGROUNDDOWN vb - (a + PGSIZE)) < 4096 * Suc n" for vb
      proof -
        have "PGROUNDDOWN vb \<noteq> a"
        proof
          assume "PGROUNDDOWN vb = a"
          then show False using vb(2) Suc.prems(4) by (simp add: PGSIZE_def)
        qed
        moreover have "unat (PGROUNDDOWN vb - a) < 4096 * Suc (Suc n)"
          using page_step [OF Suc.prems(3) n52 [of "Suc n"], of vb] vb(2) by simp
        ultimately show ?thesis
          using m vb(1) Suc.prems(5) [OF vb(1)] page_step [OF Suc.prems(3), of 0 vb]
          by (simp add: pt_mapped_def mapped_entry_def)
      qed
    qed
    then show ?thesis
      unfolding okK_def e
    proof (elim exE conjE)
      fix r u i j
      assume r: "mappages_loop pt (a + PGSIZE) (a + PGSIZE + of_nat n * PGSIZE) (pa + PGSIZE) perm t = Ret r u"
        and u: "pt_mapped pt (a + PGSIZE) j (pa + PGSIZE) perm t (drop k fl) i u"
        and c: "r = 0 \<and> j = Suc n \<or> r = -1 \<and> j \<le> n \<and> i = length (drop k fl)"
      have "j < 2 ^ 52" using c n52 by auto
      then have "pt_mapped pt a (Suc j) pa perm s fl (k + i) u"
        using pt_mapped_Suc [OF u m Suc.prems(3)] by simp
      moreover have "k \<le> length fl" using m by (simp add: pt_mapped_def)
      ultimately show "\<exists>x t'. mappages_loop pt (a + PGSIZE) (a + PGSIZE + of_nat n * PGSIZE) (pa + PGSIZE) perm t
          = Ret x t' \<and> (\<exists>k j. pt_mapped pt a j pa perm s fl k t' \<and>
             (x = 0 \<and> j = Suc (Suc n) \<or> x = -1 \<and> j \<le> Suc n \<and> k = length fl))"
        using r c by (intro exI [of _ r] exI [of _ u] conjI exI [of _ "k + i"] exI [of _ "Suc j"]) auto
    qed
  qed
qed

lemma walk_loop_existing:
  "leaf l (mem s) pt va = Some a \<Longrightarrow> walk_loop l pt va alloc s = Ret a s"
  by (induction l arbitrary: pt) (auto simp: child_def pte_addr_slot split: if_splits option.splits)

lemma walk_existing:
  "leaf 2 (mem s) pt va = Some a \<Longrightarrow> va < MAXVA \<Longrightarrow> walk pt va alloc s = Ret a s"
  by (simp add: walk_def walk_loop_existing not_le del: leaf.simps)

lemma pte_of_same_page:
  assumes "PGROUNDDOWN va = PGROUNDDOWN vb" and "va < MAXVA" and "vb < MAXVA"
  shows "leaf 2 m pt va = leaf 2 m pt vb" "pte_of 2 m pt va = pte_of 2 m pt vb"
proof -
  have "\<forall>k\<le>l. PX k va = PX k vb \<Longrightarrow> leaf l m pt va = leaf l m pt vb" for l pt
    by (induction l arbitrary: pt) (auto split: option.splits)
  then show "leaf 2 m pt va = leaf 2 m pt vb" using same_page_iff [OF assms(2,3)] assms(1) by blast
  then show "pte_of 2 m pt va = pte_of 2 m pt vb" by (simp add: pte_of_def)
qed

lemma pte_of_PGROUNDDOWN [simp]: "va < MAXVA \<Longrightarrow> pte_of 2 m pt (PGROUNDDOWN va) = pte_of 2 m pt va"
  by (rule pte_of_same_page) (simp_all add: PGROUNDDOWN_less_MAXVA)

lemma mappages_loop_remap:
  assumes "pt_inv s pt fl" and "page_aligned a" and "a < MAXVA" and "bit (pte_of 2 (mem s) pt a) 0"
  shows "mappages_loop pt a la pa perm s = Panic ''remap''"
proof -
  obtain e where e: "leaf 2 (mem s) pt a = Some e"
    using assms(4) by (auto simp: pte_of_def simp del: leaf.simps split: option.splits)
  then have "bit (read64 (mem s) e) 0" using assms(4) by (simp add: pte_of_def)
  then show ?thesis
    using walk_existing [OF e assms(3), of True] walk_noalloc(2) [OF assms(1,3) e]
    by (subst mappages_loop.simps) simp
qed

lemma page_index:
  assumes "page_aligned a" and "unat a + 4096 * n < 2 ^ 38"
  shows "unat (a + of_nat n * PGSIZE) = unat a + 4096 * n" "page_aligned (a + of_nat n * PGSIZE)"
    "a + of_nat n * PGSIZE < MAXVA"
proof -
  show u: "unat (a + of_nat n * PGSIZE) = unat a + 4096 * n"
    using assms(2) unat_add_no_wrap [of a "4096 * n"] by (simp add: PGSIZE_def algebra_simps)
  show "page_aligned (a + of_nat n * PGSIZE)"
    using assms(1) by (simp add: page_aligned_unat u)
  show "a + of_nat n * PGSIZE < MAXVA" using assms(2) by (simp add: MAXVA_val word_less_nat_alt u)
qed

text \<open>
  The loop on a range whose page \<open>m\<close> is mapped already: it stops at that page or at an earlier one.
\<close>

lemma mappages_loop_never_remaps:
  assumes "pt_inv s pt fl" and "L_kmem \<notin> held s" and "page_aligned a"
    and "unat a + 4096 * n < 2 ^ 38" and "m \<le> n" and "bit (pte_of 2 (mem s) pt (a + of_nat m * PGSIZE)) 0"
  shows "mappages_loop pt a (a + of_nat n * PGSIZE) pa perm s = Panic ''remap'' \<or>
    (\<exists>t k j. mappages_loop pt a (a + of_nat n * PGSIZE) pa perm s = Ret (-1) t \<and> j < m \<and> k = length fl \<and>
      pt_mapped pt a j pa perm s fl k t)"
  using assms
proof (induction m arbitrary: a pa s fl n)
  case 0
  then have "a < MAXVA" by (simp add: MAXVA_val word_less_nat_alt)
  then show ?case using mappages_loop_remap [OF 0(1,3)] 0(6) by simp
next
  case (Suc m)
  have a: "a < MAXVA" using Suc.prems(4) by (simp add: MAXVA_val word_less_nat_alt)
  obtain n' where n: "n = Suc n'" using Suc.prems(5) by (cases n) auto
  let ?last = "a + of_nat n * PGSIZE"
  have ua: "unat (a + PGSIZE) = unat a + 4096" using Suc.prems(4) n by (intro unat_page_add) simp
  have "unat ?last = unat a + 4096 * n" by (rule page_index(1) [OF Suc.prems(3,4)])
  then have ne: "a \<noteq> ?last" using n by auto
  have wr: "a < a + PGSIZE" using ua by (simp add: word_less_nat_alt)
  have la: "?last = a + PGSIZE + of_nat n' * PGSIZE" by (simp add: n algebra_simps)
  show ?case
  proof (cases "bit (pte_of 2 (mem s) pt a) 0")
    case True
    then show ?thesis using mappages_loop_remap [OF Suc.prems(1,3) a] by simp
  next
    case False
    show ?thesis
    proof (rule mappages_turn [OF Suc.prems(1-3) a False, of ?last pa perm])
      fix k t assume "mappages_loop pt a ?last pa perm s = Ret (-1) t"
        "pt_mapped pt a 0 pa perm s fl k t" "k = length fl"
      then show ?thesis by blast
    next
      fix k t assume m: "pt_mapped pt a 1 pa perm s fl k t"
        and "mappages_loop pt a ?last pa perm s = (if a = ?last then Ret 0 t
           else if a < a + PGSIZE then mappages_loop pt (a + PGSIZE) ?last (pa + PGSIZE) perm t
           else Panic ''address wrap'')"
      then have e: "mappages_loop pt a ?last pa perm s =
          mappages_loop pt (a + PGSIZE) (a + PGSIZE + of_nat n' * PGSIZE) (pa + PGSIZE) perm t"
        using ne wr by (simp only: la if_False if_True)
      let ?L = "mappages_loop pt (a + PGSIZE) (a + PGSIZE + of_nat n' * PGSIZE) (pa + PGSIZE) perm t"
      have "?L = Panic ''remap'' \<or> (\<exists>u i j. ?L = Ret (-1) u \<and> j < m \<and> i = length (drop k fl) \<and>
          pt_mapped pt (a + PGSIZE) j (pa + PGSIZE) perm t (drop k fl) i u)"
      proof (rule Suc.IH)
        show "pt_inv t pt (drop k fl)" using m by (simp add: pt_mapped_def)
        show "L_kmem \<notin> held t" using m Suc.prems(2) by (auto simp: pt_mapped_def dest: only_pages_fields(1))
        show "page_aligned (a + PGSIZE)" using Suc.prems(3) by (rule page_aligned_add)
        show "unat (a + PGSIZE) + 4096 * n' < 2 ^ 38" using Suc.prems(4) ua n by simp
        show "m \<le> n'" using Suc.prems(5) n by simp
        let ?v = "a + of_nat (Suc m) * PGSIZE"
        have b: "unat a + 4096 * Suc m < 2 ^ 38" using Suc.prems(4,5) by simp
        note v = page_index [OF Suc.prems(3) b]
        have "PGROUNDDOWN ?v = ?v" using v(2) by simp
        moreover have "?v \<noteq> a" using v(1) by auto
        ultimately have "pte_of 2 (mem t) pt ?v = pte_of 2 (mem s) pt ?v"
          using m v(3) page_step [OF Suc.prems(3), of 0 ?v] by (simp add: pt_mapped_def mapped_entry_def)
        then show "bit (pte_of 2 (mem t) pt (a + PGSIZE + of_nat m * PGSIZE)) 0"
          using Suc.prems(6) by (simp add: algebra_simps)
      qed
      then show ?thesis
        unfolding e
      proof (elim disjE exE conjE)
        fix u i j
        assume r: "?L = Ret (-1) u" and j: "j < m" and i: "i = length (drop k fl)"
          and u: "pt_mapped pt (a + PGSIZE) j (pa + PGSIZE) perm t (drop k fl) i u"
        have "j < 2 ^ 52" using j Suc.prems(4,5) by simp
        then have "pt_mapped pt a (Suc j) pa perm s fl (k + i) u"
          by (rule pt_mapped_Suc [OF u m Suc.prems(3)])
        moreover have "k + i = length fl" using m i by (simp add: pt_mapped_def)
        ultimately show "?L = Panic ''remap'' \<or> (\<exists>t k j. ?L = Ret (-1) t \<and> j < Suc m \<and> k = length fl \<and>
            pt_mapped pt a j pa perm s fl k t)"
          using r j by (intro disjI2 exI [of _ u] exI [of _ "k + i"] exI [of _ "Suc j"]) simp
      qed simp
    qed
  qed
qed

section \<open>Properties\<close>

definition npages :: "u64 \<Rightarrow> u64 \<Rightarrow> nat" where
  "npages va size_b = Suc ((unat va + unat size_b - 1) div 4096 - unat va div 4096)"

lemma mappages_last_page:
  assumes "size_b \<noteq> 0" and "unat va + unat size_b \<le> 2 ^ 38"
  shows "PGROUNDDOWN (va + size_b - 1) = PGROUNDDOWN va + of_nat (npages va size_b - 1) * PGSIZE"
    "unat (PGROUNDDOWN va) + 4096 * (npages va size_b - 1) < 2 ^ 38"
proof -
  have z: "0 < unat size_b" using assms(1) by (simp add: unat_gt_0)
  have "unat (va + size_b) = unat va + unat size_b"
    using assms(2) by (simp add: unat_word_ariths)
  then have "unat (va + size_b - 1) = unat va + unat size_b - 1"
    using z by (subst unat_pred) (auto simp: word_unat_eq_iff)
  then have l: "unat (PGROUNDDOWN (va + size_b - 1)) = (unat va + unat size_b - 1) div 4096 * 4096"
    by (simp add: unat_PGROUNDDOWN)
  define k where "k = npages va size_b - 1"
  have le: "unat va div 4096 \<le> (unat va + unat size_b - 1) div 4096" using z by (intro div_le_mono) simp
  have ub: "(unat va + unat size_b - 1) div 4096 * 4096 < 2 ^ 38"
    using assms(2) z div_times_less_eq_dividend [of "unat va + unat size_b - 1" 4096] by linarith
  have e: "unat (PGROUNDDOWN va) + 4096 * k = (unat va + unat size_b - 1) div 4096 * 4096"
    using le by (simp add: k_def npages_def unat_PGROUNDDOWN algebra_simps diff_mult_distrib2)
  with ub show b: "unat (PGROUNDDOWN va) + 4096 * (npages va size_b - 1) < 2 ^ 38"
    by (simp add: k_def)
  have "unat (PGROUNDDOWN va + of_nat (4096 * k)) = unat (PGROUNDDOWN va) + 4096 * k"
    by (rule unat_add_no_wrap) (use b in \<open>simp add: k_def\<close>)
  then have "unat (PGROUNDDOWN (va + size_b - 1)) = unat (PGROUNDDOWN va + of_nat (4096 * k))"
    unfolding l e by simp
  then show "PGROUNDDOWN (va + size_b - 1) = PGROUNDDOWN va + of_nat (npages va size_b - 1) * PGSIZE"
    by (simp add: word_unat_eq_iff k_def PGSIZE_def mult.commute)
qed

text \<open>
  C28: \<^verbatim>\<open>mappages\<close> on a range of unmapped pages below MAXVA: it either returns 0 and exactly the
  pages of the range have new entries, which map them one by one to the physical pages from \<open>pa\<close>
  with the given permissions and PTE_V; or it returns -1 because no free page was left for the
  table, and only a first part of the range is mapped. In both cases the table stays a proper
  tree, every page taken from the allocator is part of it, every other address keeps its entry
  and no memory outside the table changes.
\<close>

theorem mappages_correct:
  assumes "pt_inv s pt fl" and "L_kmem \<notin> held s"
    and "size_b \<noteq> 0" and "unat va + unat size_b \<le> 2 ^ 38"
    and "\<And>vb. vb < MAXVA \<Longrightarrow> unat (PGROUNDDOWN vb - PGROUNDDOWN va) < 4096 * npages va size_b \<Longrightarrow>
      pte_of 2 (mem s) pt vb AND PTE_V = 0"
  shows "okK (mappages pt va size_b pa perm) s (\<lambda>r t. \<exists>k j.
    pt_mapped pt (PGROUNDDOWN va) j pa perm s fl k t \<and>
    (r = 0 \<and> j = npages va size_b \<or> r = -1 \<and> j < npages va size_b \<and> k = length fl))"
proof -
  have n: "npages va size_b = Suc (npages va size_b - 1)" by (simp add: npages_def)
  have nv: "\<not> bit (pte_of 2 (mem s) pt vb) 0"
    if "vb < MAXVA" "unat (PGROUNDDOWN vb - PGROUNDDOWN va) < 4096 * Suc (npages va size_b - 1)" for vb
    using assms(5) [OF that(1)] that(2) n by simp
  have "okK (mappages_loop pt (PGROUNDDOWN va) (PGROUNDDOWN va + of_nat (npages va size_b - 1) * PGSIZE) pa perm) s
    (\<lambda>r t. \<exists>k j. pt_mapped pt (PGROUNDDOWN va) j pa perm s fl k t \<and>
    (r = 0 \<and> j = Suc (npages va size_b - 1) \<or> r = -1 \<and> j \<le> npages va size_b - 1 \<and> k = length fl))"
    by (rule mappages_loop_correct)
      (fact assms(1,2) page_aligned_PGROUNDDOWN mappages_last_page(2) [OF assms(3,4)] nv)+
  then show ?thesis
    unfolding mappages_def mappages_last_page(1) [OF assms(3,4)]
    by (rule okK_mono) (use n in \<open>metis less_Suc_eq_le\<close>)
qed

definition sample_pt :: u64 where "sample_pt = 0x87ffc000"

lemma sample_slot:
  assumes "i < 512" "page_aligned p" "p \<notin> {0x87fff000, 0x87ffe000}"
  shows "read64 sample_ram (slot p i) = 0"
proof -
  note sl = slot_facts [OF assms(2,1)]
  have "slot p i \<noteq> 0x87fff000" "slot p i \<noteq> 0x87ffe000"
    using sl(1) assms(3) by (auto simp: page_aligned_unat dest: arg_cong [where f = PGROUNDDOWN])
  then show ?thesis
    using sl(2) by (simp add: sample_ram_def read64_write64_other aligned8_def)
qed

lemma sample_pt_inv: "pt_inv sample_state sample_pt sample_pages"
proof -
  have al: "page_aligned sample_pt" by (simp add: sample_pt_def page_aligned_unat)
  have z: "read64 sample_ram (slot sample_pt i) = 0" if "i < 512" for i
    by (rule sample_slot [OF that al]) (simp add: sample_pt_def)
  have "pt_wf 2 sample_ram sample_pt" "pt_set 2 sample_ram sample_pt = {sample_pt}"
    by (rule pt_zero_page; fact al z)+
  then show ?thesis
    using sample_inv al by (simp add: pt_inv_def page_ok_def sample_pt_def sample_pages_def PHYSTOP_val)
qed

lemma sample_pte_of: "pte_of 2 sample_ram sample_pt va = 0"
  by (rule pt_zero_page) (auto simp: sample_pt_def page_aligned_unat intro!: sample_slot)

theorem mappages_correct_witness:
  "okK (mappages sample_pt 0x1000 0x2000 0x87000000 (PTE_R OR PTE_U)) sample_state (\<lambda>r t. \<exists>k j.
    pt_mapped sample_pt 0x1000 j 0x87000000 (PTE_R OR PTE_U) sample_state sample_pages k t \<and>
    (r = 0 \<and> j = 2 \<or> r = -1 \<and> j < 2 \<and> k = 3))"
proof -
  have "PGROUNDDOWN 0x1000 = 0x1000" by (simp add: page_aligned_unat)
  moreover have "npages 0x1000 0x2000 = 2" by (simp add: npages_def)
  ultimately show ?thesis
    using mappages_correct [OF sample_pt_inv, of "0x2000" "0x1000"]
    by (simp add: sample_pte_of sample_pages_def numeral_3_eq_3)
qed

text \<open>
  C29: A page that is mapped already is never mapped again: when any page of its range has a valid entry, \<^verbatim>\<open>mappages\<close>
  does not return 0. It panics with "remap" or, when the allocator runs out of pages before the loop gets to that page,
  returns -1 with only pages before it mapped and every other entry, the valid one included, as it was.
\<close>

theorem mappages_never_remaps:
  assumes "pt_inv s pt fl" and "L_kmem \<notin> held s" and "size_b \<noteq> 0" and "unat va + unat size_b \<le> 2 ^ 38"
    and "i < npages va size_b" and "pte_of 2 (mem s) pt (PGROUNDDOWN va + of_nat i * PGSIZE) AND PTE_V \<noteq> 0"
  shows "mappages pt va size_b pa perm s = Panic ''remap'' \<or>
    (\<exists>t k j. mappages pt va size_b pa perm s = Ret (-1) t \<and> j < i \<and> k = length fl \<and>
      pt_mapped pt (PGROUNDDOWN va) j pa perm s fl k t)"
proof -
  have i: "i \<le> npages va size_b - 1" using assms(5) by simp
  have v: "bit (pte_of 2 (mem s) pt (PGROUNDDOWN va + of_nat i * PGSIZE)) 0" using assms(6) by simp
  show ?thesis
    unfolding mappages_def mappages_last_page(1) [OF assms(3,4)]
    by (rule mappages_loop_never_remaps [OF assms(1,2) page_aligned_PGROUNDDOWN
          mappages_last_page(2) [OF assms(3,4)] i v])
qed

text \<open>
  A table with one user page: the virtual page 0 in the frame at \<^verbatim>\<open>0x87000000\<close>, all permissions.
\<close>

definition sample_user_ram :: ram where
  "sample_user_ram =
     write64 (write64 (write64 (write64 sample_ram 0x87000000 0x6968)
       0x87ffc000 0x21ffec01) 0x87ffb000 0x21ffe801) 0x87ffa000 0x21c0001f"

definition sample_user :: kstate where
  "sample_user = sample_state\<lparr>mem := sample_user_ram\<rparr>"

lemma sample_user_fields [simp]:
  "mem sample_user = sample_user_ram" "freelist sample_user = 0x87fff000" "held sample_user = {}"
  "sym_end sample_user = 0x80030000"
  by (simp_all add: sample_user_def)

lemma sample_user_slot:
  assumes "i < 512" "page_aligned p" "p \<notin> {0x87fff000, 0x87ffe000, 0x87000000}"
  shows "read64 sample_user_ram (slot p i) =
    (if i = 0 \<and> p = 0x87ffc000 then 0x21ffec01 else if i = 0 \<and> p = 0x87ffb000 then 0x21ffe801
     else if i = 0 \<and> p = 0x87ffa000 then 0x21c0001f else 0)"
proof -
  note sl = slot_facts [OF assms(2,1)]
  have q: "slot p i = q \<longleftrightarrow> i = 0 \<and> p = q" if "page_aligned q" for q
    using slot_inj [OF assms(2) that assms(1), of 0] by (auto simp: slot_def)
  have al: "page_aligned 0x87ffc000" "page_aligned 0x87ffb000" "page_aligned 0x87ffa000"
    "page_aligned 0x87000000" by (simp_all add: page_aligned_unat)
  have z: "read64 sample_ram (slot p i) = 0" by (rule sample_slot) (use assms in auto)
  show ?thesis
    using sl(2) assms(3) z q [OF al(1)] q [OF al(2)] q [OF al(3)] q [OF al(4)]
    by (auto simp: sample_user_ram_def read64_write64_other aligned8_def)
qed

lemma sample_user_child:
  assumes "i < 512"
  shows "child sample_user_ram 0x87ffc000 i = (if i = 0 then Some 0x87ffb000 else None)"
    "child sample_user_ram 0x87ffb000 i = (if i = 0 then Some 0x87ffa000 else None)"
  using sample_user_slot [OF assms, of "0x87ffc000"] sample_user_slot [OF assms, of "0x87ffb000"]
  by (cases "i = 0"; simp add: child_def page_aligned_unat PTE2PA_def drop_bit_eq_div push_bit_eq_mult)+

lemma pt_single:
  assumes "page_aligned p" and "\<And>i. i < 512 \<Longrightarrow> child m p i = (if i = 0 then Some c else None)"
  shows "pt_set (Suc l) m p = insert p (pt_set l m c)"
    "pt_wf (Suc l) m p \<longleftrightarrow> pt_wf l m c \<and> p \<notin> pt_set l m c"
proof -
  show "pt_set (Suc l) m p = insert p (pt_set l m c)"
    using pt_set_split [of 0 l m p] assms(2) by (simp del: pt_set.simps)
  show "pt_wf (Suc l) m p \<longleftrightarrow> pt_wf l m c \<and> p \<notin> pt_set l m c"
    using assms by (auto split: if_splits)
qed

lemma sample_user_tree:
  "pt_wf 2 sample_user_ram sample_pt"
  "pt_set 2 sample_user_ram sample_pt = {0x87ffc000, 0x87ffb000, 0x87ffa000}"
proof -
  have al: "page_aligned 0x87ffc000" "page_aligned 0x87ffb000" "page_aligned 0x87ffa000"
    by (simp_all add: page_aligned_unat)
  have A: "pt_set (Suc (Suc 0)) sample_user_ram 0x87ffc000 =
      insert 0x87ffc000 (pt_set (Suc 0) sample_user_ram 0x87ffb000)"
    "pt_wf (Suc (Suc 0)) sample_user_ram 0x87ffc000 \<longleftrightarrow> pt_wf (Suc 0) sample_user_ram 0x87ffb000 \<and>
      0x87ffc000 \<notin> pt_set (Suc 0) sample_user_ram 0x87ffb000"
    by (rule pt_single [OF al(1)]; erule sample_user_child)+
  have B: "pt_set (Suc 0) sample_user_ram 0x87ffb000 =
      insert 0x87ffb000 (pt_set 0 sample_user_ram 0x87ffa000)"
    "pt_wf (Suc 0) sample_user_ram 0x87ffb000 \<longleftrightarrow> pt_wf 0 sample_user_ram 0x87ffa000 \<and>
      0x87ffb000 \<notin> pt_set 0 sample_user_ram 0x87ffa000"
    by (rule pt_single [OF al(2)]; erule sample_user_child)+
  have two: "2 = Suc (Suc 0)" by simp
  show "pt_set 2 sample_user_ram sample_pt = {0x87ffc000, 0x87ffb000, 0x87ffa000}"
    unfolding two sample_pt_def A(1) B(1) pt_set.simps(1) ..
  show "pt_wf 2 sample_user_ram sample_pt"
    unfolding two sample_pt_def A(2) B(2) B(1) pt_set.simps(1) pt_wf.simps(1) using al by simp
qed

lemma sample_user_inv: "pt_inv sample_user sample_pt sample_pages"
proof -
  have "kmem_inv sample_user sample_pages"
    unfolding sample_user_def
  proof (rule kmem_inv_pages [OF sample_inv, of "{0x87000000, 0x87ffc000, 0x87ffb000, 0x87ffa000}"])
    fix x assume "PGROUNDDOWN x \<notin> {0x87000000, 0x87ffc000, 0x87ffb000, 0x87ffa000}"
    then show "sample_user_ram x = mem sample_state x"
      by (simp add: sample_user_ram_def write64_outside aligned8_def page_aligned_unat)
  qed (simp add: sample_pages_def)
  then show ?thesis
    using sample_user_tree
    by (simp add: pt_inv_def page_ok_def page_aligned_unat sample_pages_def PHYSTOP_val)
qed

lemma sample_user_leaf_slot:
  "leaf 2 sample_user_ram sample_pt va =
     (if PX 2 va = 0 \<and> PX 1 va = 0 then Some (slot 0x87ffa000 (unat (PX 0 va))) else None)"
proof -
  have u: "PX k va = 0 \<longleftrightarrow> unat (PX k va) = 0" for k by (simp add: unat_eq_0)
  have two: "2 = Suc (Suc 0)" by simp
  show ?thesis
    unfolding two sample_pt_def leaf.simps One_nat_def by (simp add: sample_user_child unat_PX u)
qed

lemma sample_user_pte:
  "va < MAXVA \<Longrightarrow> pte_of 2 sample_user_ram sample_pt va = (if va < 0x1000 then 0x21c0001f else 0)"
proof -
  assume va: "va < MAXVA"
  have z: "(\<forall>k\<le>2. PX k va = 0) \<longleftrightarrow> va < 0x1000"
  proof -
    have "PX k 0 = 0" for k by (simp add: PX_def)
    moreover have "(0 :: u64) < MAXVA" by (simp add: MAXVA_val)
    ultimately have "(\<forall>k\<le>2. PX k va = 0) \<longleftrightarrow> PGROUNDDOWN va = 0"
      using same_page_iff [OF va, of 0] by (simp add: PGROUNDDOWN_def)
    also have "\<dots> \<longleftrightarrow> va < 0x1000"
      by (auto simp: word_unat_eq_iff unat_PGROUNDDOWN word_less_nat_alt)
    finally show ?thesis .
  qed
  have u: "PX k va = 0 \<longleftrightarrow> unat (PX k va) = 0" for k by (simp add: unat_eq_0)
  have two: "2 = Suc (Suc 0)" and al: "page_aligned 0x87ffa000" by (simp_all add: page_aligned_unat)
  note sample_user_leaf_slot [of va]
  moreover have "read64 sample_user_ram (slot 0x87ffa000 (unat (PX 0 va))) =
      (if PX 0 va = 0 then 0x21c0001f else 0)"
    using sample_user_slot [OF unat_PX [of 0 va] al] by (auto simp: u)
  moreover have "(\<forall>k\<le>2. PX k va = 0) \<longleftrightarrow> PX 2 va = 0 \<and> PX 1 va = 0 \<and> PX 0 va = 0"
    unfolding two by (auto simp: le_Suc_eq)
  ultimately show ?thesis unfolding z [symmetric] by (auto simp: pte_of_def)
qed

text \<open>The table with the virtual page 2 mapped as well.\<close>

definition sample_user2 :: kstate where
  "sample_user2 = sample_user\<lparr>mem := write64 sample_user_ram 0x87ffa010 0x21c0001f\<rparr>"

lemma sample_user2_facts:
  "pt_inv sample_user2 sample_pt sample_pages" "held sample_user2 = {}"
  "pte_of 2 (mem sample_user2) sample_pt 0x2000 = 0x21c0001f"
proof -
  have px: "PX 2 0x2000 = 0" "PX 1 0x2000 = 0" "PX 0 0x2000 = 2"
    by (simp_all add: PX_def)
  then have l: "leaf 2 (mem sample_user) sample_pt 0x2000 = Some 0x87ffa010"
    unfolding sample_user_fields sample_user_leaf_slot by (simp add: slot_def)
  have m: "(0x2000 :: u64) < MAXVA" by (simp add: MAXVA_val)
  show "pt_inv sample_user2 sample_pt sample_pages"
    using pt_write_inv(1) [OF sample_user_inv l m] by (simp add: sample_user2_def)
  show "held sample_user2 = {}" by (simp add: sample_user2_def)
  show "pte_of 2 (mem sample_user2) sample_pt 0x2000 = 0x21c0001f"
    using pt_write_inv(4) [OF sample_user_inv l m m] by (simp add: sample_user2_def)
qed

text \<open>A range whose first page is mapped, and one whose second page is.\<close>

theorem mappages_never_remaps_witness:
  "mappages sample_pt 0x10 1 0x87001000 PTE_R sample_user = Panic ''remap'' \<and>
   (mappages sample_pt 0x1000 0x2000 0x87001000 PTE_R sample_user2 = Panic ''remap'' \<or>
    (\<exists>t. mappages sample_pt 0x1000 0x2000 0x87001000 PTE_R sample_user2 = Ret (-1) t \<and>
      pt_mapped sample_pt 0x1000 0 0x87001000 PTE_R sample_user2 sample_pages (length sample_pages) t))"
proof
  have "PGROUNDDOWN (0x10 :: u64) = 0" by (simp add: word_unat_eq_iff unat_PGROUNDDOWN)
  then show "mappages sample_pt 0x10 1 0x87001000 PTE_R sample_user = Panic ''remap''"
    using mappages_never_remaps [OF sample_user_inv, of 1 "0x10" 0 "0x87001000" PTE_R]
    by (simp add: sample_user_pte MAXVA_val npages_def bit_numeral_rec)
  have "PGROUNDDOWN 0x1000 = 0x1000" by (simp add: page_aligned_unat)
  then show "mappages sample_pt 0x1000 0x2000 0x87001000 PTE_R sample_user2 = Panic ''remap'' \<or>
    (\<exists>t. mappages sample_pt 0x1000 0x2000 0x87001000 PTE_R sample_user2 = Ret (-1) t \<and>
      pt_mapped sample_pt 0x1000 0 0x87001000 PTE_R sample_user2 sample_pages (length sample_pages) t)"
    using mappages_never_remaps [OF sample_user2_facts(1), of "0x2000" "0x1000" 1 "0x87001000" PTE_R]
    by (simp add: sample_user2_facts npages_def PGSIZE_def bit_numeral_rec)
qed

end
