(* ===== verification/User_Memory.thy ===== *)
theory User_Memory
  imports PageTable
begin

text \<open>
  What the copies between kernel and user memory do, in terms of the user's address space: the
  byte a user address holds is determined by the entry of its page and the frame the entry
  names. \<open>copyin\<close> and \<open>copyinstr\<close> read that address space and \<open>copyout\<close> stores into it.
\<close>

section \<open>User memory\<close>

text \<open>
  The physical address of a user page, as \<^verbatim>\<open>walkaddr\<close> finds it, and the byte at a user address.
\<close>

definition upage :: "ram \<Rightarrow> u64 \<Rightarrow> u64 \<Rightarrow> u64 option" where
  "upage m pt va =
     (let pte = pte_of 2 m pt va in
      if va < MAXVA \<and> bit pte 0 \<and> bit pte 4 \<and> PTE2PA pte \<noteq> 0 then Some (PTE2PA pte) else None)"

definition ubyte :: "ram \<Rightarrow> u64 \<Rightarrow> u64 \<Rightarrow> u8 option" where
  "ubyte m pt va =
     (case upage m pt va of None \<Rightarrow> None | Some pa \<Rightarrow> Some (m (pa + (va - PGROUNDDOWN va))))"

text \<open>States that differ in the console output only.\<close>

definition only_out :: "kstate \<Rightarrow> kstate \<Rightarrow> bool" where
  "only_out s t \<longleftrightarrow> (\<exists>out. t = s\<lparr>uart_out := out\<rparr>)"

lemma only_out_refl [simp]: "only_out s s"
  by (auto simp: only_out_def intro!: exI [of _ "uart_out s"])

lemma only_out_upd [simp]: "only_out s (s\<lparr>uart_out := out\<rparr>)"
  by (auto simp: only_out_def)

lemma only_out_trans: "only_out s t \<Longrightarrow> only_out t u \<Longrightarrow> only_out s u"
  by (auto simp: only_out_def)

lemma only_out_fields:
  "only_out s t \<Longrightarrow> mem t = mem s \<and> held t = held s \<and> freelist t = freelist s \<and> sym_end t = sym_end s"
  by (auto simp: only_out_def)

lemma pt_inv_cong:
  assumes "mem t = mem s" "freelist t = freelist s" "sym_end t = sym_end s"
  shows "pt_inv t pt fl = pt_inv s pt fl"
  using assms by (simp add: pt_inv_def kmem_inv_def page_ok_def)

lemma PTE2PA_0 [simp]: "PTE2PA 0 = 0"
  by (simp add: PTE2PA_def)

lemma okK_rd64 [simp]: "okK (rd64 a) s Q \<longleftrightarrow> Q (read64 (mem s) a) s"
  by (simp add: okK_def)

lemma okK_wr64 [simp]: "okK (wr64 a v) s Q \<longleftrightarrow> Q () (s\<lparr>mem := write64 (mem s) a v\<rparr>)"
  by (simp add: okK_def)

lemma walkaddr_correct:
  assumes "pt_inv s pt fl" and "L_pr \<notin> held s"
  shows "okK (walkaddr pt va) s (\<lambda>pa t. only_out s t \<and>
    pa = (case upage (mem s) pt va of None \<Rightarrow> 0 | Some p \<Rightarrow> p))"
proof (cases "va < MAXVA")
  case True
  show ?thesis
  proof (cases "leaf 2 (mem s) pt va")
    case None
    then have "pte_of 2 (mem s) pt va = 0" by (simp add: pte_of_def)
    then show ?thesis
      using True None walk_noalloc(1) [OF assms(1) True]
      by (auto simp: walkaddr_def okK_def upage_def not_le)
  next
    case (Some a)
    then have e: "read64 (mem s) a = pte_of 2 (mem s) pt va" by (simp add: pte_of_def)
    have "okK (walk pt va False) s Q \<longleftrightarrow> Q a s" for Q :: "u64 \<Rightarrow> kstate \<Rightarrow> bool"
      using walk_existing [OF Some True] by (simp add: okK_def)
    then show ?thesis
      using True iffD2 [OF not_le True] assms(2) walk_noalloc(2) [OF assms(1) True Some]
      by (simp add: walkaddr_def upage_def Let_def okK_rd64 e)
  qed
next
  case False
  then have "MAXVA \<le> va" by simp
  with False show ?thesis by (simp add: walkaddr_def upage_def)
qed

lemma page_part_offset:
  assumes "i < page_part va len"
  shows "PGROUNDDOWN (va + of_nat i) = PGROUNDDOWN va" "unat va mod 4096 + i < 4096"
proof -
  show i: "unat va mod 4096 + i < 4096"
    using assms by (auto simp: page_part_def Let_def offset_in_page split: if_splits)
  define q r where "q = unat va div 4096" and "r = unat va mod 4096"
  have v: "unat va = 4096 * q + r" and i': "r + i < 4096" using i by (simp_all add: q_def r_def)
  have "q < 2 ^ 52" using unsigned_less [of va, where ?'a = nat]
    by (simp add: q_def less_mult_imp_div_less)
  then have "unat va + i < 2 ^ 64" using i' v by simp
  then have "unat (va + of_nat i) = unat va + i" by (rule unat_add_no_wrap)
  moreover have "(unat va + i) div 4096 = unat va div 4096"
    using i' by (simp add: v)
  ultimately have "unat (PGROUNDDOWN (va + of_nat i)) = unat (PGROUNDDOWN va)"
    by (simp only: unat_PGROUNDDOWN)
  then show "PGROUNDDOWN (va + of_nat i) = PGROUNDDOWN va" by (rule unsigned_word_eqI)
qed

lemma page_part_next:
  "page_part va len < len \<Longrightarrow> PGROUNDDOWN va + PGSIZE = va + of_nat (page_part va len)"
proof -
  assume "page_part va len < len"
  then have p: "page_part va len = 4096 - unat va mod 4096"
    by (auto simp: page_part_def Let_def offset_in_page split: if_splits)
  define r where "r = (of_nat (unat va mod 4096) :: u64)"
  have va: "va = PGROUNDDOWN va + r"
    unfolding r_def offset_in_page [symmetric] by simp
  have "(of_nat (4096 - unat va mod 4096) :: u64) = 4096 - r"
    unfolding r_def by (subst of_nat_diff) (simp_all add: less_imp_le)
  moreover have "P + PGSIZE = P + r + (4096 - r)" for P by (simp add: PGSIZE_def)
  ultimately show ?thesis unfolding p using va by metis
qed

lemma upage_PGROUNDDOWN:
  assumes "va < MAXVA \<or> PGROUNDDOWN va < MAXVA"
  shows "upage m pt (PGROUNDDOWN va) = upage m pt va"
proof -
  have "va < MAXVA"
    using assms
  proof
    assume "PGROUNDDOWN va < MAXVA"
    then have "unat va div 4096 < 2 ^ 26" by (simp add: word_less_nat_alt unat_PGROUNDDOWN MAXVA_val)
    then have "unat va < 2 ^ 26 * 4096" by (simp only: div_less_iff_less_mult zero_less_numeral)
    then show ?thesis by (simp add: word_less_nat_alt MAXVA_val)
  qed
  then show ?thesis by (simp add: upage_def PGROUNDDOWN_less_MAXVA)
qed

lemma upage_page [simp]: "upage m pt (PGROUNDDOWN va) = upage m pt va"
proof (cases "va < MAXVA \<or> PGROUNDDOWN va < MAXVA")
  case False
  then show ?thesis by (simp add: upage_def)
qed (rule upage_PGROUNDDOWN)

lemma upage_same_page: "PGROUNDDOWN va = PGROUNDDOWN vb \<Longrightarrow> upage m pt va = upage m pt vb"
  by (metis upage_page)

lemma ubyte_part:
  assumes "i < page_part va len"
  shows "ubyte m pt (va + of_nat i) =
    (case upage m pt va of None \<Rightarrow> None | Some pa \<Rightarrow> Some (m (pa + (va - PGROUNDDOWN va) + of_nat i)))"
proof -
  have "pa + (va + of_nat i - PGROUNDDOWN va) = pa + (va - PGROUNDDOWN va) + of_nat i" for pa
    by (simp add: algebra_simps)
  then show ?thesis
    unfolding ubyte_def page_part_offset(1) [OF assms]
      upage_same_page [OF page_part_offset(1) [OF assms]]
    by (cases "upage m pt va") (simp_all only: option.case)
qed

lemma upage_nonzero: "upage m pt va = Some pa \<Longrightarrow> pa \<noteq> 0"
  by (auto simp: upage_def Let_def split: if_splits)

lemma only_out_inv: "only_out s t \<Longrightarrow> pt_inv t pt fl = pt_inv s pt fl"
  by (drule only_out_fields) (rule pt_inv_cong, simp_all)

lemma walkaddr_cases:
  assumes "pt_inv s pt fl" and "L_pr \<notin> held s"
  obtains t where "walkaddr pt (PGROUNDDOWN va) s = Ret 0 t" "only_out s t" "upage (mem s) pt va = None"
  | pa t where "walkaddr pt (PGROUNDDOWN va) s = Ret pa t" "only_out s t" "pa \<noteq> 0"
      "upage (mem s) pt va = Some pa"
proof -
  obtain pa t where w: "walkaddr pt (PGROUNDDOWN va) s = Ret pa t" "only_out s t"
    "pa = (case upage (mem s) pt va of None \<Rightarrow> 0 | Some p \<Rightarrow> p)"
    using walkaddr_correct [OF assms, of "PGROUNDDOWN va"] by (auto simp: okK_def)
  show thesis
  proof (cases "upage (mem s) pt va")
    case None
    then show thesis using that(1) w by simp
  next
    case (Some p)
    then show thesis using that(2) [of p t] w upage_nonzero [OF Some] by simp
  qed
qed

text \<open>The bytes of the \<open>len\<close> user addresses from \<open>va\<close>.\<close>

definition ubytes :: "ram \<Rightarrow> u64 \<Rightarrow> u64 \<Rightarrow> nat \<Rightarrow> u8 option list" where
  "ubytes m pt va len = map (\<lambda>i. ubyte m pt (va + of_nat i)) [0..<len]"

lemma length_ubytes [simp]: "length (ubytes m pt va len) = len"
  by (simp add: ubytes_def)

lemma nth_ubytes [simp]: "i < len \<Longrightarrow> ubytes m pt va len ! i = ubyte m pt (va + of_nat i)"
  by (simp add: ubytes_def)

lemma ubytes_add: "ubytes m pt va (n + k) = ubytes m pt va n @ ubytes m pt (va + of_nat n) k"
  by (rule nth_equalityI) (auto simp: nth_append algebra_simps)

lemma ubytes_part:
  assumes "upage m pt va = Some pa" and "n = page_part va len"
  shows "ubytes m pt va n = map Some (rd_bytes m (pa + (va - PGROUNDDOWN va)) n)"
  by (rule nth_equalityI) (use assms in \<open>auto simp: ubyte_part\<close>)

lemma ubytes_parts:
  assumes "upage m pt va = Some pa"
  shows "ubytes m pt va len =
    map Some (rd_bytes m (pa + (va - PGROUNDDOWN va)) (page_part va len)) @
    ubytes m pt (PGROUNDDOWN va + PGSIZE) (len - page_part va len)"
proof (cases "page_part va len < len")
  case True
  let ?n = "page_part va len"
  have "ubytes m pt va (?n + (len - ?n)) = ubytes m pt va ?n @ ubytes m pt (va + of_nat ?n) (len - ?n)"
    by (rule ubytes_add)
  then show ?thesis using True by (simp add: ubytes_part [OF assms refl] page_part_next)
next
  case False
  then have "page_part va len = len" using page_part_le [of va len] by simp
  then show ?thesis using ubytes_part [OF assms, of len len] by (simp add: ubytes_def)
qed

lemma None_in_ubytes: "upage m pt va = None \<Longrightarrow> 0 < len \<Longrightarrow> None \<in> set (ubytes m pt va len)"
  by (auto simp: ubytes_def ubyte_def intro!: image_eqI [of _ _ 0])

lemma copyin_correct:
  assumes "pt_inv s pt fl" and "L_pr \<notin> held s"
  shows "okK (copyin pt va len) s (\<lambda>(r, bs) t. only_out s t \<and>
    (if None \<in> set (ubytes (mem s) pt va len) then r = -1
     else r = 0 \<and> map Some bs = ubytes (mem s) pt va len))"
  using assms
proof (induction pt va len arbitrary: s rule: copyin.induct)
  case (1 pt va len)
  show ?case
  proof (cases "len = 0")
    case True
    then show ?thesis by (subst copyin.simps) (simp add: ubytes_def)
  next
    case len: False
    let ?n = "page_part va len"
    show ?thesis
    proof (rule walkaddr_cases [OF "1.prems", of va])
      fix t assume w: "walkaddr pt (PGROUNDDOWN va) s = Ret 0 t" "only_out s t" "upage (mem s) pt va = None"
      then have "copyin pt va len s = Ret (-1, []) t"
        using len by (subst copyin.simps) (simp add: Let_def)
      then show ?thesis using w None_in_ubytes len by (simp add: okK_def)
    next
      fix pa t assume w: "walkaddr pt (PGROUNDDOWN va) s = Ret pa t" "only_out s t" "pa \<noteq> 0"
        "upage (mem s) pt va = Some pa"
      let ?bs = "rd_bytes (mem s) (pa + (va - PGROUNDDOWN va)) ?n"
      have t: "mem t = mem s" "held t = held s" "pt_inv t pt fl"
        using only_out_fields [OF w(2)] "1.prems"(1) by (simp_all add: only_out_inv [OF w(2)])
      have e: "copyin pt va len s = bindK (copyin pt (PGROUNDDOWN va + PGSIZE) (len - ?n))
          (\<lambda>(r, rest). retK (r, ?bs @ rest)) t"
        using len w t by (subst copyin.simps) (simp add: Let_def)
      have IH: "okK (copyin pt (PGROUNDDOWN va + PGSIZE) (len - ?n)) t (\<lambda>(r, bs) u. only_out t u \<and>
          (if None \<in> set (ubytes (mem t) pt (PGROUNDDOWN va + PGSIZE) (len - ?n)) then r = -1
           else r = 0 \<and> map Some bs = ubytes (mem t) pt (PGROUNDDOWN va + PGSIZE) (len - ?n)))"
        by (rule "1.IH") (use len w t "1.prems" in auto)
      have u: "ubytes (mem s) pt va len =
          map Some ?bs @ ubytes (mem s) pt (PGROUNDDOWN va + PGSIZE) (len - ?n)"
        by (rule ubytes_parts [OF w(4)])
      obtain r rest v where c: "copyin pt (PGROUNDDOWN va + PGSIZE) (len - ?n) t = Ret (r, rest) v"
        "only_out t v" and rest: "if None \<in> set (ubytes (mem s) pt (PGROUNDDOWN va + PGSIZE) (len - ?n)) then r = -1
           else r = 0 \<and> map Some rest = ubytes (mem s) pt (PGROUNDDOWN va + PGSIZE) (len - ?n)"
        using IH by (auto simp: okK_def t)
      have "copyin pt va len s = Ret (r, ?bs @ rest) v" unfolding e by (simp add: c)
      moreover have "only_out s v" using only_out_trans [OF w(2) c(2)] .
      moreover have "if None \<in> set (ubytes (mem s) pt va len) then r = -1
        else r = 0 \<and> map Some (?bs @ rest) = ubytes (mem s) pt va len"
        using rest unfolding u by (simp split: if_splits)
      ultimately show ?thesis by (simp add: okK_def)
    qed
  qed
qed

text \<open>What \<^verbatim>\<open>copyinstr\<close> should find in a run of user bytes: the string up to and with its NUL.\<close>

fun ustr :: "u8 option list \<Rightarrow> u8 list option" where
  "ustr [] = None"
| "ustr (None # us) = None"
| "ustr (Some c # us) = (if c = 0 then Some [0] else map_option (Cons c) (ustr us))"

lemma rd_bytes_Suc: "rd_bytes m p (Suc n) = m p # rd_bytes m (p + 1) n"
  by (rule nth_equalityI) (auto simp: nth_Cons algebra_simps split: nat.split)

lemma copystr_loop_ustr:
  assumes "copystr_loop m p n = (bs, g)"
  shows "ustr (map Some (rd_bytes m p n) @ us) =
      (if g then Some bs else map_option ((@) bs) (ustr us))" (is ?A)
proof -
  have "ustr (map Some (rd_bytes m p n) @ us) =
      (if snd (copystr_loop m p n) then Some (fst (copystr_loop m p n))
       else map_option ((@) (fst (copystr_loop m p n))) (ustr us))"
  proof (induction n arbitrary: p)
    case 0
    have "((@) []) = (id :: u8 list \<Rightarrow> _)" by (rule ext) simp
    then show ?case by (simp add: rd_bytes_def option.map_id)
  next
    case (Suc n)
    have "map_option (Cons c) (map_option ((@) xs) o1) = map_option ((@) (c # xs)) o1" for c :: u8 and xs o1
      by (cases o1) auto
    then show ?case using Suc by (auto simp: rd_bytes_Suc Let_def split: prod.split)
  qed
  then show ?thesis using assms by simp
qed

lemma copyinstr_correct:
  assumes "pt_inv s pt fl" and "L_pr \<notin> held s"
  shows "okK (copyinstr pt va mx) s (\<lambda>(r, bs) t. only_out s t \<and>
    (case ustr (ubytes (mem s) pt va mx) of None \<Rightarrow> r = -1 | Some w \<Rightarrow> r = 0 \<and> bs = w))"
  using assms
proof (induction pt va mx arbitrary: s rule: copyinstr.induct)
  case (1 pt va mx)
  show ?case
  proof (cases "mx = 0")
    case True
    then show ?thesis by (subst copyinstr.simps) (simp add: ubytes_def)
  next
    case mx: False
    let ?n = "page_part va mx"
    show ?thesis
    proof (rule walkaddr_cases [OF "1.prems", of va])
      fix t assume w: "walkaddr pt (PGROUNDDOWN va) s = Ret 0 t" "only_out s t" "upage (mem s) pt va = None"
      obtain k where "mx = Suc k" using mx not0_implies_Suc by blast
      then have "ustr (ubytes (mem s) pt va mx) = None"
        using w(3) by (simp add: ubytes_def upt_conv_Cons ubyte_def del: upt_Suc)
      moreover have "copyinstr pt va mx s = Ret (-1, []) t"
        using mx w by (subst copyinstr.simps) (simp add: Let_def)
      ultimately show ?thesis using w by (simp add: okK_def)
    next
      fix pa t assume w: "walkaddr pt (PGROUNDDOWN va) s = Ret pa t" "only_out s t" "pa \<noteq> 0"
        "upage (mem s) pt va = Some pa"
      let ?a = "pa + (va - PGROUNDDOWN va)" and ?va' = "PGROUNDDOWN va + PGSIZE"
      obtain bs g where l: "copystr_loop (mem s) ?a ?n = (bs, g)" by fastforce
      have t: "mem t = mem s" "held t = held s" "pt_inv t pt fl"
        using only_out_fields [OF w(2)] "1.prems"(1) by (simp_all add: only_out_inv [OF w(2)])
      have e: "copyinstr pt va mx s = (if g then retK (0, bs)
          else bindK (copyinstr pt ?va' (mx - ?n)) (\<lambda>(r, rest). retK (r, bs @ rest))) t"
        using mx w t l by (subst copyinstr.simps) (simp add: Let_def)
      have u: "ubytes (mem s) pt va mx = map Some (rd_bytes (mem s) ?a ?n) @ ubytes (mem s) pt ?va' (mx - ?n)"
        by (rule ubytes_parts [OF w(4)])
      note S = copystr_loop_ustr [OF l, of "ubytes (mem s) pt ?va' (mx - ?n)"]
      show ?thesis
      proof (cases g)
        case True
        then show ?thesis using e S w(2) by (simp add: okK_def u)
      next
        case False
        have "okK (copyinstr pt ?va' (mx - ?n)) t (\<lambda>(r, bs) u. only_out t u \<and>
          (case ustr (ubytes (mem t) pt ?va' (mx - ?n)) of None \<Rightarrow> r = -1 | Some w \<Rightarrow> r = 0 \<and> bs = w))"
          by (rule "1.IH") (use mx w t l False "1.prems" in auto)
        then obtain r rest v where c: "copyinstr pt ?va' (mx - ?n) t = Ret (r, rest) v" "only_out t v"
          and r: "case ustr (ubytes (mem s) pt ?va' (mx - ?n)) of None \<Rightarrow> r = -1 | Some w \<Rightarrow> r = 0 \<and> rest = w"
          by (auto simp: okK_def t)
        have "copyinstr pt va mx s = Ret (r, bs @ rest) v" unfolding e using False by (simp add: c)
        moreover have "only_out s v" using only_out_trans [OF w(2) c(2)] .
        moreover have "case ustr (ubytes (mem s) pt va mx) of None \<Rightarrow> r = -1 | Some w \<Rightarrow> r = 0 \<and> bs @ rest = w"
          using r S False by (simp add: u split: option.splits)
        ultimately show ?thesis by (simp add: okK_def)
      qed
    qed
  qed
qed

text \<open>
  Different user pages lie in different frames, and no frame of a user page is a page of the
  table itself.
\<close>

definition uframes_ok :: "ram \<Rightarrow> u64 \<Rightarrow> bool" where
  "uframes_ok m pt \<longleftrightarrow> (\<forall>va pa. upage m pt va = Some pa \<longrightarrow> pa \<notin> pt_set 2 m pt \<and>
     (\<forall>vb. upage m pt vb = Some pa \<longrightarrow> PGROUNDDOWN vb = PGROUNDDOWN va))"

definition uframes :: "ram \<Rightarrow> u64 \<Rightarrow> u64 set" where
  "uframes m pt = {pa. \<exists>va. upage m pt va = Some pa}"

lemma uframes_okD:
  assumes "uframes_ok m pt" and "upage m pt va = Some pa"
  shows "pa \<notin> pt_set 2 m pt" "upage m pt vb = Some pa \<Longrightarrow> PGROUNDDOWN vb = PGROUNDDOWN va"
  using assms unfolding uframes_ok_def by blast+

lemma upage_aligned: "upage m pt va = Some pa \<Longrightarrow> page_aligned pa"
  by (auto simp: upage_def Let_def split: if_splits)

text \<open>Bytes written inside user frames leave the table as it is.\<close>

lemma frame_write:
  assumes "pt_inv s pt fl" and "uframes_ok (mem s) pt" and "set fl \<inter> uframes (mem s) pt = {}"
    and m: "\<And>x. PGROUNDDOWN x \<notin> uframes (mem s) pt \<Longrightarrow> m x = mem s x"
  shows "pt_inv (s\<lparr>mem := m\<rparr>) pt fl" "pt_set 2 m pt = pt_set 2 (mem s) pt"
    "upage m pt va = upage (mem s) pt va" "uframes m pt = uframes (mem s) pt" "uframes_ok m pt"
    "pte_of 2 m pt va = pte_of 2 (mem s) pt va"
proof -
  have wf: "pt_wf 2 (mem s) pt" using assms(1) by (simp add: pt_inv_def)
  have same: "m x = mem s x" if "PGROUNDDOWN x \<in> pt_set 2 (mem s) pt" for x
    by (rule m) (use assms(2) that in \<open>auto simp: uframes_ok_def uframes_def\<close>)
  note A = pt_agree [OF wf same]
  show s2: "pt_set 2 m pt = pt_set 2 (mem s) pt" using A by blast
  show pe: "pte_of 2 m pt va = pte_of 2 (mem s) pt va" for va using A by blast
  then show up: "upage m pt va = upage (mem s) pt va" for va by (simp add: upage_def)
  then show "uframes m pt = uframes (mem s) pt" by (simp add: uframes_def)
  show "uframes_ok m pt" using assms(2) unfolding uframes_ok_def up s2 .
  have "kmem_inv (s\<lparr>mem := m\<rparr>) fl"
    by (rule kmem_inv_pages [OF _ m]) (use assms in \<open>auto simp: pt_inv_def\<close>)
  then show "pt_inv (s\<lparr>mem := m\<rparr>) pt fl"
    using assms(1) A by (auto simp: pt_inv_def page_ok_def)
qed

lemma addr_in_frame:
  assumes "page_aligned pa"
  shows "PGROUNDDOWN (pa + (va - PGROUNDDOWN va)) = pa"
    "i < page_part va len \<Longrightarrow> PGROUNDDOWN (pa + (va - PGROUNDDOWN va) + of_nat i) = pa"
proof -
  have gen: "PGROUNDDOWN (pa + of_nat k) = pa" if "k < 4096" for k
  proof -
    obtain q where q: "unat pa = 4096 * q" using assms by (auto simp: page_aligned_unat)
    have "unat (pa + of_nat k) = unat pa + k"
      by (rule unat_add_no_wrap) (use unsigned_less [of pa, where ?'a = nat] q that in simp)
    then show ?thesis using that q by (simp add: word_unat_eq_iff unat_PGROUNDDOWN)
  qed
  have off: "va - PGROUNDDOWN va = of_nat (unat va mod 4096)"
    by (metis offset_in_page of_nat_unat ucast_id)
  show "PGROUNDDOWN (pa + (va - PGROUNDDOWN va)) = pa" unfolding off by (rule gen) simp
  assume "i < page_part va len"
  then have "unat va mod 4096 + i < 4096" by (rule page_part_offset)
  from gen [OF this] show "PGROUNDDOWN (pa + (va - PGROUNDDOWN va) + of_nat i) = pa"
    by (simp add: off add.assoc)
qed

lemma part_page_iff:
  assumes "unat (vb - va) < page_part va len"
  shows "PGROUNDDOWN vb = PGROUNDDOWN va"
  using page_part_offset(1) [OF assms] by simp

lemma page_part_bound: "page_part va len \<le> 4096"
  by (auto simp: page_part_def Let_def)

text \<open>One turn of the loop of \<^verbatim>\<open>copyout\<close>.\<close>

lemma copyout_part:
  assumes inv: "pt_inv s pt fl" "uframes_ok (mem s) pt" "set fl \<inter> uframes (mem s) pt = {}"
    and pa: "upage (mem s) pt va = Some pa"
    and n: "length bs = page_part va len"
  defines "m \<equiv> wr_bytes (mem s) (pa + (va - PGROUNDDOWN va)) bs"
  shows "PGROUNDDOWN x \<notin> uframes (mem s) pt \<Longrightarrow> m x = mem s x"
    and "ubyte m pt vb = (if unat (vb - va) < length bs then Some (bs ! unat (vb - va)) else ubyte (mem s) pt vb)"
proof -
  have al: "page_aligned pa" by (rule upage_aligned [OF pa])
  let ?a = "pa + (va - PGROUNDDOWN va)"
  have len: "length bs \<le> 2 ^ 64" using n page_part_bound [of va len] by simp
  have mx: "m x = (if unat (x - ?a) < length bs then bs ! unat (x - ?a) else mem s x)" for x
    unfolding m_def by (rule wr_bytes_apply [OF len])
  have inpage: "PGROUNDDOWN x = pa" if "unat (x - ?a) < length bs" for x
    using addr_in_frame(2) [OF al that [unfolded n]] by simp
  show chg: "m x = mem s x" if "PGROUNDDOWN x \<notin> uframes (mem s) pt" for x
    unfolding mx using inpage [of x] that pa by (auto simp: uframes_def)
  have up: "upage m pt vb = upage (mem s) pt vb"
    by (rule frame_write(3) [OF inv]) (rule chg)
  show "ubyte m pt vb = (if unat (vb - va) < length bs then Some (bs ! unat (vb - va)) else ubyte (mem s) pt vb)"
  proof (cases "PGROUNDDOWN vb = PGROUNDDOWN va")
    case True
    then have "upage (mem s) pt vb = Some pa" using pa upage_same_page [OF True] by simp
    moreover have "pa + (vb - PGROUNDDOWN vb) - ?a = vb - va" using True by (simp add: algebra_simps)
    ultimately show ?thesis by (simp add: ubyte_def up mx)
  next
    case False
    then have nlt: "\<not> unat (vb - va) < length bs" using part_page_iff n by metis
    show ?thesis
    proof (cases "upage (mem s) pt vb")
      case None
      then show ?thesis using nlt by (simp add: ubyte_def up)
    next
      case (Some pb)
      then have "pb \<noteq> pa" using uframes_okD(2) [OF inv(2) pa, of vb] False by auto
      have "\<not> unat (pb + (vb - PGROUNDDOWN vb) - ?a) < length bs"
      proof
        assume "unat (pb + (vb - PGROUNDDOWN vb) - ?a) < length bs"
        from inpage [OF this] show False
          unfolding addr_in_frame(1) [OF upage_aligned [OF Some]] using \<open>pb \<noteq> pa\<close> by simp
      qed
      then show ?thesis using nlt Some by (simp add: ubyte_def up mx)
    qed
  qed
qed

lemma run_split_nat:
  fixes Y :: nat
  assumes "Y < N" "n + k \<le> N" "k \<noteq> 0 \<longrightarrow> Z = (if n \<le> Y then Y - n else Y + N - n)"
  shows "(Y < n + k \<longleftrightarrow> Y < n \<or> Z < k) \<and> (Y < n \<longrightarrow> \<not> Z < k) \<and> (Z < k \<longrightarrow> Y = n + Z)"
  using assms by (cases "k = 0"; cases "n \<le> Y") auto

lemma word_run_split:
  assumes "n + k \<le> 2 ^ 64"
  shows "(unat (x - a) < n + k \<longleftrightarrow> unat (x - a) < n \<or> unat (x - (a + of_nat n) :: u64) < k) \<and>
    (unat (x - a) < n \<longrightarrow> \<not> unat (x - (a + of_nat n) :: u64) < k) \<and>
    (unat (x - (a + of_nat n) :: u64) < k \<longrightarrow> unat (x - a) = n + unat (x - (a + of_nat n)))"
proof (rule run_split_nat [OF _ assms])
  show "unat (x - a) < 2 ^ 64" using unsigned_less [of "x - a", where ?'a = nat] by simp
  show "k \<noteq> 0 \<longrightarrow> unat (x - (a + of_nat n) :: u64) =
      (if n \<le> unat (x - a) then unat (x - a) - n else unat (x - a) + 2 ^ 64 - n)"
  proof
    assume "k \<noteq> 0"
    then have "unat (of_nat n :: u64) = n" using assms by (intro unat_of_nat64) linarith
    then have "unat (y - of_nat n) = (if n \<le> unat y then unat y - n else unat y + 2 ^ 64 - n)"
      for y :: u64 by (simp add: unat_sub_if')
    from this [of "x - a"] show "unat (x - (a + of_nat n) :: u64) =
      (if n \<le> unat (x - a) then unat (x - a) - n else unat (x - a) + 2 ^ 64 - n)"
      by (simp only: diff_diff_add)
  qed
qed

text \<open>The user memory after \<open>bs\<close> has been stored at \<open>va\<close>.\<close>

definition ustored :: "ram \<Rightarrow> u64 \<Rightarrow> u64 \<Rightarrow> u8 list \<Rightarrow> u64 \<Rightarrow> u8 option" where
  "ustored m pt va bs vb =
     (if unat (vb - va) < length bs then Some (bs ! unat (vb - va)) else ubyte m pt vb)"

lemma ustored_append:
  assumes "length as + length bs \<le> 2 ^ 64"
    and "\<And>vb. ubyte m pt vb = ustored m0 pt va as vb"
  shows "ustored m pt (va + of_nat (length as)) bs vb = ustored m0 pt va (as @ bs) vb"
  using word_run_split [OF assms(1), of vb va] by (auto simp: ustored_def assms(2) nth_append)

lemma kstate_out_mem [simp]:
  "s\<lparr>uart_out := out, mem := m\<rparr> = s\<lparr>mem := m, uart_out := out\<rparr>"
  by (cases s) simp

lemma copyout_correct:
  assumes "pt_inv s pt fl" and "L_pr \<notin> held s" and "uframes_ok (mem s) pt"
    and "set fl \<inter> uframes (mem s) pt = {}" and "length src \<le> 2 ^ 64"
  shows "okK (copyout pt va src) s (\<lambda>r t. \<exists>m out k. t = s\<lparr>mem := m, uart_out := out\<rparr> \<and>
    (\<forall>x. PGROUNDDOWN x \<notin> uframes (mem s) pt \<longrightarrow> m x = mem s x) \<and>
    (\<forall>vb. ubyte m pt vb = ustored (mem s) pt va (take k src) vb) \<and>
    (if None \<in> set (ubytes (mem s) pt va (length src)) then r = -1 \<and> k < length src
     else r = 0 \<and> k = length src))"
  using assms
proof (induction pt va src arbitrary: s rule: copyout.induct)
  case (1 pt va src)
  let ?len = "length src"
  show ?case
  proof (cases "src = []")
    case True
    then show ?thesis
      by (subst copyout.simps)
        (auto simp: ubytes_def ustored_def intro!: exI [of _ "mem s"] exI [of _ "uart_out s"])
  next
    case src: False
    let ?n = "page_part va ?len" and ?va' = "PGROUNDDOWN va + PGSIZE"
    show ?thesis
    proof (rule walkaddr_cases [OF "1.prems"(1,2), of va])
      fix t assume w: "walkaddr pt (PGROUNDDOWN va) s = Ret 0 t" "only_out s t" "upage (mem s) pt va = None"
      have e: "copyout pt va src s = Ret (-1) t"
        using src w by (subst copyout.simps) (simp add: Let_def)
      obtain out where t: "t = s\<lparr>uart_out := out\<rparr>" using w(2) by (auto simp: only_out_def)
      have "None \<in> set (ubytes (mem s) pt va ?len)" using None_in_ubytes [OF w(3)] src by simp
      then show ?thesis
        using src t unfolding okK_def e
        by (intro exI [of _ "-1"] exI [of _ t] conjI exI [of _ "mem s"] exI [of _ out] exI [of _ 0])
          (auto simp: ustored_def)
    next
      fix pa t assume w: "walkaddr pt (PGROUNDDOWN va) s = Ret pa t" "only_out s t" "pa \<noteq> 0"
        "upage (mem s) pt va = Some pa"
      obtain out where t: "t = s\<lparr>uart_out := out\<rparr>" using w(2) by (auto simp: only_out_def)
      have lt: "length (take ?n src) = ?n" using page_part_le [of va ?len] by simp
      define m where "m = wr_bytes (mem s) (pa + (va - PGROUNDDOWN va)) (take ?n src)"
      have P1: "m x = mem s x" if "PGROUNDDOWN x \<notin> uframes (mem s) pt" for x
        unfolding m_def by (rule copyout_part(1) [OF "1.prems"(1,3,4) w(4) lt that])
      have P2: "ubyte m pt vb = ustored (mem s) pt va (take ?n src) vb" for vb
        unfolding m_def ustored_def by (rule copyout_part(2) [OF "1.prems"(1,3,4) w(4) lt])
      have F: "pt_inv (s\<lparr>mem := m\<rparr>) pt fl" "uframes m pt = uframes (mem s) pt" "uframes_ok m pt"
        by (rule frame_write [OF "1.prems"(1,3,4)], erule P1)+
      have F3: "upage m pt vb = upage (mem s) pt vb" for vb
        by (rule frame_write(3) [OF "1.prems"(1,3,4)], erule P1)
      define u where "u = s\<lparr>mem := m, uart_out := out\<rparr>"
      have e: "copyout pt va src s = copyout pt ?va' (drop ?n src) u"
        using src w(1,3) unfolding u_def m_def t copyout.simps [of pt va src] by (simp add: Let_def)
      have cong: "None \<in> set (ubytes m pt v k) \<longleftrightarrow> None \<in> set (ubytes (mem s) pt v k)" for v k
        by (auto simp: ubytes_def ubyte_def F3 split: option.splits)
      have "okK (copyout pt ?va' (drop ?n src)) u (\<lambda>r v. \<exists>m' out' k. v = u\<lparr>mem := m', uart_out := out'\<rparr> \<and>
        (\<forall>x. PGROUNDDOWN x \<notin> uframes (mem u) pt \<longrightarrow> m' x = mem u x) \<and>
        (\<forall>vb. ubyte m' pt vb = ustored (mem u) pt ?va' (take k (drop ?n src)) vb) \<and>
        (if None \<in> set (ubytes (mem u) pt ?va' (length (drop ?n src))) then r = -1 \<and> k < length (drop ?n src)
         else r = 0 \<and> k = length (drop ?n src)))"
      proof (rule "1.IH")
        show "pt_inv u pt fl" unfolding u_def using F(1) pt_inv_cong [of u "s\<lparr>mem := m\<rparr>"] by (simp add: u_def)
        show "uframes_ok (mem u) pt" using F(3) by (simp add: u_def)
        show "set fl \<inter> uframes (mem u) pt = {}" using F(2) "1.prems"(4) by (simp add: u_def)
      qed (use src w "1.prems" in \<open>auto simp: u_def\<close>)
      then obtain r v m' out' k where c: "copyout pt ?va' (drop ?n src) u = Ret r v"
          "v = u\<lparr>mem := m', uart_out := out'\<rparr>"
        and c3: "\<forall>x. PGROUNDDOWN x \<notin> uframes (mem u) pt \<longrightarrow> m' x = mem u x"
          "\<forall>vb. ubyte m' pt vb = ustored (mem u) pt ?va' (take k (drop ?n src)) vb"
          "if None \<in> set (ubytes (mem u) pt ?va' (length (drop ?n src))) then r = -1 \<and> k < length (drop ?n src)
           else r = 0 \<and> k = length (drop ?n src)"
        unfolding okK_def by blast
      have mu: "mem u = m" by (simp add: u_def)
      note out = c3(1) [unfolded mu, rule_format] and ub = c3(2) [unfolded mu, rule_format]
        and r = c3(3) [unfolded mu length_drop]
      have nle: "?n \<le> ?len" by (rule page_part_le)
      have st: "ubyte m' pt vb = ustored (mem s) pt va (take (?n + k) src) vb" for vb
      proof (cases "?n < ?len")
        case True
        have "ustored m pt (va + of_nat (length (take ?n src))) (take k (drop ?n src)) vb =
            ustored (mem s) pt va (take ?n src @ take k (drop ?n src)) vb"
        proof (rule ustored_append)
          show "length (take ?n src) + length (take k (drop ?n src)) \<le> 2 ^ 64"
            using "1.prems"(5) by simp
          show "ubyte m pt vb = ustored (mem s) pt va (take ?n src) vb" for vb
            by (rule P2)
        qed
        then show ?thesis
          unfolding lt page_part_next [OF True, symmetric] by (simp add: ub take_add)
      next
        case False
        then have "?n = ?len" using nle by simp
        then show ?thesis
          using ub [of vb] P2 [of vb] by (simp add: ustored_def [of m])
      qed
      have parts: "None \<in> set (ubytes (mem s) pt va ?len) \<longleftrightarrow>
          None \<in> set (ubytes m pt ?va' (?len - ?n))"
        unfolding cong by (subst ubytes_parts [OF w(4)]) auto
      have "v = s\<lparr>mem := m', uart_out := out'\<rparr>" using c(2) by (simp add: u_def)
      moreover have "\<forall>x. PGROUNDDOWN x \<notin> uframes (mem s) pt \<longrightarrow> m' x = mem s x"
        using out P1 F(2) by auto
      moreover have "if None \<in> set (ubytes (mem s) pt va ?len) then r = -1 \<and> ?n + k < ?len
          else r = 0 \<and> ?n + k = ?len"
        unfolding parts using r nle by (auto split: if_splits)
      ultimately show ?thesis
        unfolding okK_def e c(1) using st
        by (intro exI [of _ r] exI [of _ v] conjI exI [of _ m'] exI [of _ out'] exI [of _ "?n + k"]) auto
    qed
  qed
qed

section \<open>Properties\<close>

lemma sample_upage: "upage sample_user_ram sample_pt va = (if va < 0x1000 then Some 0x87000000 else None)"
proof (cases "va < MAXVA")
  case True
  then show ?thesis
    by (simp add: upage_def sample_user_pte Let_def bit_numeral_rec PTE2PA_def drop_bit_eq_div push_bit_eq_mult)
next
  case False
  then have "\<not> va < 0x1000" by (simp add: word_less_nat_alt MAXVA_val)
  then show ?thesis using False by (simp add: upage_def)
qed

lemma sample_frames: "uframes_ok sample_user_ram sample_pt" "uframes sample_user_ram sample_pt = {0x87000000}"
proof -
  have "PGROUNDDOWN va = 0" if "va < 0x1000" for va
    using that by (simp add: word_unat_eq_iff unat_PGROUNDDOWN word_less_nat_alt)
  then show "uframes_ok sample_user_ram sample_pt"
    by (auto simp: uframes_ok_def sample_upage sample_user_tree split: if_splits)
  show "uframes sample_user_ram sample_pt = {0x87000000}"
    by (auto simp: uframes_def sample_upage split: if_splits intro: exI [of _ 0])
qed

lemma sample_byte: "unat (x - 0x87000000) < 8 \<Longrightarrow>
  sample_user_ram x = le_bytes 8 (0x6968 :: u64) ! unat (x - 0x87000000)"
proof -
  assume x: "unat (x - 0x87000000) < 8"
  have al: "page_aligned 0x87000000" by (simp add: page_aligned_unat)
  then have "PGROUNDDOWN x = 0x87000000" using x in_page_iff [OF al, of x] by simp
  then show ?thesis
    using x by (simp add: sample_user_ram_def write64_outside aligned8_def page_aligned_unat)
      (simp add: write64_def wr_bytes_apply)
qed

lemma sample_ubytes: "ubytes sample_user_ram sample_pt 0 3 = [Some 0x68, Some 0x69, Some 0]"
proof -
  have b: "le_bytes 8 (0x6968 :: u64) = [0x68, 0x69, 0, 0, 0, 0, 0, 0]" by code_simp
  have p: "PGROUNDDOWN 0 = 0" "PGROUNDDOWN 1 = 0" "PGROUNDDOWN 2 = 0" by code_simp+
  have m: "sample_user_ram 0x87000000 = 0x68" "sample_user_ram 0x87000001 = 0x69"
    "sample_user_ram 0x87000002 = 0"
    using sample_byte [of "0x87000000"] sample_byte [of "0x87000001"] sample_byte [of "0x87000002"]
    by (simp_all add: b)
  have "[0..<3] = [0, 1, 2 :: nat]" by (simp add: upt_rec)
  then show ?thesis by (simp add: ubytes_def ubyte_def sample_upage p m)
qed

text \<open>
  C30: \<^verbatim>\<open>copyin\<close> returns 0 exactly when every source address is a mapped user address, and then the
  kernel buffer holds the user's bytes in order; otherwise it returns -1. It changes nothing but
  the console output, and it always returns.
\<close>

theorem copyin_reads_user_memory:
  assumes "pt_inv s pt fl" and "L_pr \<notin> held s"
  shows "okK (copyin pt srcva len) s (\<lambda>(r, bs) t. only_out s t \<and>
    (if None \<in> set (ubytes (mem s) pt srcva len) then r = -1
     else r = 0 \<and> map Some bs = ubytes (mem s) pt srcva len))"
  by (rule copyin_correct [OF assms])

theorem copyin_reads_user_memory_witness:
  "okK (copyin sample_pt 0 3) sample_user (\<lambda>(r, bs) t. r = 0 \<and> bs = [0x68, 0x69, 0])"
  using copyin_reads_user_memory [OF sample_user_inv, of 0 3]
  by (auto simp: sample_ubytes elim!: okK_mono)

text \<open>
  C31: \<^verbatim>\<open>copyinstr\<close> returns 0 exactly when the user memory from the source address holds a NUL within
  the first \<open>mx\<close> bytes with only mapped user addresses before it, and then the buffer holds the
  string up to and including that NUL; otherwise it returns -1.
\<close>

theorem copyinstr_reads_user_string:
  assumes "pt_inv s pt fl" and "L_pr \<notin> held s"
  shows "okK (copyinstr pt srcva mx) s (\<lambda>(r, bs) t. only_out s t \<and>
    (case ustr (ubytes (mem s) pt srcva mx) of None \<Rightarrow> r = -1 | Some w \<Rightarrow> r = 0 \<and> bs = w))"
  by (rule copyinstr_correct [OF assms])

theorem copyinstr_reads_user_string_witness:
  "okK (copyinstr sample_pt 0 3) sample_user (\<lambda>(r, bs) t. r = 0 \<and> bs = [0x68, 0x69, 0])"
  using copyinstr_reads_user_string [OF sample_user_inv, of 0 3]
  by (auto simp: sample_ubytes elim!: okK_mono)

text \<open>
  C32: \<^verbatim>\<open>copyout\<close> returns 0 exactly when every destination address is a mapped user address; then the
  user's address space holds the source bytes there and is unchanged elsewhere. When it returns
  -1, a proper prefix has been stored. Only the frames of user pages are written.
\<close>

theorem copyout_stores_user_memory:
  assumes "pt_inv s pt fl" and "L_pr \<notin> held s" and "uframes_ok (mem s) pt"
    and "set fl \<inter> uframes (mem s) pt = {}" and "length src \<le> 2 ^ 64"
  shows "okK (copyout pt dstva src) s (\<lambda>r t. \<exists>m out k. t = s\<lparr>mem := m, uart_out := out\<rparr> \<and>
    (\<forall>x. PGROUNDDOWN x \<notin> uframes (mem s) pt \<longrightarrow> m x = mem s x) \<and>
    (\<forall>vb. ubyte m pt vb = ustored (mem s) pt dstva (take k src) vb) \<and>
    (if None \<in> set (ubytes (mem s) pt dstva (length src)) then r = -1 \<and> k < length src
     else r = 0 \<and> k = length src))"
  by (rule copyout_correct [OF assms])

theorem copyout_stores_user_memory_witness:
  "okK (copyout sample_pt 1 [0x41]) sample_user
     (\<lambda>r t. r = 0 \<and> ubyte (mem t) sample_pt 1 = Some 0x41 \<and> ubyte (mem t) sample_pt 0 = Some 0x68)"
proof -
  have n: "None \<notin> set (ubytes sample_user_ram sample_pt 1 1)"
    and z: "ubyte sample_user_ram sample_pt 0 = Some 0x68"
    using arg_cong [OF sample_ubytes, of "\<lambda>l. l ! 1"] arg_cong [OF sample_ubytes, of "\<lambda>l. l ! 0"]
    by (auto simp: ubytes_def)
  then show ?thesis
    using copyout_stores_user_memory [OF sample_user_inv, of "[0x41]" 1]
    by (auto simp: sample_frames sample_pages_def ustored_def unat_gt_0 elim!: okK_mono)
qed

section \<open>A user address space as a whole\<close>

text \<open>
  What a copy to user memory needs: a proper table whose user frames are neither shared nor free.
\<close>

definition uspace :: "kstate \<Rightarrow> u64 \<Rightarrow> u64 list \<Rightarrow> bool" where
  "uspace s pt fl \<longleftrightarrow> pt_inv s pt fl \<and> uframes_ok (mem s) pt \<and> set fl \<inter> uframes (mem s) pt = {}"

lemma uspace_cong:
  assumes "uspace s pt fl" and "mem t = mem s" "freelist t = freelist s" "sym_end t = sym_end s"
  shows "uspace t pt fl"
  using assms pt_inv_cong [OF assms(2-4), of pt fl] by (simp add: uspace_def)

lemma copyout_uspace:
  assumes "uspace s pt fl" and "L_pr \<notin> held s" and "None \<notin> set (ubytes (mem s) pt va (length src))"
    and "length src \<le> 2 ^ 64"
  obtains m out where "copyout pt va src s = Ret 0 (s\<lparr>mem := m, uart_out := out\<rparr>)"
    "uspace (s\<lparr>mem := m\<rparr>) pt fl" "\<And>vb. upage m pt vb = upage (mem s) pt vb"
    "\<And>vb. ubyte m pt vb = ustored (mem s) pt va src vb"
    "\<And>x. PGROUNDDOWN x \<notin> uframes (mem s) pt \<Longrightarrow> m x = mem s x"
proof -
  note u = assms(1) [unfolded uspace_def]
  obtain m out where c: "copyout pt va src s = Ret 0 (s\<lparr>mem := m, uart_out := out\<rparr>)"
    and st: "\<And>vb. ubyte m pt vb = ustored (mem s) pt va src vb"
    and fr: "\<And>x. PGROUNDDOWN x \<notin> uframes (mem s) pt \<Longrightarrow> m x = mem s x"
    using copyout_correct [of s pt fl src va] u assms(2-4) by (auto simp: okK_def)
  note f = frame_write [of s pt fl m, OF conjunct1 [OF u] conjunct1 [OF conjunct2 [OF u]]
      conjunct2 [OF conjunct2 [OF u]] fr]
  have "uspace (s\<lparr>mem := m\<rparr>) pt fl" using u f(1,4,5) by (simp add: uspace_def)
  then show thesis using that c st f(3) fr by blast
qed

lemma copyout_fails:
  assumes "uspace s pt fl" and "L_pr \<notin> held s" and "None \<in> set (ubytes (mem s) pt va (length src))"
    and "length src \<le> 2 ^ 64"
  obtains m out where "copyout pt va src s = Ret (-1) (s\<lparr>mem := m, uart_out := out\<rparr>)"
    "uspace (s\<lparr>mem := m\<rparr>) pt fl" "\<And>vb. upage m pt vb = upage (mem s) pt vb"
proof -
  note u = assms(1) [unfolded uspace_def]
  obtain m out where c: "copyout pt va src s = Ret (-1) (s\<lparr>mem := m, uart_out := out\<rparr>)"
    and fr: "\<And>x. PGROUNDDOWN x \<notin> uframes (mem s) pt \<Longrightarrow> m x = mem s x"
    using copyout_correct [of s pt fl src va] u assms(2-4) by (auto simp: okK_def)
  note f = frame_write [of s pt fl m, OF conjunct1 [OF u] conjunct1 [OF conjunct2 [OF u]]
      conjunct2 [OF conjunct2 [OF u]] fr]
  have "uspace (s\<lparr>mem := m\<rparr>) pt fl" using u f(1,4,5) by (simp add: uspace_def)
  then show thesis using that c f(3) by blast
qed

lemma copyin_uspace:
  assumes "pt_inv s pt fl" and "L_pr \<notin> held s"
  obtains r bs out where "copyin pt va len s = Ret (r, bs) (s\<lparr>uart_out := out\<rparr>)"
    "if None \<in> set (ubytes (mem s) pt va len) then r = -1 else r = 0 \<and> map Some bs = ubytes (mem s) pt va len"
  using copyin_correct [OF assms, of va len] that
  by (auto simp: okK_def only_out_def split: if_splits)

lemma ubytes_mapped_cong:
  assumes "\<And>vb. upage m pt vb = upage m' pt vb"
  shows "None \<in> set (ubytes m pt va len) \<longleftrightarrow> None \<in> set (ubytes m' pt va len)"
  by (auto simp: ubytes_def ubyte_def assms split: option.splits)

lemma sample_uspace: "uspace sample_user sample_pt sample_pages"
  using sample_user_inv by (simp add: uspace_def sample_frames) (simp add: sample_pages_def)

lemma sample_mapped: "va + of_nat n \<le> 0x1000 \<Longrightarrow> n < 4096 \<Longrightarrow> va < 0x1000 \<Longrightarrow>
  None \<notin> set (ubytes sample_user_ram sample_pt va n)"
proof -
  assume a: "va + of_nat n \<le> 0x1000" "n < 4096" "va < 0x1000"
  have "va + of_nat i < 0x1000" if "i < n" for i
  proof -
    have "unat (va + of_nat n) = unat va + n" "unat (va + of_nat i) = unat va + i"
      using a that by (intro unat_add_no_wrap; simp add: word_less_nat_alt)+
    then show ?thesis using a that by (simp add: word_less_nat_alt word_le_nat_alt)
  qed
  then show ?thesis by (auto simp: ubytes_def ubyte_def sample_upage)
qed

end
