(* ===== verification/Sched.thy ===== *)
theory Sched
  imports User_Memory
begin

text \<open>
  Giving up the CPU and being woken up (\<^verbatim>\<open>kernel/proc.c\<close>): \<^verbatim>\<open>sched\<close>, \<^verbatim>\<open>yield\<close>, \<^verbatim>\<open>sleep\<close>, \<^verbatim>\<open>wakeup\<close>, \<^verbatim>\<open>kill\<close>,
  and the copies from and to an address that is either the user's or the kernel's. The context
  switch of \<^verbatim>\<open>sched\<close> is the outcome \<open>Swtch\<close>: what follows it runs in the state in which the scheduler
  resumes the process. The number of locks held, \<^verbatim>\<open>mycpu()->noff\<close>, is the size of \<open>held\<close>; interrupts
  are off while a lock is held.
\<close>

section \<open>Operations\<close>

definition sched :: "unit K" where
  "sched =
     bindK myproc (\<lambda>p.
     bindK (getK held) (\<lambda>h.
     thenK (panic_if (L_proc p \<notin> h) ''sched p->lock'')
    (thenK (panic_if (card h \<noteq> 1) ''sched locks'')
    (bindK (getP p pstate) (\<lambda>st.
     thenK (panic_if (st = RUNNING) ''sched running'')
           swtchK)))))"

definition yield :: "unit K" where
  "yield =
     bindK myproc (\<lambda>p.
     thenK (acquire (L_proc p))
    (thenK (modP p (\<lambda>q. q\<lparr>pstate := RUNNABLE\<rparr>))
    (thenK sched
           (release (L_proc p)))))"

definition sleep :: "chan \<Rightarrow> lockid \<Rightarrow> unit K" where
  "sleep cn lk =
     bindK myproc (\<lambda>p.
     thenK (acquire (L_proc p))
    (thenK (release lk)
    (thenK (modP p (\<lambda>q. q\<lparr>pchan := Some cn, pstate := SLEEPING\<rparr>))
    (thenK sched
    (thenK (modP p (\<lambda>q. q\<lparr>pchan := None\<rparr>))
    (thenK (release (L_proc p))
           (acquire lk)))))))"

definition wake_one :: "chan option \<Rightarrow> proc \<Rightarrow> proc" where
  "wake_one cn q = (if pstate q = SLEEPING \<and> pchan q = cn then q\<lparr>pstate := RUNNABLE\<rparr> else q)"

definition wakeup :: "chan option \<Rightarrow> unit K" where
  "wakeup cn =
     forK [0..<NPROC] (\<lambda>p.
       bindK (getK cur) (\<lambda>c.
       whenK (c \<noteq> Some p)
         (thenK (acquire (L_proc p))
         (thenK (modP p (wake_one cn))
                (release (L_proc p))))))"

definition kill_one :: "proc \<Rightarrow> proc" where
  "kill_one q = (let q' = q\<lparr>killed := True\<rparr> in
     if pstate q' = SLEEPING then q'\<lparr>pstate := RUNNABLE\<rparr> else q')"

definition kill :: "int \<Rightarrow> int K" where
  "kill pd =
     bindK (loopK [0..<NPROC] (\<lambda>p.
       thenK (acquire (L_proc p))
       (bindK (getP p pid) (\<lambda>q.
        if q = pd
        then thenK (modP p kill_one) (thenK (release (L_proc p)) (retK (Some 0)))
        else thenK (release (L_proc p)) (retK None)))))
     (\<lambda>r. case r of Some v \<Rightarrow> retK v | None \<Rightarrow> retK (-1))"

text \<open>The address given with a flag \<^verbatim>\<open>user_dst\<close> or \<^verbatim>\<open>user_src\<close>.\<close>

definition either_copyout :: "bool \<Rightarrow> u64 \<Rightarrow> u8 list \<Rightarrow> int K" where
  "either_copyout user_dst dst src =
     bindK myproc (\<lambda>p.
       if user_dst then bindK (getP p ppagetable) (\<lambda>pt. copyout pt dst src)
       else thenK (modK (\<lambda>s. s\<lparr>mem := wr_bytes (mem s) dst src\<rparr>)) (retK 0))"

definition either_copyin :: "bool \<Rightarrow> u64 \<Rightarrow> nat \<Rightarrow> (int \<times> u8 list) K" where
  "either_copyin user_src src len =
     bindK myproc (\<lambda>p.
       if user_src then bindK (getP p ppagetable) (\<lambda>pt. copyin pt src len)
       else bindK (getK (\<lambda>s. rd_bytes (mem s) src len)) (\<lambda>bs. retK (0, bs)))"

definition state_name :: "procstate \<Rightarrow> string" where
  "state_name st =
     (case st of UNUSED \<Rightarrow> ''unused'' | SLEEPING \<Rightarrow> ''sleep '' | RUNNABLE \<Rightarrow> ''runble''
      | RUNNING \<Rightarrow> ''run   '' | ZOMBIE \<Rightarrow> ''zombie'' | USED \<Rightarrow> ''???'')"

definition procdump :: "unit K" where
  "procdump =
     thenK (kprintf ''\<newline>'' [])
     (forK [0..<NPROC] (\<lambda>i.
        bindK (getP i (\<lambda>q. q)) (\<lambda>q.
        whenK (pstate q \<noteq> UNUSED)
          (thenK (kprintf ''%d %s %s''
                    [VWord (of_int (pid q)), VStr (Some (str (state_name (pstate q)))),
                     VStr (Some (takeWhile (\<lambda>c. c \<noteq> 0) (pname q)))])
                 (kprintf ''\<newline>'' [])))))"

section \<open>Lemmas\<close>

lemma okK_acquire [simp]: "okK (acquire l) s Q \<longleftrightarrow> l \<notin> held s \<and> Q () (s\<lparr>held := insert l (held s)\<rparr>)"
  by (auto simp: okK_def acquire_apply)

lemma okK_release [simp]: "okK (release l) s Q \<longleftrightarrow> l \<in> held s \<and> Q () (s\<lparr>held := held s - {l}\<rparr>)"
  by (auto simp: okK_def release_apply)

lemma okK_getP [simp]: "okK (getP p f) s Q \<longleftrightarrow> Q (f (procs s ! p)) s"
  by (simp add: okK_def)

lemma okK_modP [simp]: "okK (modP p f) s Q \<longleftrightarrow> Q () (s\<lparr>procs := (procs s)[p := f (procs s ! p)]\<rparr>)"
  by (simp add: okK_def)

lemma okK_myproc [simp]: "okK myproc s Q \<longleftrightarrow> (\<exists>p. cur s = Some p \<and> Q p s)"
  by (auto simp: okK_def myproc_def split: option.splits)

lemma kstate_procs_held [simp]:
  "s\<lparr>procs := ps, held := h\<rparr> = s\<lparr>held := h, procs := ps\<rparr>"
  by (cases s) simp

text \<open>\<^verbatim>\<open>wakeup\<close> makes every other process that sleeps on the channel runnable, and changes nothing else.\<close>

definition wake_all :: "nat option \<Rightarrow> chan option \<Rightarrow> proc list \<Rightarrow> proc list" where
  "wake_all c cn ps = map (\<lambda>p. if c = Some p then ps ! p else wake_one cn (ps ! p)) [0..<length ps]"

lemma length_wake_all [simp]: "length (wake_all c cn ps) = length ps"
  by (simp add: wake_all_def)

lemma nth_wake_all [simp]:
  "p < length ps \<Longrightarrow> wake_all c cn ps ! p = (if c = Some p then ps ! p else wake_one cn (ps ! p))"
  by (simp add: wake_all_def)

lemma wakeup_turn:
  assumes "L_proc p \<notin> held s"
  shows "bindK (getK cur) (\<lambda>c. whenK (c \<noteq> Some p)
     (thenK (acquire (L_proc p)) (thenK (modP p (wake_one cn)) (release (L_proc p))))) s =
   Ret () (s\<lparr>procs := (procs s)[p := if cur s = Some p then procs s ! p else wake_one cn (procs s ! p)]\<rparr>)"
  using assms by simp

lemma wakeup_loop:
  assumes "\<And>p. p \<in> set ps \<Longrightarrow> L_proc p \<notin> held s \<or> cur s = Some p" and "distinct ps"
  shows "forK ps (\<lambda>p.
       bindK (getK cur) (\<lambda>c.
       whenK (c \<noteq> Some p)
         (thenK (acquire (L_proc p))
         (thenK (modP p (wake_one cn))
                (release (L_proc p)))))) s =
    Ret () (s\<lparr>procs := map (\<lambda>p. if p \<in> set ps \<and> cur s \<noteq> Some p then wake_one cn (procs s ! p)
      else procs s ! p) [0..<length (procs s)]\<rparr>)"
  using assms
proof (induction ps arbitrary: s)
  case Nil
  then show ?case by (simp add: map_nth)
next
  case (Cons p ps)
  let ?s = "s\<lparr>procs := (procs s)[p := if cur s = Some p then procs s ! p else wake_one cn (procs s ! p)]\<rparr>"
  have h: "insert (L_proc p) (held s) - {L_proc p} = held s" if "L_proc p \<notin> held s" using that by simp
  have "bindK (getK cur) (\<lambda>c. whenK (c \<noteq> Some p)
     (thenK (acquire (L_proc p)) (thenK (modP p (wake_one cn)) (release (L_proc p))))) s = Ret () ?s"
    using Cons.prems(1) [of p] by (cases "cur s = Some p") (simp_all add: h)
  then have "forK (p # ps) (\<lambda>p. bindK (getK cur) (\<lambda>c. whenK (c \<noteq> Some p)
         (thenK (acquire (L_proc p)) (thenK (modP p (wake_one cn)) (release (L_proc p)))))) s =
    forK ps (\<lambda>p. bindK (getK cur) (\<lambda>c. whenK (c \<noteq> Some p)
         (thenK (acquire (L_proc p)) (thenK (modP p (wake_one cn)) (release (L_proc p)))))) ?s"
    by simp
  also have "\<dots> = Ret () (?s\<lparr>procs := map (\<lambda>p. if p \<in> set ps \<and> cur ?s \<noteq> Some p then wake_one cn (procs ?s ! p)
      else procs ?s ! p) [0..<length (procs ?s)]\<rparr>)"
    by (rule Cons.IH) (use Cons.prems in auto)
  also have "map (\<lambda>p. if p \<in> set ps \<and> cur ?s \<noteq> Some p then wake_one cn (procs ?s ! p)
      else procs ?s ! p) [0..<length (procs ?s)] =
    map (\<lambda>q. if q \<in> set (p # ps) \<and> cur s \<noteq> Some q then wake_one cn (procs s ! q)
      else procs s ! q) [0..<length (procs s)]"
    by (rule nth_equalityI) (use Cons.prems(2) in \<open>auto simp: nth_list_update\<close>)
  finally show ?case by simp
qed

lemma wakeup_apply:
  assumes "\<And>p. L_proc p \<in> held s \<Longrightarrow> cur s = Some p" and "length (procs s) = NPROC"
  shows "wakeup cn s = Ret () (s\<lparr>procs := wake_all (cur s) cn (procs s)\<rparr>)"
proof -
  have "wakeup cn s = Ret () (s\<lparr>procs := map (\<lambda>p. if p \<in> set [0..<NPROC] \<and> cur s \<noteq> Some p
      then wake_one cn (procs s ! p) else procs s ! p) [0..<length (procs s)]\<rparr>)"
    unfolding wakeup_def by (rule wakeup_loop) (use assms(1) in auto)
  also have "map (\<lambda>p. if p \<in> set [0..<NPROC] \<and> cur s \<noteq> Some p
      then wake_one cn (procs s ! p) else procs s ! p) [0..<length (procs s)] = wake_all (cur s) cn (procs s)"
    by (rule nth_equalityI) (auto simp: assms(2))
  finally show ?thesis .
qed

text \<open>
  \<^verbatim>\<open>sleep\<close>: the process is marked and the lock is released in one step as far as the other processes
  can see, since the process holds its own lock until the scheduler has switched away.
\<close>

lemma sleep_apply:
  assumes "cur s = Some p" and "held s = {lk}" and "lk \<noteq> L_proc p" and "p < length (procs s)"
  shows "sleep cn lk s =
    Swtch (s\<lparr>held := {L_proc p},
             procs := (procs s)[p := (procs s ! p)\<lparr>pchan := Some cn, pstate := SLEEPING\<rparr>]\<rparr>)
      (thenK (modP p (\<lambda>q. q\<lparr>pchan := None\<rparr>)) (thenK (release (L_proc p)) (acquire lk)))"
proof -
  have h: "insert (L_proc p) {lk} - {lk} = {L_proc p}" using assms(3) by auto
  show ?thesis
    unfolding sleep_def using assms
    by (simp add: h sched_def swtchK_def thenK_def bindK_def)
qed

lemma wakeup_running:
  assumes "cur s = Some p" and "length (procs s) = NPROC" and "\<And>q. L_proc q \<notin> held s"
  shows "wakeup cn s = Ret () (s\<lparr>procs := wake_all (Some p) cn (procs s)\<rparr>)"
  using wakeup_apply [of s cn] assms by simp


lemma sched_not_ret: "sched s \<noteq> Ret x t"
  by (auto simp: sched_def bindK_eq_Ret thenK_eq_Ret swtchK_def)

lemma sleep_not_ret: "sleep cn lk s \<noteq> Ret x t"
  by (auto simp: sleep_def bindK_eq_Ret thenK_eq_Ret sched_not_ret)

text \<open>
  A waiting loop that sleeps: when the process is resumed in state \<open>u\<close>, it takes the lock again and
  evaluates the loop once more.
\<close>

lemma whileK_sleep:
  assumes "body s = bindK (sleep cn lk) (\<lambda>_. retK None) s'"
    and "\<And>t t'. body t \<noteq> Ret None t'"
    and "cur s' = Some p" and "held s' = {lk}" and "lk \<noteq> L_proc p" and "p < length (procs s')"
  shows "whileK body s = Swtch (s'\<lparr>held := {L_proc p},
      procs := (procs s')[p := (procs s' ! p)\<lparr>pchan := Some cn, pstate := SLEEPING\<rparr>]\<rparr>)
    (bindK (thenK (modP p (\<lambda>q. q\<lparr>pchan := None\<rparr>)) (thenK (release (L_proc p)) (acquire lk)))
       (\<lambda>_. whileK body))"
proof -
  let ?k = "thenK (modP p (\<lambda>q. q\<lparr>pchan := None\<rparr>)) (thenK (release (L_proc p)) (acquire lk))"
  have "body s = Swtch (s'\<lparr>held := {L_proc p},
      procs := (procs s')[p := (procs s' ! p)\<lparr>pchan := Some cn, pstate := SLEEPING\<rparr>]\<rparr>)
    (bindK ?k (\<lambda>_. retK None))"
    using sleep_apply [OF assms(3-6), of cn] by (simp add: assms(1) bindK_def)
  from whileK_block [of body s, OF this] show ?thesis
  proof (rule trans)
    have "while_out body (bindK ?k (\<lambda>_. retK None) u) = bindK ?k (\<lambda>_. whileK body) u" for u
    proof (cases "?k u")
      case (Ret x t)
      then show ?thesis by (simp add: while_out_again assms(2))
    next
      case (Panic msg)
      then show ?thesis by (simp add: while_out.code [of body "Panic msg"])
    next
      case (Swtch t k)
      then show ?thesis
        by (auto simp: thenK_def bindK_def release_def acquire_def modP_def split: if_splits)
    qed
    then show "Swtch (s'\<lparr>held := {L_proc p},
        procs := (procs s')[p := (procs s' ! p)\<lparr>pchan := Some cn, pstate := SLEEPING\<rparr>]\<rparr>)
        (\<lambda>u. while_out body (bindK ?k (\<lambda>_. retK None) u)) =
      Swtch (s'\<lparr>held := {L_proc p},
        procs := (procs s')[p := (procs s' ! p)\<lparr>pchan := Some cn, pstate := SLEEPING\<rparr>]\<rparr>)
        (bindK ?k (\<lambda>_. whileK body))" by simp
  qed
qed


text \<open>What a process does when the scheduler resumes it in \<open>sleep\<close> on behalf of lock \<open>lk\<close>.\<close>

definition resume :: "nat \<Rightarrow> lockid \<Rightarrow> unit K" where
  "resume p lk = thenK (modP p (\<lambda>q. q\<lparr>pchan := None\<rparr>)) (thenK (release (L_proc p)) (acquire lk))"


lemma wake_one_idem [simp]: "wake_one cn (wake_one cn q) = wake_one cn q"
  by (simp add: wake_one_def)

lemma wake_all_idem [simp]: "wake_all c cn (wake_all c cn ps) = wake_all c cn ps"
  by (rule nth_equalityI) simp_all

text \<open>No lock of another process is held: \<^verbatim>\<open>wakeup\<close> can take them all.\<close>

definition can_wake :: "kstate \<Rightarrow> bool" where
  "can_wake s \<longleftrightarrow> length (procs s) = NPROC \<and> (\<forall>p. L_proc p \<in> held s \<longrightarrow> cur s = Some p)"

lemma wakeup_can_wake:
  "can_wake s \<Longrightarrow> wakeup cn s = Ret () (s\<lparr>procs := wake_all (cur s) cn (procs s)\<rparr>)"
  by (rule wakeup_apply) (auto simp: can_wake_def)

section \<open>A sample state\<close>

text \<open>Process 0 runs with the one-page address space of the sample page table and holds no lock.\<close>

definition sample_run :: kstate where
  "sample_run = sample_user\<lparr>cur := Some 0,
     procs := (replicate NPROC proc_zero)[0 := proc_zero\<lparr>ppagetable := sample_pt, pstate := RUNNING, pid := 3\<rparr>]\<rparr>"

lemma sample_run_fields [simp]:
  "cur sample_run = Some 0" "length (procs sample_run) = NPROC" "held sample_run = {}"
  "procs sample_run ! 0 = proc_zero\<lparr>ppagetable := sample_pt, pstate := RUNNING, pid := 3\<rparr>"
  "mem sample_run = sample_user_ram"
  by (simp_all add: sample_run_def NPROC_def)

lemma sample_run_uspace: "uspace sample_run sample_pt sample_pages"
  by (rule uspace_cong [OF sample_uspace]) (simp_all add: sample_run_def)

end
