(* ===== verification/Sleeplock.thy ===== *)
theory Sleeplock
  imports Sched
begin

text \<open>
  \<^verbatim>\<open>kernel/sleeplock.c\<close>: locks that a process holds while it sleeps. A sleep lock lives in a buffer
  or in an inode; its spin lock is \<open>L_sleep\<close> and its channel \<open>Ch_sleep\<close> of the same identifier.
\<close>

section \<open>Operations\<close>

definition get_sl :: "sleepid \<Rightarrow> kstate \<Rightarrow> sleeplock" where
  "get_sl l s = (case l of SL_buf b \<Rightarrow> blk (bufs (bcache s) ! b) | SL_inode i \<Rightarrow> ilk (itable s ! i))"

definition set_sl :: "sleepid \<Rightarrow> sleeplock \<Rightarrow> kstate \<Rightarrow> kstate" where
  "set_sl l v s =
     (case l of
        SL_buf b \<Rightarrow> s\<lparr>bcache := (bcache s)\<lparr>bufs := (bufs (bcache s))[b := (bufs (bcache s) ! b)\<lparr>blk := v\<rparr>]\<rparr>\<rparr>
      | SL_inode i \<Rightarrow> s\<lparr>itable := (itable s)[i := (itable s ! i)\<lparr>ilk := v\<rparr>]\<rparr>)"

definition initsleeplock :: "sleepid \<Rightarrow> unit K" where
  "initsleeplock l = thenK (initlock (L_sleep l)) (modK (set_sl l sleeplock_zero))"

definition acquiresleep :: "sleepid \<Rightarrow> unit K" where
  "acquiresleep l =
     thenK (acquire (L_sleep l))
    (thenK (whileK (bindK (getK (get_sl l)) (\<lambda>v.
        if sl_locked v then thenK (sleep (Ch_sleep l) (L_sleep l)) (retK None) else retK (Some ()))))
    (bindK myproc (\<lambda>p.
     bindK (getP p pid) (\<lambda>pd.
     thenK (modK (set_sl l \<lparr>sl_locked = True, sl_pid = pd\<rparr>))
           (release (L_sleep l))))))"

definition releasesleep :: "sleepid \<Rightarrow> unit K" where
  "releasesleep l =
     thenK (acquire (L_sleep l))
    (thenK (modK (set_sl l sleeplock_zero))
    (thenK (wakeup (Some (Ch_sleep l)))
           (release (L_sleep l))))"

definition holdingsleep :: "sleepid \<Rightarrow> bool K" where
  "holdingsleep l =
     thenK (acquire (L_sleep l))
    (bindK (getK (get_sl l)) (\<lambda>v.
     bindK (if sl_locked v then bindK myproc (\<lambda>p. bindK (getP p pid) (\<lambda>pd. retK (sl_pid v = pd)))
            else retK False) (\<lambda>r.
     thenK (release (L_sleep l)) (retK r))))"

section \<open>Lemmas\<close>

text \<open>A process runs and holds no spin lock that the sleep locks need.\<close>

definition running :: "kstate \<Rightarrow> nat \<Rightarrow> bool" where
  "running s p \<longleftrightarrow> cur s = Some p \<and> p < length (procs s) \<and> length (procs s) = NPROC \<and>
     (\<forall>q. L_proc q \<notin> held s) \<and> (\<forall>l. L_sleep l \<notin> held s)"

lemma set_sl_fields [simp]:
  "held (set_sl l v s) = held s" "procs (set_sl l v s) = procs s" "cur (set_sl l v s) = cur s"
  "disk (set_sl l v s) = disk s" "dtrace (set_sl l v s) = dtrace s" "klog (set_sl l v s) = klog s"
  "mem (set_sl l v s) = mem s" "sb (set_sl l v s) = sb s" "ftable (set_sl l v s) = ftable s"
  by (simp_all add: set_sl_def split: sleepid.splits)

lemma get_sl_frame [simp]:
  "get_sl l (s\<lparr>held := h\<rparr>) = get_sl l s" "get_sl l (s\<lparr>cur := c\<rparr>) = get_sl l s" "get_sl l (s\<lparr>procs := ps\<rparr>) = get_sl l s"
  by (simp_all add: get_sl_def split: sleepid.splits)

definition sl_exists :: "sleepid \<Rightarrow> kstate \<Rightarrow> bool" where
  "sl_exists l s = (case l of SL_buf b \<Rightarrow> b < length (bufs (bcache s)) | SL_inode i \<Rightarrow> i < length (itable s))"

lemma sl_exists_frame [simp]:
  "sl_exists l (set_sl l' v s) = sl_exists l s" "sl_exists l (s\<lparr>held := h\<rparr>) = sl_exists l s"
  "sl_exists l (s\<lparr>procs := ps\<rparr>) = sl_exists l s" "sl_exists l (s\<lparr>cur := c\<rparr>) = sl_exists l s"
  by (auto simp: sl_exists_def set_sl_def split: sleepid.splits)

lemma get_set_sl [simp]: "sl_exists l s \<Longrightarrow> get_sl l (set_sl l v s) = v"
  by (simp add: sl_exists_def get_sl_def set_sl_def split: sleepid.splits)

lemma set_sl_held: "(set_sl l v (s\<lparr>held := h\<rparr>))\<lparr>held := h'\<rparr> = (set_sl l v s)\<lparr>held := h'\<rparr>"
  by (simp add: set_sl_def split: sleepid.splits)

lemma set_sl_held_id [simp]: "(set_sl l v s)\<lparr>held := held s\<rparr> = set_sl l v s"
  by (simp add: set_sl_def split: sleepid.splits)

lemma acquiresleep_free:
  assumes "running s p" and "\<not> sl_locked (get_sl l s)"
  shows "acquiresleep l s = Ret () (set_sl l \<lparr>sl_locked = True, sl_pid = pid (procs s ! p)\<rparr> s)"
proof -
  let ?s1 = "s\<lparr>held := insert (L_sleep l) (held s)\<rparr>"
  have h: "L_sleep l \<notin> held s" "cur s = Some p" using assms(1) by (simp_all add: running_def)
  have "whileK (bindK (getK (get_sl l)) (\<lambda>v.
        if sl_locked v then thenK (sleep (Ch_sleep l) (L_sleep l)) (retK None) else retK (Some ()))) ?s1 =
      Ret () ?s1"
    by (rule whileK_leave) (simp add: assms(2))
  then show ?thesis using h by (simp add: acquiresleep_def set_sl_held)
qed

lemma releasesleep_apply:
  assumes "running s p"
  shows "releasesleep l s =
    Ret () ((set_sl l sleeplock_zero s)\<lparr>procs := wake_all (Some p) (Some (Ch_sleep l)) (procs s)\<rparr>)"
proof -
  have h: "L_sleep l \<notin> held s" "cur s = Some p" "length (procs s) = NPROC" "\<And>q. L_proc q \<notin> held s"
    using assms by (simp_all add: running_def)
  let ?s1 = "set_sl l sleeplock_zero (s\<lparr>held := insert (L_sleep l) (held s)\<rparr>)"
  have "wakeup (Some (Ch_sleep l)) ?s1 =
      Ret () (?s1\<lparr>procs := wake_all (Some p) (Some (Ch_sleep l)) (procs s)\<rparr>)"
    using wakeup_running [of ?s1 p] h by simp
  moreover have "?s1\<lparr>procs := ps, held := insert (L_sleep l) (held s) - {L_sleep l}\<rparr> =
      (set_sl l sleeplock_zero s)\<lparr>procs := ps\<rparr>" for ps
    using h(1) by (auto simp: set_sl_def split: sleepid.splits intro!: kstate.equality)
  ultimately show ?thesis using h by (simp add: releasesleep_def)
qed

lemma holdingsleep_apply:
  assumes "running s p"
  shows "holdingsleep l s = Ret (sl_locked (get_sl l s) \<and> sl_pid (get_sl l s) = pid (procs s ! p)) s"
proof -
  have h: "L_sleep l \<notin> held s" "cur s = Some p" using assms by (simp_all add: running_def)
  then show ?thesis by (cases "sl_locked (get_sl l s)") (simp_all add: holdingsleep_def)
qed

text \<open>The state in which the scheduler resumes process \<open>p\<close>: it is current and holds its own lock.\<close>

definition resumed :: "kstate \<Rightarrow> nat \<Rightarrow> bool" where
  "resumed u p \<longleftrightarrow> cur u = Some p \<and> p < length (procs u) \<and> length (procs u) = NPROC \<and> held u = {L_proc p}"

lemma resume_apply:
  assumes "resumed u p" and "lk \<noteq> L_proc p"
  shows "resume p lk u = Ret () (u\<lparr>held := {lk}, procs := (procs u)[p := (procs u ! p)\<lparr>pchan := None\<rparr>]\<rparr>)"
  using assms by (simp add: resume_def resumed_def)

text \<open>
  The continuation of a process that sleeps in \<^verbatim>\<open>acquiresleep\<close>: each time the scheduler resumes the process it looks at the
  lock again, and goes back to sleep with the same continuation while the lock is taken.
\<close>

lemma acquiresleep_waits:
  assumes "cur s = Some p" and "p < length (procs s)" and "held s = {}" and "sl_locked (get_sl l s)"
  obtains k where "acquiresleep l s = Swtch (s\<lparr>held := {L_proc p},
      procs := (procs s)[p := (procs s ! p)\<lparr>pchan := Some (Ch_sleep l), pstate := SLEEPING\<rparr>]\<rparr>) k"
    "\<And>u. resumed u p \<Longrightarrow> k u = (if sl_locked (get_sl l u)
        then Swtch (u\<lparr>procs := (procs u)[p := (procs u ! p)\<lparr>pchan := Some (Ch_sleep l), pstate := SLEEPING\<rparr>]\<rparr>) k
        else Ret () (set_sl l \<lparr>sl_locked = True, sl_pid = pid (procs u ! p)\<rparr>
          (u\<lparr>held := {}, procs := (procs u)[p := (procs u ! p)\<lparr>pchan := None\<rparr>]\<rparr>)))"
proof -
  define body where "body = bindK (getK (get_sl l)) (\<lambda>v.
        if sl_locked v then thenK (sleep (Ch_sleep l) (L_sleep l)) (retK None) else retK (Some ()))"
  let ?s1 = "s\<lparr>held := {L_sleep l}\<rparr>"
  define rest where "rest = bindK myproc (\<lambda>q. bindK (getP q pid) (\<lambda>pd.
     thenK (modK (set_sl l \<lparr>sl_locked = True, sl_pid = pd\<rparr>)) (release (L_sleep l))))"
  have a: "acquiresleep l s = thenK (whileK body) rest ?s1"
    using assms(3) by (simp add: acquiresleep_def body_def rest_def)
  have w: "whileK body v = Swtch (v\<lparr>held := {L_proc p},
      procs := (procs v)[p := (procs v ! p)\<lparr>pchan := Some (Ch_sleep l), pstate := SLEEPING\<rparr>]\<rparr>)
    (bindK (resume p (L_sleep l)) (\<lambda>_. whileK body))"
    if v: "cur v = Some p" "p < length (procs v)" "held v = {L_sleep l}" "sl_locked (get_sl l v)" for v
    unfolding resume_def
  proof (rule whileK_sleep)
    show "body v = bindK (sleep (Ch_sleep l) (L_sleep l)) (\<lambda>_. retK None) v"
      using v(4) by (simp add: body_def thenK_def)
    show "body t \<noteq> Ret None t'" for t t'
      by (auto simp: body_def thenK_eq_Ret sleep_not_ret)
  qed (use v in simp_all)
  define k where "k = (\<lambda>u. bind_out (bindK (resume p (L_sleep l)) (\<lambda>_. whileK body) u) (\<lambda>_. rest))"
  have "acquiresleep l s = Swtch (s\<lparr>held := {L_proc p},
      procs := (procs s)[p := (procs s ! p)\<lparr>pchan := Some (Ch_sleep l), pstate := SLEEPING\<rparr>]\<rparr>) k"
    unfolding a using w [of ?s1] assms by (simp add: k_def)
  moreover have "k u = (if sl_locked (get_sl l u)
        then Swtch (u\<lparr>procs := (procs u)[p := (procs u ! p)\<lparr>pchan := Some (Ch_sleep l), pstate := SLEEPING\<rparr>]\<rparr>) k
        else Ret () (set_sl l \<lparr>sl_locked = True, sl_pid = pid (procs u ! p)\<rparr>
          (u\<lparr>held := {}, procs := (procs u)[p := (procs u ! p)\<lparr>pchan := None\<rparr>]\<rparr>)))"
    if u: "resumed u p" for u
  proof -
    let ?u1 = "u\<lparr>held := {L_sleep l}, procs := (procs u)[p := (procs u ! p)\<lparr>pchan := None\<rparr>]\<rparr>"
    have r: "resume p (L_sleep l) u = Ret () ?u1" by (rule resume_apply [OF u]) simp
    have p: "cur u = Some p" "p < length (procs u)" "held u = {L_proc p}" using u by (simp_all add: resumed_def)
    show ?thesis
    proof (cases "sl_locked (get_sl l u)")
      case True
      let ?t = "u\<lparr>procs := (procs u)[p := (procs u ! p)\<lparr>pchan := Some (Ch_sleep l), pstate := SLEEPING\<rparr>]\<rparr>"
      have "?u1\<lparr>held := {L_proc p},
          procs := (procs ?u1)[p := (procs ?u1 ! p)\<lparr>pchan := Some (Ch_sleep l), pstate := SLEEPING\<rparr>]\<rparr> = ?t"
        using p by (simp add: kstate.equality)
      then have "whileK body ?u1 = Swtch ?t (bindK (resume p (L_sleep l)) (\<lambda>_. whileK body))"
        using w [of ?u1] p True by simp
      then show ?thesis using r True by (simp add: k_def)
    next
      case False
      have b: "whileK body ?u1 = Ret () ?u1" by (rule whileK_leave) (simp add: body_def False)
      have e: "(set_sl l v ?u1)\<lparr>held := {}\<rparr> =
          set_sl l v (u\<lparr>held := {}, procs := (procs u)[p := (procs u ! p)\<lparr>pchan := None\<rparr>]\<rparr>)" for v
        by (simp add: set_sl_def split: sleepid.splits)
      have "k u = rest ?u1" using r b by (simp add: k_def)
      also have "\<dots> = Ret () ((set_sl l \<lparr>sl_locked = True, sl_pid = pid (procs u ! p)\<rparr> ?u1)\<lparr>held := {}\<rparr>)"
        using p by (simp add: rest_def del: kstate_procs_held)
      finally show ?thesis unfolding e using False by simp
    qed
  qed
  ultimately show ?thesis by (rule that)
qed

text \<open>
  C15: A process that finds a sleep lock taken goes to sleep on the lock's channel and is not forgotten: when another
  process releases the lock while it sleeps there, the lock is free and the process is runnable. Whenever the scheduler
  resumes it, it looks at the lock again: if the lock is taken by then, it goes back to sleep with everything else
  unchanged and the same steps before it, any number of times; if the lock is free, it leaves \<^verbatim>\<open>acquiresleep\<close> as the
  owner. So it never leaves with a lock that someone else holds.
\<close>

theorem acquiresleep_gets_released_lock:
  assumes "cur s = Some p" and "p < length (procs s)" and "held s = {}" and "sl_locked (get_sl l s)"
  shows "\<exists>s1 k. acquiresleep l s = Swtch s1 k \<and>
    pstate (procs s1 ! p) = SLEEPING \<and> pchan (procs s1 ! p) = Some (Ch_sleep l) \<and> get_sl l s1 = get_sl l s \<and>
    (\<forall>s2 r. running s2 r \<and> sl_exists l s2 \<and> r \<noteq> p \<and> p < length (procs s2) \<and>
       pstate (procs s2 ! p) = SLEEPING \<and> pchan (procs s2 ! p) = Some (Ch_sleep l) \<longrightarrow>
       okK (releasesleep l) s2 (\<lambda>_ t. pstate (procs t ! p) = RUNNABLE \<and> \<not> sl_locked (get_sl l t))) \<and>
    (\<forall>u. resumed u p \<and> sl_exists l u \<longrightarrow>
       (if sl_locked (get_sl l u)
        then k u = Swtch (u\<lparr>procs := (procs u)[p := (procs u ! p)\<lparr>pchan := Some (Ch_sleep l), pstate := SLEEPING\<rparr>]\<rparr>) k
        else okK k u (\<lambda>_ t. get_sl l t = \<lparr>sl_locked = True, sl_pid = pid (procs u ! p)\<rparr> \<and> held t = {} \<and>
               pchan (procs t ! p) = None)))"
proof -
  let ?s1 = "s\<lparr>held := {L_proc p},
      procs := (procs s)[p := (procs s ! p)\<lparr>pchan := Some (Ch_sleep l), pstate := SLEEPING\<rparr>]\<rparr>"
  obtain k where k: "acquiresleep l s = Swtch ?s1 k"
    "\<And>u. resumed u p \<Longrightarrow> k u = (if sl_locked (get_sl l u)
        then Swtch (u\<lparr>procs := (procs u)[p := (procs u ! p)\<lparr>pchan := Some (Ch_sleep l), pstate := SLEEPING\<rparr>]\<rparr>) k
        else Ret () (set_sl l \<lparr>sl_locked = True, sl_pid = pid (procs u ! p)\<rparr>
          (u\<lparr>held := {}, procs := (procs u)[p := (procs u ! p)\<lparr>pchan := None\<rparr>]\<rparr>)))"
    by (rule acquiresleep_waits [OF assms]) (blast intro: that)
  have rel: "okK (releasesleep l) s2 (\<lambda>_ t. pstate (procs t ! p) = RUNNABLE \<and> \<not> sl_locked (get_sl l t))"
    if run: "running s2 r" and ex: "sl_exists l s2" and rp: "r \<noteq> p" and p: "p < length (procs s2)"
      and sl: "pstate (procs s2 ! p) = SLEEPING" "pchan (procs s2 ! p) = Some (Ch_sleep l)" for s2 r
    by (rule okK_I [of "releasesleep l", OF releasesleep_apply [OF run]])
      (use p rp sl ex in \<open>simp add: wake_one_def sleeplock_zero_def\<close>)
  have res: "if sl_locked (get_sl l u)
      then k u = Swtch (u\<lparr>procs := (procs u)[p := (procs u ! p)\<lparr>pchan := Some (Ch_sleep l), pstate := SLEEPING\<rparr>]\<rparr>) k
      else okK k u (\<lambda>_ t. get_sl l t = \<lparr>sl_locked = True, sl_pid = pid (procs u ! p)\<rparr> \<and> held t = {} \<and> pchan (procs t ! p) = None)"
    if u: "resumed u p" "sl_exists l u" for u
    using k(2) [OF u(1)] u by (simp add: okK_def resumed_def)
  have "pstate (procs ?s1 ! p) = SLEEPING" "pchan (procs ?s1 ! p) = Some (Ch_sleep l)" "get_sl l ?s1 = get_sl l s"
    using assms(2) by simp_all
  then show ?thesis using k(1) rel res by (intro exI [of _ ?s1] exI [of _ k]) blast
qed

text \<open>The lock is free when the process is resumed, or another process has taken it first.\<close>

theorem acquiresleep_gets_released_lock_witness:
  "\<exists>s1 k. acquiresleep (SL_buf 0) (set_sl (SL_buf 0) \<lparr>sl_locked = True, sl_pid = 4\<rparr> sample_run) = Swtch s1 k \<and>
     pstate (procs s1 ! 0) = SLEEPING \<and>
     okK k (sample_run\<lparr>held := {L_proc 0}\<rparr>) (\<lambda>_ t. sl_locked (get_sl (SL_buf 0) t) \<and> held t = {}) \<and>
     (\<exists>t. k ((set_sl (SL_buf 0) \<lparr>sl_locked = True, sl_pid = 9\<rparr> sample_run)\<lparr>held := {L_proc 0}\<rparr>) = Swtch t k \<and>
        pstate (procs t ! 0) = SLEEPING)"
proof -
  let ?l = "SL_buf 0" and ?p = "0 :: nat"
  let ?u = "sample_run\<lparr>held := {L_proc 0}\<rparr>" and ?v = "(set_sl (SL_buf 0) \<lparr>sl_locked = True, sl_pid = 9\<rparr> sample_run)\<lparr>held := {L_proc 0}\<rparr>"
  have ex: "sl_exists ?l sample_run"
    by (simp add: sl_exists_def sample_run_def sample_user_def sample_state_def kernel_boot_def NBUF_def MAXOPBLOCKS_def)
  have fr: "\<not> sl_locked (get_sl ?l sample_run)"
    by (simp add: get_sl_def sample_run_def sample_user_def sample_state_def kernel_boot_def NBUF_def MAXOPBLOCKS_def buf_zero_def sleeplock_zero_def)
  have r: "resumed ?u ?p" "resumed ?v ?p" by (simp_all add: resumed_def NPROC_def)
  obtain s1 k where k: "acquiresleep ?l (set_sl ?l \<lparr>sl_locked = True, sl_pid = 4\<rparr> sample_run) = Swtch s1 k"
    "pstate (procs s1 ! ?p) = SLEEPING"
    "\<forall>u. resumed u ?p \<and> sl_exists ?l u \<longrightarrow>
       (if sl_locked (get_sl ?l u)
        then k u = Swtch (u\<lparr>procs := (procs u)[?p := (procs u ! ?p)\<lparr>pchan := Some (Ch_sleep ?l), pstate := SLEEPING\<rparr>]\<rparr>) k
        else okK k u (\<lambda>_ t. get_sl ?l t = \<lparr>sl_locked = True, sl_pid = pid (procs u ! ?p)\<rparr> \<and> held t = {} \<and>
               pchan (procs t ! ?p) = None))"
    using acquiresleep_gets_released_lock [of "set_sl ?l \<lparr>sl_locked = True, sl_pid = 4\<rparr> sample_run" ?p ?l] ex
    by (auto simp: NPROC_def)
  have "okK k ?u (\<lambda>_ t. sl_locked (get_sl ?l t) \<and> held t = {})"
  proof (rule okK_mono)
    show "okK k ?u (\<lambda>_ t. get_sl ?l t = \<lparr>sl_locked = True, sl_pid = pid (procs ?u ! ?p)\<rparr> \<and> held t = {} \<and>
        pchan (procs t ! ?p) = None)"
      using k(3) [rule_format, of ?u] r(1) ex fr by simp
  qed simp
  moreover have "k ?v = Swtch (?v\<lparr>procs := (procs ?v)[?p := (procs ?v ! ?p)\<lparr>pchan := Some (Ch_sleep ?l), pstate := SLEEPING\<rparr>]\<rparr>) k"
    using k(3) [rule_format, of ?v] r(2) ex by simp
  ultimately show ?thesis using k(1,2) by (intro exI [of _ s1] exI [of _ k]) (auto simp: NPROC_def)
qed

end
