(* ===== verification/Bio.thy ===== *)
theory Bio
  imports Sleeplock
begin

text \<open>
  \<^verbatim>\<open>kernel/bio.c\<close>: the buffer cache. A buffer is its index in \<^verbatim>\<open>bcache.buf\<close>; the list through
  \<^verbatim>\<open>head.next\<close> is the list \<open>lru\<close> of indices. The disk answers a request before \<^verbatim>\<open>virtio_disk_rw\<close> looks
  whether it has to wait: \<open>disk_read\<close> and \<open>disk_write\<close> are the transfers it makes.
\<close>

section \<open>Operations\<close>

definition getB :: "nat \<Rightarrow> (buf \<Rightarrow> 'a) \<Rightarrow> 'a K" where
  "getB b f = getK (\<lambda>s. f (bufs (bcache s) ! b))"

definition modB :: "nat \<Rightarrow> (buf \<Rightarrow> buf) \<Rightarrow> unit K" where
  "modB b f = modK (\<lambda>s. s\<lparr>bcache := (bcache s)\<lparr>bufs := (bufs (bcache s))[b := f (bufs (bcache s) ! b)]\<rparr>\<rparr>)"

definition modLru :: "(nat list \<Rightarrow> nat list) \<Rightarrow> unit K" where
  "modLru f = modK (\<lambda>s. s\<lparr>bcache := (bcache s)\<lparr>lru := f (lru (bcache s))\<rparr>\<rparr>)"

definition disk_read :: "nat \<Rightarrow> unit K" where
  "disk_read b = (\<lambda>s. modB b (\<lambda>q. q\<lparr>bdata := disk s (blockno q)\<rparr>) s)"

definition disk_write :: "nat \<Rightarrow> unit K" where
  "disk_write b = modK (\<lambda>s. let q = bufs (bcache s) ! b in
     s\<lparr>disk := (disk s)(blockno q := bdata q), dtrace := dtrace s @ [(blockno q, bdata q)]\<rparr>)"

definition virtio_disk_rw :: "nat \<Rightarrow> bool \<Rightarrow> unit K" where
  "virtio_disk_rw b write = (if write then disk_write b else disk_read b)"

definition binit :: "unit K" where
  "binit =
     thenK (initlock L_bcache)
    (thenK (modLru (\<lambda>_. []))
    (forK [0..<NBUF] (\<lambda>b. thenK (initsleeplock (SL_buf b)) (modLru (\<lambda>l. b # l)))))"

definition bget :: "nat \<Rightarrow> nat \<Rightarrow> nat K" where
  "bget dev bno =
     thenK (acquire L_bcache)
    (bindK (getK (\<lambda>s. find (\<lambda>b. bdev (bufs (bcache s) ! b) = dev \<and> blockno (bufs (bcache s) ! b) = bno)
                        (lru (bcache s)))) (\<lambda>hit.
     case hit of
       Some b \<Rightarrow>
         thenK (modB b (\<lambda>q. q\<lparr>refcnt := refcnt q + 1\<rparr>))
        (thenK (release L_bcache)
        (thenK (acquiresleep (SL_buf b))
               (retK b)))
     | None \<Rightarrow>
         bindK (getK (\<lambda>s. find (\<lambda>b. refcnt (bufs (bcache s) ! b) = 0) (rev (lru (bcache s))))) (\<lambda>free.
         case free of
           Some b \<Rightarrow>
             thenK (modB b (\<lambda>q. q\<lparr>bvalid := False, bdev := dev, blockno := bno, refcnt := 1\<rparr>))
            (thenK (release L_bcache)
            (thenK (acquiresleep (SL_buf b))
                   (retK b)))
         | None \<Rightarrow> panicK ''bget: no buffers'')))"

definition bread :: "nat \<Rightarrow> nat \<Rightarrow> nat K" where
  "bread dev bno =
     bindK (bget dev bno) (\<lambda>b.
     bindK (getB b bvalid) (\<lambda>v.
     thenK (whenK (\<not> v) (thenK (virtio_disk_rw b False) (modB b (\<lambda>q. q\<lparr>bvalid := True\<rparr>))))
           (retK b)))"

definition bwrite :: "nat \<Rightarrow> unit K" where
  "bwrite b =
     bindK (holdingsleep (SL_buf b)) (\<lambda>h.
     thenK (panic_if (\<not> h) ''bwrite'')
           (virtio_disk_rw b True))"

definition brelse :: "nat \<Rightarrow> unit K" where
  "brelse b =
     bindK (holdingsleep (SL_buf b)) (\<lambda>h.
     thenK (panic_if (\<not> h) ''brelse'')
    (thenK (releasesleep (SL_buf b))
    (thenK (acquire L_bcache)
    (thenK (modB b (\<lambda>q. q\<lparr>refcnt := refcnt q - 1\<rparr>))
    (bindK (getB b refcnt) (\<lambda>r.
     thenK (whenK (r = 0) (modLru (\<lambda>l. b # remove1 b l)))
           (release L_bcache)))))))"

definition bpin :: "nat \<Rightarrow> unit K" where
  "bpin b =
     thenK (acquire L_bcache)
    (thenK (modB b (\<lambda>q. q\<lparr>refcnt := refcnt q + 1\<rparr>))
           (release L_bcache))"

definition bunpin :: "nat \<Rightarrow> unit K" where
  "bunpin b =
     thenK (acquire L_bcache)
    (thenK (modB b (\<lambda>q. q\<lparr>refcnt := refcnt q - 1\<rparr>))
           (release L_bcache))"

section \<open>The invariant of the cache\<close>

text \<open>
  At most one buffer caches a block of the device in use; a buffer nobody refers to is not locked
  and does not differ from the disk.
\<close>

definition buf_ok :: "nat \<Rightarrow> (nat \<Rightarrow> u8 list) \<Rightarrow> buf \<Rightarrow> bool" where
  "buf_ok dev d q \<longleftrightarrow> (bdev q \<noteq> dev \<longrightarrow> refcnt q = 0) \<and> (sl_locked (blk q) \<longrightarrow> 0 < refcnt q) \<and>
     (bdev q = dev \<and> bvalid q \<longrightarrow> length (bdata q) = BSIZE \<and> (refcnt q = 0 \<longrightarrow> bdata q = d (blockno q)))"

definition bufs_unique :: "nat \<Rightarrow> buf list \<Rightarrow> bool" where
  "bufs_unique dev bs \<longleftrightarrow> (\<forall>b<NBUF. \<forall>c<NBUF.
     bdev (bs ! b) = dev \<and> bdev (bs ! c) = dev \<and> blockno (bs ! b) = blockno (bs ! c) \<longrightarrow> b = c)"

lemma bufs_uniqueD:
  "bufs_unique dev bs \<Longrightarrow> b < NBUF \<Longrightarrow> c < NBUF \<Longrightarrow> bdev (bs ! b) = dev \<Longrightarrow> bdev (bs ! c) = dev \<Longrightarrow>
   blockno (bs ! b) = blockno (bs ! c) \<Longrightarrow> b = c"
  by (simp add: bufs_unique_def)

definition bc_inv :: "nat \<Rightarrow> kstate \<Rightarrow> bool" where
  "bc_inv dev s \<longleftrightarrow>
     (let bs = bufs (bcache s) in
      length bs = NBUF \<and> distinct (lru (bcache s)) \<and> set (lru (bcache s)) = {..<NBUF} \<and>
      bufs_unique dev bs \<and>
      (\<forall>b<NBUF. buf_ok dev (disk s) (bs ! b)) \<and> (\<forall>n. length (disk s n) = BSIZE))"

definition upd_buf :: "nat \<Rightarrow> buf \<Rightarrow> kstate \<Rightarrow> kstate" where
  "upd_buf b q s = s\<lparr>bcache := (bcache s)\<lparr>bufs := (bufs (bcache s))[b := q]\<rparr>\<rparr>"

lemma modB_apply [simp]: "modB b f s = Ret () (upd_buf b (f (bufs (bcache s) ! b)) s)"
  by (simp add: modB_def upd_buf_def)

lemma getB_apply [simp]: "getB b f s = Ret (f (bufs (bcache s) ! b)) s"
  by (simp add: getB_def)

lemma modLru_apply [simp]: "modLru f s = Ret () (s\<lparr>bcache := (bcache s)\<lparr>lru := f (lru (bcache s))\<rparr>\<rparr>)"
  by (simp add: modLru_def)

lemma upd_buf_fields [simp]:
  "held (upd_buf b q s) = held s" "procs (upd_buf b q s) = procs s" "cur (upd_buf b q s) = cur s"
  "disk (upd_buf b q s) = disk s" "dtrace (upd_buf b q s) = dtrace s" "klog (upd_buf b q s) = klog s"
  "lru (bcache (upd_buf b q s)) = lru (bcache s)" "bufs (bcache (upd_buf b q s)) = (bufs (bcache s))[b := q]"
  "sb (upd_buf b q s) = sb s" "mem (upd_buf b q s) = mem s" "itable (upd_buf b q s) = itable s"
  by (simp_all add: upd_buf_def)

lemma upd_buf_twice [simp]: "upd_buf b q (upd_buf b q' s) = upd_buf b q s"
  by (simp add: upd_buf_def)

lemma upd_buf_frame [simp]:
  "upd_buf b q (s\<lparr>held := h\<rparr>) = (upd_buf b q s)\<lparr>held := h\<rparr>"
  "(upd_buf b q s)\<lparr>held := held s\<rparr> = upd_buf b q s"
  by (simp_all add: upd_buf_def)

lemma set_sl_upd_buf:
  "b < length (bufs (bcache s)) \<Longrightarrow>
   set_sl (SL_buf b) v s = upd_buf b ((bufs (bcache s) ! b)\<lparr>blk := v\<rparr>) s"
  by (simp add: set_sl_def upd_buf_def)

text \<open>The buffer that caches a block.\<close>

definition cached :: "nat \<Rightarrow> kstate \<Rightarrow> nat \<Rightarrow> buf option" where
  "cached dev s n =
     map_option (\<lambda>b. bufs (bcache s) ! b)
       (find (\<lambda>b. bdev (bufs (bcache s) ! b) = dev \<and> blockno (bufs (bcache s) ! b) = n) [0..<NBUF])"

lemma cached_Some:
  assumes "bufs_unique dev (bufs (bcache s))"
  shows "cached dev s n = Some q \<longleftrightarrow>
    (\<exists>b<NBUF. bufs (bcache s) ! b = q \<and> bdev q = dev \<and> blockno q = n)"
proof -
  let ?bs = "bufs (bcache s)" let ?P = "\<lambda>b. bdev (?bs ! b) = dev \<and> blockno (?bs ! b) = n"
  have u: "b = c" if "b < NBUF" "c < NBUF" "?P b" "?P c" for b c
    using bufs_uniqueD [OF assms] that by blast
  show ?thesis
  proof (cases "find ?P [0..<NBUF]")
    case None
    then have "\<not> ?P b" if "b < NBUF" for b using that by (simp add: find_None_iff)
    then show ?thesis using None by (auto simp: cached_def)
  next
    case (Some c)
    then have "c < NBUF" "?P c" by (auto simp: find_Some_iff)
    then show ?thesis using Some u by (auto simp: cached_def)
  qed
qed

lemma cached_None:
  "cached dev s n = None \<longleftrightarrow> (\<forall>b<NBUF. \<not> (bdev (bufs (bcache s) ! b) = dev \<and> blockno (bufs (bcache s) ! b) = n))"
  by (auto simp: cached_def find_None_iff)

lemma bc_inv_facts:
  assumes "bc_inv dev s"
  shows "length (bufs (bcache s)) = NBUF" "bufs_unique dev (bufs (bcache s))"
    "b < NBUF \<Longrightarrow> buf_ok dev (disk s) (bufs (bcache s) ! b)" "length (disk s n) = BSIZE"
    "distinct (lru (bcache s))" "set (lru (bcache s)) = {..<NBUF}"
  using assms by (simp_all add: bc_inv_def Let_def)

lemma cached_of:
  "bc_inv dev s \<Longrightarrow> b < NBUF \<Longrightarrow> bdev (bufs (bcache s) ! b) = dev \<Longrightarrow>
   cached dev s (blockno (bufs (bcache s) ! b)) = Some (bufs (bcache s) ! b)"
  by (auto simp: cached_Some [OF bc_inv_facts(2)])

lemma option_eqI: "(\<And>r. a = Some r \<longleftrightarrow> b = Some r) \<Longrightarrow> a = b"
  by (cases a; cases b) auto

text \<open>Replacing one buffer.\<close>

lemma bc_upd:
  assumes "bc_inv dev s" and "b < NBUF" and "buf_ok dev (disk s) q" and "bdev q = dev"
    and "cached dev s (blockno q) = None \<or>
      blockno q = blockno (bufs (bcache s) ! b) \<and> bdev (bufs (bcache s) ! b) = dev"
  shows "bc_inv dev (upd_buf b q s)"
    "cached dev (upd_buf b q s) =
      (if bdev (bufs (bcache s) ! b) = dev then (cached dev s)(blockno (bufs (bcache s) ! b) := None) else cached dev s)
      (blockno q := Some q)"
proof -
  let ?bs = "bufs (bcache s)" let ?o = "?bs ! b"
  note F = bc_inv_facts [OF assms(1)]
  have uq: "c = b" if "c < NBUF" "bdev (?bs ! c) = dev" "blockno (?bs ! c) = blockno q" for c
    using assms(5)
  proof
    assume "cached dev s (blockno q) = None"
    then show ?thesis using that by (simp add: cached_None)
  next
    assume "blockno q = blockno ?o \<and> bdev ?o = dev"
    then show ?thesis using bufs_uniqueD [OF F(2), of c b] that assms(2) by simp
  qed
  have nth: "?bs[b := q] ! c = (if c = b then q else ?bs ! c)" for c using F(1) assms(2) by simp
  have un: "bufs_unique dev (?bs[b := q])"
    unfolding bufs_unique_def nth
  proof (intro allI impI)
    fix x y assume xy: "x < NBUF" "y < NBUF" and *: "bdev (if x = b then q else ?bs ! x) = dev \<and>
      bdev (if y = b then q else ?bs ! y) = dev \<and>
      blockno (if x = b then q else ?bs ! x) = blockno (if y = b then q else ?bs ! y)"
    consider "x = b" "y = b" | "x = b" "y \<noteq> b" | "x \<noteq> b" "y = b" | "x \<noteq> b" "y \<noteq> b" by blast
    then show "x = y"
    proof cases
      case 1 then show ?thesis by simp
    next
      case 2 then show ?thesis using * uq [OF xy(2)] by (metis (full_types))
    next
      case 3 then show ?thesis using * uq [OF xy(1)] by (metis (full_types))
    next
      case 4 then show ?thesis using * bufs_uniqueD [OF F(2) xy] by (metis (full_types))
    qed
  qed
  show "bc_inv dev (upd_buf b q s)"
    using assms(1,3) un by (simp add: bc_inv_def Let_def nth)
  have un': "bufs_unique dev (bufs (bcache (upd_buf b q s)))" using un by simp
  have "cached dev (upd_buf b q s) n = Some r \<longleftrightarrow>
      ((if bdev ?o = dev then (cached dev s)(blockno ?o := None) else cached dev s)(blockno q := Some q)) n = Some r" for n r
  proof (cases "n = blockno q")
    case True
    then show ?thesis unfolding cached_Some [OF un'] using uq assms(2,4) by (auto simp: nth)
  next
    case False
    have "(\<exists>c<NBUF. (if c = b then q else ?bs ! c) = r \<and> bdev r = dev \<and> blockno r = n) \<longleftrightarrow>
        (\<exists>c<NBUF. c \<noteq> b \<and> ?bs ! c = r \<and> bdev r = dev \<and> blockno r = n)" using False by auto
    also have "\<dots> \<longleftrightarrow> \<not> (bdev ?o = dev \<and> blockno ?o = n) \<and> (\<exists>c<NBUF. ?bs ! c = r \<and> bdev r = dev \<and> blockno r = n)"
    proof (cases "bdev ?o = dev \<and> blockno ?o = n")
      case True
      then have "c = b" if "c < NBUF" "?bs ! c = r" "bdev r = dev" "blockno r = n" for c
        using bufs_uniqueD [OF F(2) that(1) assms(2)] that by simp
      then show ?thesis using True by auto
    qed auto
    finally show ?thesis
      using False unfolding cached_Some [OF un'] by (auto simp: nth cached_Some [OF F(2)])
  qed
  then show "cached dev (upd_buf b q s) =
      (if bdev ?o = dev then (cached dev s)(blockno ?o := None) else cached dev s)(blockno q := Some q)"
    by (intro ext option_eqI)
qed

section \<open>The blocks behind the cache\<close>

text \<open>
  What the cache stands for: the contents of each block as the kernel sees it, how often its buffer
  is referred to, the process that has it locked, and the disk with the writes it has received.
\<close>

record blocks =
  b_view :: "nat \<Rightarrow> u8 list"
  b_refs :: "nat \<Rightarrow> nat"
  b_owner :: "nat \<Rightarrow> int option"
  b_disk :: "nat \<Rightarrow> u8 list"
  b_trace :: "(nat \<times> u8 list) list"

primrec view_of :: "buf option \<Rightarrow> u8 list \<Rightarrow> u8 list" where
  "view_of None d = d"
| "view_of (Some q) d = (if bvalid q then bdata q else d)"

definition owner_of :: "sleeplock \<Rightarrow> int option" where
  "owner_of v = (if sl_locked v then Some (sl_pid v) else None)"

definition abs_blocks :: "nat \<Rightarrow> kstate \<Rightarrow> blocks" where
  "abs_blocks dev s =
     \<lparr>b_view = (\<lambda>n. view_of (cached dev s n) (disk s n)),
      b_refs = (\<lambda>n. case cached dev s n of Some q \<Rightarrow> refcnt q | None \<Rightarrow> 0),
      b_owner = (\<lambda>n. case cached dev s n of Some q \<Rightarrow> owner_of (blk q) | None \<Rightarrow> None),
      b_disk = disk s, b_trace = dtrace s\<rparr>"

lemma abs_blocks_fields [simp]:
  "b_disk (abs_blocks dev s) = disk s" "b_trace (abs_blocks dev s) = dtrace s"
  by (simp_all add: abs_blocks_def)

lemma abs_blocks_cached:
  assumes "cached dev s n = Some q"
  shows "b_view (abs_blocks dev s) n = (if bvalid q then bdata q else disk s n)"
    "b_refs (abs_blocks dev s) n = refcnt q" "b_owner (abs_blocks dev s) n = owner_of (blk q)"
  using assms by (simp_all add: abs_blocks_def)

lemma abs_blocks_cong:
  assumes "bcache t = bcache s" and "disk t = disk s" and "dtrace t = dtrace s"
  shows "abs_blocks dev t = abs_blocks dev s" "bc_inv dev t = bc_inv dev s"
  unfolding abs_blocks_def cached_def bc_inv_def assms by (rule refl)+

lemma abs_upd:
  assumes "bc_inv dev s" and "b < NBUF" and "buf_ok dev (disk s) q" and "bdev q = dev"
    and "cached dev s (blockno q) = None \<or>
      blockno q = blockno (bufs (bcache s) ! b) \<and> bdev (bufs (bcache s) ! b) = dev"
    and "bdev (bufs (bcache s) ! b) = dev \<Longrightarrow> blockno (bufs (bcache s) ! b) \<noteq> blockno q \<Longrightarrow>
      refcnt (bufs (bcache s) ! b) = 0"
    and "A = abs_blocks dev s"
  shows "abs_blocks dev (upd_buf b q s) = A\<lparr>
    b_view := (b_view A)(blockno q := if bvalid q then bdata q else disk s (blockno q)),
    b_refs := (b_refs A)(blockno q := refcnt q), b_owner := (b_owner A)(blockno q := owner_of (blk q))\<rparr>"
proof -
  let ?o = "bufs (bcache s) ! b"
  note E = bc_upd(2) [OF assms(1-5)]
  have old: "(if bvalid ?o then bdata ?o else disk s (blockno ?o)) = disk s (blockno ?o)"
      "refcnt ?o = 0" "\<not> sl_locked (blk ?o)" if "bdev ?o = dev" "blockno ?o \<noteq> blockno q"
    using assms(6) [OF that] bc_inv_facts(3) [OF assms(1,2)] that by (auto simp: buf_ok_def)
  have eo: "cached dev s (blockno ?o) = Some ?o" if "bdev ?o = dev" using cached_of [OF assms(1,2) that] .
  let ?U = "upd_buf b q s"
  have n: "cached dev ?U n = (if n = blockno q then Some q else if bdev ?o = dev \<and> n = blockno ?o then None else cached dev s n)" for n
    unfolding E by simp
  have v: "b_view (abs_blocks dev ?U) n = ((b_view A)(blockno q := if bvalid q then bdata q else disk s (blockno q))) n"
    and r: "b_refs (abs_blocks dev ?U) n = ((b_refs A)(blockno q := refcnt q)) n"
    and w: "b_owner (abs_blocks dev ?U) n = ((b_owner A)(blockno q := owner_of (blk q))) n" for n
  proof -
    have "b_view (abs_blocks dev ?U) n = ((b_view A)(blockno q := if bvalid q then bdata q else disk s (blockno q))) n \<and>
      b_refs (abs_blocks dev ?U) n = ((b_refs A)(blockno q := refcnt q)) n \<and>
      b_owner (abs_blocks dev ?U) n = ((b_owner A)(blockno q := owner_of (blk q))) n"
    proof (cases "n = blockno q")
      case True
      then have "cached dev ?U n = Some q" using n [of n] by simp
      then show ?thesis using True abs_blocks_cached [of dev ?U n q] by simp
    next
      case nq: False
      show ?thesis
      proof (cases "bdev ?o = dev \<and> n = blockno ?o")
        case True
        then have "cached dev ?U n = None" using n [of n] nq by simp
        moreover have "cached dev s n = Some ?o" using eo True by simp
        moreover note old [OF conjunct1 [OF True]]
        ultimately show ?thesis using nq True by (simp add: assms(7) abs_blocks_def owner_of_def)
      next
        case False
        then have e: "cached dev ?U n = cached dev s n" unfolding n [of n] using nq by (simp only: if_False)
        show ?thesis using nq by (simp add: assms(7) abs_blocks_def e)
      qed
    qed
    then show "b_view (abs_blocks dev ?U) n = ((b_view A)(blockno q := if bvalid q then bdata q else disk s (blockno q))) n"
      "b_refs (abs_blocks dev ?U) n = ((b_refs A)(blockno q := refcnt q)) n"
      "b_owner (abs_blocks dev ?U) n = ((b_owner A)(blockno q := owner_of (blk q))) n" by blast+
  qed
  show ?thesis
    by (rule blocks.equality) (use v r w in \<open>auto simp: assms(7)\<close>)
qed

text \<open>What the routines of the cache leave alone; sleepers may have been woken.\<close>

definition woken :: "proc list \<Rightarrow> proc list \<Rightarrow> bool" where
  "woken ps qs \<longleftrightarrow> length qs = length ps \<and>
     (\<forall>p<length ps. qs ! p = ps ! p \<or> pstate (ps ! p) = SLEEPING \<and> qs ! p = (ps ! p)\<lparr>pstate := RUNNABLE\<rparr>)"

definition bc_frame :: "kstate \<Rightarrow> kstate \<Rightarrow> bool" where
  "bc_frame s t \<longleftrightarrow> woken (procs s) (procs t) \<and>
     t = s\<lparr>bcache := bcache t, disk := disk t, dtrace := dtrace t, procs := procs t\<rparr>"

lemma woken_refl [simp]: "woken ps ps"
  by (simp add: woken_def)

lemma woken_trans: "woken ps qs \<Longrightarrow> woken qs rs \<Longrightarrow> woken ps rs"
  unfolding woken_def
proof (intro conjI allI impI, simp, elim conjE)
  fix p assume l: "length qs = length ps" "length rs = length qs"
    and a: "\<forall>p<length ps. qs ! p = ps ! p \<or> pstate (ps ! p) = SLEEPING \<and> qs ! p = (ps ! p)\<lparr>pstate := RUNNABLE\<rparr>"
    and b: "\<forall>p<length qs. rs ! p = qs ! p \<or> pstate (qs ! p) = SLEEPING \<and> rs ! p = (qs ! p)\<lparr>pstate := RUNNABLE\<rparr>"
    and p: "p < length ps"
  have "rs ! p = qs ! p \<or> pstate (qs ! p) = SLEEPING \<and> rs ! p = (qs ! p)\<lparr>pstate := RUNNABLE\<rparr>"
    using b p l by simp
  then show "rs ! p = ps ! p \<or> pstate (ps ! p) = SLEEPING \<and> rs ! p = (ps ! p)\<lparr>pstate := RUNNABLE\<rparr>"
    using a [rule_format, OF p] by (elim disjE conjE) simp_all
qed

lemma woken_wake_all [simp]: "woken ps (wake_all c cn ps)"
  by (auto simp: woken_def wake_one_def)

lemma woken_pid: "woken ps qs \<Longrightarrow> p < length ps \<Longrightarrow> pid (qs ! p) = pid (ps ! p)"
  by (auto simp: woken_def)

lemma bc_frame_refl [simp]: "bc_frame s s"
  by (simp add: bc_frame_def)

lemma bc_frame_trans: "bc_frame s t \<Longrightarrow> bc_frame t u \<Longrightarrow> bc_frame s u"
  unfolding bc_frame_def
proof (elim conjE, intro conjI)
  assume t: "t = s\<lparr>bcache := bcache t, disk := disk t, dtrace := dtrace t, procs := procs t\<rparr>"
    and u: "u = t\<lparr>bcache := bcache u, disk := disk u, dtrace := dtrace u, procs := procs u\<rparr>"
  show "u = s\<lparr>bcache := bcache u, disk := disk u, dtrace := dtrace u, procs := procs u\<rparr>"
    by (subst u, subst t) simp
qed (rule woken_trans)

lemma bc_frame_fields:
  assumes "bc_frame s t"
  shows "held t = held s" "cur t = cur s" "klog t = klog s" "sb t = sb s" "itable t = itable s"
    "mem t = mem s" "ftable t = ftable s" "woken (procs s) (procs t)"
proof -
  have t: "t = s\<lparr>bcache := bcache t, disk := disk t, dtrace := dtrace t, procs := procs t\<rparr>"
    using assms by (simp add: bc_frame_def)
  show "held t = held s" "cur t = cur s" "klog t = klog s" "sb t = sb s" "itable t = itable s"
    "mem t = mem s" "ftable t = ftable s" by (subst t, simp)+
  show "woken (procs s) (procs t)" using assms by (simp add: bc_frame_def)
qed

lemma running_frame:
  assumes "bc_frame s t" and "running s p"
  shows "running t p" "pid (procs t ! p) = pid (procs s ! p)"
proof -
  note F = bc_frame_fields [OF assms(1)]
  have "length (procs t) = length (procs s)" using F(8) by (simp add: woken_def)
  then show "running t p" using assms(2) by (simp add: running_def F(1,2))
  show "pid (procs t ! p) = pid (procs s ! p)" using woken_pid [OF F(8)] assms(2) by (simp add: running_def)
qed

lemma bc_frame_upd [simp]: "bc_frame s (upd_buf b q s)"
  by (simp add: bc_frame_def upd_buf_def)

text \<open>A process has read a block and holds its buffer.\<close>

definition holds_buf :: "nat \<Rightarrow> kstate \<Rightarrow> nat \<Rightarrow> nat \<Rightarrow> nat \<Rightarrow> bool" where
  "holds_buf dev s p b n \<longleftrightarrow> b < NBUF \<and>
     (let q = bufs (bcache s) ! b in bdev q = dev \<and> blockno q = n \<and> bvalid q \<and>
        blk q = \<lparr>sl_locked = True, sl_pid = pid (procs s ! p)\<rparr> \<and> 0 < refcnt q)"

definition in_use :: "nat \<Rightarrow> kstate \<Rightarrow> nat set" where
  "in_use dev s = {n. 0 < b_refs (abs_blocks dev s) n}"

lemma in_use_bound:
  assumes "bc_inv dev s"
  shows "finite (in_use dev s)" "card (in_use dev s) < NBUF \<Longrightarrow> \<exists>b<NBUF. refcnt (bufs (bcache s) ! b) = 0"
proof -
  let ?bs = "bufs (bcache s)"
  note F = bc_inv_facts [OF assms]
  have "in_use dev s \<subseteq> (\<lambda>b. blockno (?bs ! b)) ` {..<NBUF}"
  proof
    fix n assume "n \<in> in_use dev s"
    then obtain q where "cached dev s n = Some q"
      by (cases "cached dev s n") (simp_all add: in_use_def abs_blocks_def)
    then show "n \<in> (\<lambda>b. blockno (?bs ! b)) ` {..<NBUF}" by (auto simp: cached_Some [OF F(2)])
  qed
  then show fin: "finite (in_use dev s)" by (rule finite_subset) simp
  assume lt: "card (in_use dev s) < NBUF"
  show "\<exists>b<NBUF. refcnt (?bs ! b) = 0"
  proof (rule ccontr)
    assume no: "\<not> (\<exists>b<NBUF. refcnt (?bs ! b) = 0)"
    have d: "bdev (?bs ! b) = dev" if "b < NBUF" for b
      using F(3) [OF that] no that by (auto simp: buf_ok_def)
    have "inj_on (\<lambda>b. blockno (?bs ! b)) {..<NBUF}"
      by (rule inj_onI) (use bufs_uniqueD [OF F(2)] d in simp)
    moreover have "(\<lambda>b. blockno (?bs ! b)) ` {..<NBUF} \<subseteq> in_use dev s"
    proof
      fix n assume "n \<in> (\<lambda>b. blockno (?bs ! b)) ` {..<NBUF}"
      then obtain b where b: "b < NBUF" "n = blockno (?bs ! b)" by auto
      have "b_refs (abs_blocks dev s) n = refcnt (?bs ! b)"
        using abs_blocks_cached(2) [OF cached_of [OF assms b(1) d [OF b(1)]]] b(2) by simp
      then show "n \<in> in_use dev s" using no b(1) by (auto simp: in_use_def)
    qed
    ultimately have "card {..<NBUF} \<le> card (in_use dev s)" by (rule card_inj_on_le [OF _ _ fin])
    then show False using lt by simp
  qed
qed

lemma bget_apply:
  assumes "bc_inv dev s" and "running s p" and "L_bcache \<notin> held s"
    and "b_owner (abs_blocks dev s) n = None" and "n \<in> in_use dev s \<or> card (in_use dev s) < NBUF"
  obtains b q where "bget dev n s = Ret b (upd_buf b q s)" "b < NBUF" "bdev q = dev" "blockno q = n"
    "blk q = \<lparr>sl_locked = True, sl_pid = pid (procs s ! p)\<rparr>" "refcnt q = b_refs (abs_blocks dev s) n + 1"
    "b_view (abs_blocks dev s) n = (if bvalid q then bdata q else disk s n)"
    "cached dev s n = None \<or> n = blockno (bufs (bcache s) ! b) \<and> bdev (bufs (bcache s) ! b) = dev"
    "bdev (bufs (bcache s) ! b) = dev \<Longrightarrow> blockno (bufs (bcache s) ! b) \<noteq> n \<Longrightarrow> refcnt (bufs (bcache s) ! b) = 0"
    "bvalid q \<Longrightarrow> length (bdata q) = BSIZE"
proof -
  let ?bs = "bufs (bcache s)" and ?L = "lru (bcache s)"
  let ?P = "\<lambda>b. bdev (?bs ! b) = dev \<and> blockno (?bs ! b) = n"
  let ?me = "\<lparr>sl_locked = True, sl_pid = pid (procs s ! p)\<rparr>"
  note F = bc_inv_facts [OF assms(1)]
  have acq: "acquiresleep (SL_buf b) (upd_buf b q s) = Ret () (upd_buf b (q\<lparr>blk := ?me\<rparr>) s)"
    if "b < NBUF" "\<not> sl_locked (blk q)" for b q
  proof -
    have r: "running (upd_buf b q s) p" using running_frame(1) [OF bc_frame_upd assms(2)] .
    have "get_sl (SL_buf b) (upd_buf b q s) = blk q" using that F(1) by (simp add: get_sl_def)
    then show ?thesis
      using acquiresleep_free [OF r, of "SL_buf b"] that F(1) by (simp add: set_sl_upd_buf)
  qed
  show ?thesis
  proof (cases "find ?P ?L")
    case (Some b)
    then have b: "b < NBUF" "?P b" using F(6) by (auto simp: find_Some_iff)
    let ?q = "(?bs ! b)\<lparr>refcnt := refcnt (?bs ! b) + 1\<rparr>"
    have e: "cached dev s n = Some (?bs ! b)" using cached_of [OF assms(1) b(1)] b(2) by simp
    have free: "\<not> sl_locked (blk (?bs ! b))"
      using assms(4) abs_blocks_cached(3) [OF e] by (simp add: owner_of_def split: if_splits)
    have "bget dev n s = Ret b (upd_buf b (?q\<lparr>blk := ?me\<rparr>) s)"
      using Some acq [OF b(1), of ?q] free assms(3) F(1) b by (simp add: bget_def)
    moreover have "b_view (abs_blocks dev s) n = (if bvalid (?bs ! b) then bdata (?bs ! b) else disk s n)"
      by (rule abs_blocks_cached(1) [OF e])
    moreover have "bvalid (?bs ! b) \<Longrightarrow> length (bdata (?bs ! b)) = BSIZE"
      using F(3) [OF b(1)] b(2) by (simp add: buf_ok_def)
    ultimately show ?thesis
      using b abs_blocks_cached(2) [OF e] by (intro that [of b "?q\<lparr>blk := ?me\<rparr>"]) simp_all
  next
    case None
    then have e: "cached dev s n = None"
      unfolding cached_None find_None_iff using F(6) by auto
    have "n \<notin> in_use dev s" using e by (simp add: in_use_def abs_blocks_def)
    then obtain c where c: "c < NBUF" "refcnt (?bs ! c) = 0" using assms(5) in_use_bound(2) [OF assms(1)] by auto
    then have "find (\<lambda>b. refcnt (?bs ! b) = 0) (rev ?L) \<noteq> None"
      using F(6) by (auto simp: find_None_iff)
    then obtain b where fr: "find (\<lambda>b. refcnt (?bs ! b) = 0) (rev ?L) = Some b" by blast
    then have "b \<in> set (rev ?L)" "refcnt (?bs ! b) = 0"
      by (metis find_Some_iff nth_mem, auto simp: find_Some_iff)
    then have b: "b < NBUF" "refcnt (?bs ! b) = 0" using F(6) by auto
    let ?q = "(?bs ! b)\<lparr>bvalid := False, bdev := dev, blockno := n, refcnt := 1\<rparr>"
    have free: "\<not> sl_locked (blk (?bs ! b))" using F(3) [OF b(1)] b(2) by (auto simp: buf_ok_def)
    have "bget dev n s = Ret b (upd_buf b (?q\<lparr>blk := ?me\<rparr>) s)"
      using None fr acq [OF b(1), of ?q] free assms(3) F(1) b by (simp add: bget_def)
    then show ?thesis
      using b e by (intro that [of b "?q\<lparr>blk := ?me\<rparr>"]) (simp_all add: abs_blocks_def)
  qed
qed

lemma bread_apply:
  assumes "bc_inv dev s" and "running s p" and "L_bcache \<notin> held s"
    and "b_owner (abs_blocks dev s) n = None" and "n \<in> in_use dev s \<or> card (in_use dev s) < NBUF"
    and "A = abs_blocks dev s"
  obtains b t where "bread dev n s = Ret b t" "bc_inv dev t" "bc_frame s t" "holds_buf dev t p b n"
    "abs_blocks dev t = A\<lparr>b_refs := (b_refs A)(n := b_refs A n + 1),
       b_owner := (b_owner A)(n := Some (pid (procs s ! p)))\<rparr>"
    "bdata (bufs (bcache t) ! b) = b_view A n"
    "\<And>c m. holds_buf dev s p c m \<Longrightarrow> holds_buf dev t p c m \<and> bufs (bcache t) ! c = bufs (bcache s) ! c"
proof -
  obtain b q where g: "bget dev n s = Ret b (upd_buf b q s)" "b < NBUF" "bdev q = dev" "blockno q = n"
    "blk q = \<lparr>sl_locked = True, sl_pid = pid (procs s ! p)\<rparr>" "refcnt q = b_refs (abs_blocks dev s) n + 1"
    "b_view (abs_blocks dev s) n = (if bvalid q then bdata q else disk s n)"
    "cached dev s n = None \<or> n = blockno (bufs (bcache s) ! b) \<and> bdev (bufs (bcache s) ! b) = dev"
    "bdev (bufs (bcache s) ! b) = dev \<Longrightarrow> blockno (bufs (bcache s) ! b) \<noteq> n \<Longrightarrow> refcnt (bufs (bcache s) ! b) = 0"
    "bvalid q \<Longrightarrow> length (bdata q) = BSIZE"
    by (rule bget_apply [OF assms(1-5)]) (blast intro: that)
  note F = bc_inv_facts [OF assms(1)]
  define q' where "q' = q\<lparr>bvalid := True, bdata := b_view A n\<rparr>"
  let ?t = "upd_buf b q' s"
  have "bread dev n s = Ret b ?t"
  proof (cases "bvalid q")
    case True
    then have "q' = q" using g(7) by (simp add: q'_def assms(6))
    then show ?thesis using g(1,2) True F(1) by (simp add: bread_def)
  next
    case False
    then have "q' = q\<lparr>bdata := disk s (blockno q), bvalid := True\<rparr>" using g(4,7) by (simp add: q'_def assms(6))
    then show ?thesis using g(1,2) False F(1) by (simp add: bread_def virtio_disk_rw_def disk_read_def)
  qed
  moreover have len: "length (b_view A n) = BSIZE" using g(7,10) F(4) by (auto simp: assms(6))
  have ok: "buf_ok dev (disk s) q'" using g(3,4,6) len by (simp add: buf_ok_def q'_def)
  have q': "bdev q' = dev" "blockno q' = n" "blk q' = blk q" "refcnt q' = refcnt q" "bvalid q'" "bdata q' = b_view A n"
    using g by (simp_all add: q'_def)
  have pre: "cached dev s (blockno q') = None \<or>
      blockno q' = blockno (bufs (bcache s) ! b) \<and> bdev (bufs (bcache s) ! b) = dev" using g(8) q'(2) by simp
  have "bc_inv dev ?t" by (rule bc_upd(1) [OF assms(1) g(2) ok q'(1) pre])
  moreover have "abs_blocks dev ?t = A\<lparr>b_refs := (b_refs A)(n := b_refs A n + 1),
       b_owner := (b_owner A)(n := Some (pid (procs s ! p)))\<rparr>"
    using abs_upd [OF assms(1) g(2) ok q'(1) pre _ assms(6)] g(5,6,9)
    by (simp add: q' owner_of_def assms(6))
  moreover have "holds_buf dev ?t p b n" using g(2,5,6) q' F(1) by (simp add: holds_buf_def Let_def)
  moreover have "holds_buf dev ?t p c m \<and> bufs (bcache ?t) ! c = bufs (bcache s) ! c"
    if h: "holds_buf dev s p c m" for c m
  proof -
    have "c \<noteq> b"
    proof
      assume "c = b"
      then have o: "bdev (bufs (bcache s) ! b) = dev" "0 < refcnt (bufs (bcache s) ! b)" "sl_locked (blk (bufs (bcache s) ! b))"
        using h by (simp_all add: holds_buf_def Let_def)
      then have "blockno (bufs (bcache s) ! b) = n" using g(9) by auto
      then have "cached dev s n = Some (bufs (bcache s) ! b)" using cached_of [OF assms(1) g(2) o(1)] by simp
      then show False using assms(4) o(3) abs_blocks_cached(3) by (fastforce simp: owner_of_def)
    qed
    then show ?thesis using h by (simp add: holds_buf_def Let_def)
  qed
  moreover have "bdata (bufs (bcache ?t) ! b) = b_view A n" using g(2) F(1) q'(6) by simp
  ultimately show ?thesis using bc_frame_upd by (intro that [of b ?t])
qed

text \<open>Operations on a buffer the process holds.\<close>

lemma holds_bufD:
  assumes "bc_inv dev s" and "holds_buf dev s p b n"
  shows "b < NBUF" "cached dev s n = Some (bufs (bcache s) ! b)" "bdev (bufs (bcache s) ! b) = dev"
    "blockno (bufs (bcache s) ! b) = n" "b_view (abs_blocks dev s) n = bdata (bufs (bcache s) ! b)"
    "b_refs (abs_blocks dev s) n = refcnt (bufs (bcache s) ! b)" "0 < refcnt (bufs (bcache s) ! b)"
    "b_owner (abs_blocks dev s) n = Some (pid (procs s ! p))" "bvalid (bufs (bcache s) ! b)"
    "blk (bufs (bcache s) ! b) = \<lparr>sl_locked = True, sl_pid = pid (procs s ! p)\<rparr>"
proof -
  have h: "b < NBUF" "bdev (bufs (bcache s) ! b) = dev" "blockno (bufs (bcache s) ! b) = n" "bvalid (bufs (bcache s) ! b)"
    "blk (bufs (bcache s) ! b) = \<lparr>sl_locked = True, sl_pid = pid (procs s ! p)\<rparr>" "0 < refcnt (bufs (bcache s) ! b)"
    using assms(2) by (simp_all add: holds_buf_def Let_def)
  have e: "cached dev s n = Some (bufs (bcache s) ! b)" using cached_of [OF assms(1) h(1,2)] h(3) by simp
  show "b < NBUF" "cached dev s n = Some (bufs (bcache s) ! b)" "bdev (bufs (bcache s) ! b) = dev"
    "blockno (bufs (bcache s) ! b) = n" "b_view (abs_blocks dev s) n = bdata (bufs (bcache s) ! b)"
    "b_refs (abs_blocks dev s) n = refcnt (bufs (bcache s) ! b)" "0 < refcnt (bufs (bcache s) ! b)"
    "b_owner (abs_blocks dev s) n = Some (pid (procs s ! p))" "bvalid (bufs (bcache s) ! b)"
    "blk (bufs (bcache s) ! b) = \<lparr>sl_locked = True, sl_pid = pid (procs s ! p)\<rparr>"
    using h e abs_blocks_cached [OF e] by (simp_all add: owner_of_def)
qed

lemma holds_buf_unique:
  assumes "bc_inv dev s" and "holds_buf dev s p b n" and "holds_buf dev s p c m" and "n \<noteq> m"
  shows "b \<noteq> c"
  using holds_bufD(4) [OF assms(1,2)] holds_bufD(4) [OF assms(1,3)] assms(4) by auto

text \<open>Changing a held buffer in place, and the effect on the others.\<close>

lemma held_upd:
  assumes "bc_inv dev s" and "holds_buf dev s p b n" and "A = abs_blocks dev s"
    and "bdev q = dev" "blockno q = n" "bvalid q" "length (bdata q) = BSIZE"
    and "sl_locked (blk q) \<Longrightarrow> 0 < refcnt q" "refcnt q = 0 \<Longrightarrow> bdata q = disk s n"
  shows "bc_inv dev (upd_buf b q s)"
    "abs_blocks dev (upd_buf b q s) = A\<lparr>b_view := (b_view A)(n := bdata q), b_refs := (b_refs A)(n := refcnt q),
       b_owner := (b_owner A)(n := owner_of (blk q))\<rparr>"
    "holds_buf dev s p c m \<Longrightarrow> m \<noteq> n \<Longrightarrow>
       holds_buf dev (upd_buf b q s) p c m \<and> bufs (bcache (upd_buf b q s)) ! c = bufs (bcache s) ! c"
    "bufs (bcache (upd_buf b q s)) ! b = q"
proof -
  note H = holds_bufD [OF assms(1,2)] and F = bc_inv_facts [OF assms(1)]
  have ok: "buf_ok dev (disk s) q" using assms(4-9) by (simp add: buf_ok_def)
  have pre: "cached dev s (blockno q) = None \<or>
      blockno q = blockno (bufs (bcache s) ! b) \<and> bdev (bufs (bcache s) ! b) = dev" using assms(5) H(3,4) by simp
  show "bc_inv dev (upd_buf b q s)" by (rule bc_upd(1) [OF assms(1) H(1) ok assms(4) pre])
  show "abs_blocks dev (upd_buf b q s) = A\<lparr>b_view := (b_view A)(n := bdata q), b_refs := (b_refs A)(n := refcnt q),
       b_owner := (b_owner A)(n := owner_of (blk q))\<rparr>"
    using abs_upd [OF assms(1) H(1) ok assms(4) pre _ assms(3)] H(4) assms(5,6) by simp
  show "bufs (bcache (upd_buf b q s)) ! b = q" using H(1) F(1) by simp
  assume h: "holds_buf dev s p c m" and "m \<noteq> n"
  then have "b \<noteq> c" using holds_buf_unique [OF assms(1,2) h] by simp
  then show "holds_buf dev (upd_buf b q s) p c m \<and> bufs (bcache (upd_buf b q s)) ! c = bufs (bcache s) ! c"
    using h by (simp add: holds_buf_def Let_def)
qed

lemma set_data:
  assumes "bc_inv dev s" and "holds_buf dev s p b n" and "A = abs_blocks dev s" and "length d = BSIZE"
    and "t = upd_buf b ((bufs (bcache s) ! b)\<lparr>bdata := d\<rparr>) s"
  shows "bc_inv dev t" "bc_frame s t" "abs_blocks dev t = A\<lparr>b_view := (b_view A)(n := d)\<rparr>"
    "bdata (bufs (bcache t) ! b) = d" "holds_buf dev s p c m \<Longrightarrow> holds_buf dev t p c m"
    "holds_buf dev s p c m \<Longrightarrow> m \<noteq> n \<Longrightarrow> bufs (bcache t) ! c = bufs (bcache s) ! c"
proof -
  note H = holds_bufD [OF assms(1,2)]
  note U = held_upd [OF assms(1-3), of "(bufs (bcache s) ! b)\<lparr>bdata := d\<rparr>", folded assms(5)]
  show "bc_inv dev t" "bdata (bufs (bcache t) ! b) = d" using U(1,4) H assms(4) by simp_all
  show "bc_frame s t" unfolding assms(5) by (rule bc_frame_upd)
  have "abs_blocks dev t = A\<lparr>b_view := (b_view A)(n := d), b_refs := (b_refs A)(n := b_refs A n),
      b_owner := (b_owner A)(n := b_owner A n)\<rparr>"
    using U(2) H assms(3,4) by (simp add: owner_of_def)
  then show "abs_blocks dev t = A\<lparr>b_view := (b_view A)(n := d)\<rparr>" by simp
  show "bufs (bcache t) ! c = bufs (bcache s) ! c" if "holds_buf dev s p c m" "m \<noteq> n"
    using U(3) that H assms(4) by simp
  assume h: "holds_buf dev s p c m"
  show "holds_buf dev t p c m"
  proof (cases "m = n")
    case False
    then show ?thesis using U(3) h H assms(4) by simp
  next
    case True
    then have "c = b"
      using bufs_uniqueD [OF bc_inv_facts(2) [OF assms(1)]] holds_bufD [OF assms(1) h] H by simp
    then show ?thesis using H(1,3,4,7,9,10) True U(4) assms(4,5) by (simp add: holds_buf_def Let_def)
  qed
qed

lemma holding_buf:
  assumes "bc_inv dev s" and "running s p" and "holds_buf dev s p b n"
  shows "holdingsleep (SL_buf b) s = Ret True s"
  using holdingsleep_apply [OF assms(2), of "SL_buf b"] holds_bufD [OF assms(1,3)] by (simp add: get_sl_def)

lemma bwrite_apply:
  assumes "bc_inv dev s" and "running s p" and "holds_buf dev s p b n" and "A = abs_blocks dev s"
  obtains t where "bwrite b s = Ret () t" "bc_inv dev t" "bc_frame s t" "bcache t = bcache s"
    "abs_blocks dev t = A\<lparr>b_disk := (b_disk A)(n := b_view A n), b_trace := b_trace A @ [(n, b_view A n)]\<rparr>"
    "\<And>c m. holds_buf dev s p c m \<Longrightarrow> holds_buf dev t p c m"
proof -
  note H = holds_bufD [OF assms(1,3)] and F = bc_inv_facts [OF assms(1)]
  let ?d = "b_view A n"
  let ?t = "s\<lparr>disk := (disk s)(n := ?d), dtrace := dtrace s @ [(n, ?d)]\<rparr>"
  have d: "?d = bdata (bufs (bcache s) ! b)" using H(5) assms(4) by simp
  have "bwrite b s = Ret () ?t"
    using holding_buf [OF assms(1-3)] H(4) d
    by (simp add: bwrite_def virtio_disk_rw_def disk_write_def Let_def)
  moreover have len: "length ?d = BSIZE" using F(3) [OF H(1)] H(3,9) d by (simp add: buf_ok_def)
  have "bc_inv dev ?t"
  proof -
    have "buf_ok dev (disk ?t) (bufs (bcache s) ! c)" if c: "c < NBUF" for c
    proof (cases "bdev (bufs (bcache s) ! c) = dev \<and> blockno (bufs (bcache s) ! c) = n")
      case True
      then have "c = b" using bufs_uniqueD [OF F(2) c H(1)] H(3,4) by simp
      then show ?thesis using F(3) [OF c] H(7) by (simp add: buf_ok_def)
    next
      case False
      then show ?thesis using F(3) [OF c] by (auto simp: buf_ok_def)
    qed
    then show ?thesis using assms(1) len by (simp add: bc_inv_def Let_def)
  qed
  moreover have "abs_blocks dev ?t = A\<lparr>b_disk := (b_disk A)(n := b_view A n), b_trace := b_trace A @ [(n, b_view A n)]\<rparr>"
  proof -
    define t where "t = ?t"
    have f: "disk t = (disk s)(n := ?d)" "dtrace t = dtrace s @ [(n, ?d)]" "bcache t = bcache s" by (simp_all add: t_def)
    have e: "cached dev t = cached dev s" by (rule ext) (simp add: cached_def f(3))
    have "view_of (cached dev s m) (disk t m) = view_of (cached dev s m) (disk s m)" for m
      using H(2,9) by (cases "m = n") (simp_all add: f)
    then have "abs_blocks dev t = A\<lparr>b_disk := (b_disk A)(n := b_view A n), b_trace := b_trace A @ [(n, b_view A n)]\<rparr>"
      by (intro blocks.equality) (simp_all add: abs_blocks_def e assms(4) f)
    then show ?thesis by (simp only: t_def)
  qed
  moreover have "bc_frame s ?t" by (simp add: bc_frame_def)
  moreover have "holds_buf dev ?t p c m" if "holds_buf dev s p c m" for c m
    using that by (simp add: holds_buf_def)
  ultimately show ?thesis by (intro that [of ?t]) simp_all
qed

lemma abs_bufs_cong:
  assumes "bufs (bcache t) = bufs (bcache s)" and "disk t = disk s" and "dtrace t = dtrace s"
  shows "abs_blocks dev t = abs_blocks dev s"
proof -
  have e: "cached dev t = cached dev s" by (rule ext) (simp add: cached_def assms(1))
  show ?thesis by (intro blocks.equality) (simp_all add: abs_blocks_def e assms)
qed

lemma brelse_apply:
  assumes "bc_inv dev s" and "running s p" and "L_bcache \<notin> held s" and "holds_buf dev s p b n"
    and "A = abs_blocks dev s" and "b_refs A n = 1 \<Longrightarrow> b_view A n = b_disk A n"
  obtains t where "brelse b s = Ret () t" "bc_inv dev t" "bc_frame s t"
    "abs_blocks dev t = A\<lparr>b_refs := (b_refs A)(n := b_refs A n - 1), b_owner := (b_owner A)(n := None)\<rparr>"
    "\<And>c m. holds_buf dev s p c m \<Longrightarrow> m \<noteq> n \<Longrightarrow> holds_buf dev t p c m \<and> bufs (bcache t) ! c = bufs (bcache s) ! c"
    "lru (bcache t) = (if b_refs A n = 1 then b # remove1 b (lru (bcache s)) else lru (bcache s))"
proof -
  note H = holds_bufD [OF assms(1,4)] and F = bc_inv_facts [OF assms(1)]
  let ?o = "bufs (bcache s) ! b" and ?W = "wake_all (Some p) (Some (Ch_sleep (SL_buf b))) (procs s)"
  let ?q = "?o\<lparr>blk := sleeplock_zero, refcnt := refcnt ?o - 1\<rparr>"
  let ?L = "if refcnt ?o = 1 then b # remove1 b (lru (bcache s)) else lru (bcache s)"
  define t where "t = s\<lparr>procs := ?W, bcache := \<lparr>bufs = (bufs (bcache s))[b := ?q], lru = ?L\<rparr>\<rparr>"
  have t: "procs t = ?W" "bufs (bcache t) = (bufs (bcache s))[b := ?q]" "lru (bcache t) = ?L" "disk t = disk s"
    "dtrace t = dtrace s" by (simp_all add: t_def)
  have rel: "releasesleep (SL_buf b) s = Ret () ((upd_buf b (?o\<lparr>blk := sleeplock_zero\<rparr>) s)\<lparr>procs := ?W\<rparr>)"
    using releasesleep_apply [OF assms(2), of "SL_buf b"] H(1) F(1) by (simp add: set_sl_upd_buf)
  have "brelse b s = Ret () t"
  proof (cases "refcnt ?o = 1")
    case True
    then show ?thesis
      using holding_buf [OF assms(1,2,4)] rel assms(3) H(1) F(1)
      by (simp add: brelse_def t_def) (rule kstate.equality, simp_all add: upd_buf_def)
  next
    case False
    then have "refcnt ?o - 1 \<noteq> 0" using H(7) by simp
    then show ?thesis
      using holding_buf [OF assms(1,2,4)] rel assms(3) H(1) F(1) False
      by (simp add: brelse_def t_def) (rule kstate.equality, simp_all add: upd_buf_def)
  qed
  moreover have len: "length (bdata ?o) = BSIZE" using F(3) [OF H(1)] H(3,9) by (simp add: buf_ok_def)
  have z: "bdata ?q = disk s n" if "refcnt ?q = 0"
    using that H assms(5,6) by simp
  have "bc_inv dev (upd_buf b ?q s)"
    by (rule held_upd(1) [OF assms(1,4,5)]) (use H len z in \<open>simp_all add: sleeplock_zero_def\<close>)
  then have "bc_inv dev t"
    using F(5,6) H(1) by (auto simp: bc_inv_def Let_def t)
  moreover have "bc_frame s t" by (simp add: bc_frame_def t) (simp add: t_def)
  moreover have "abs_blocks dev t = A\<lparr>b_refs := (b_refs A)(n := b_refs A n - 1), b_owner := (b_owner A)(n := None)\<rparr>"
  proof -
    have "abs_blocks dev t = abs_blocks dev (upd_buf b ?q s)" by (rule abs_bufs_cong) (simp_all add: t)
    also have "\<dots> = A\<lparr>b_view := (b_view A)(n := bdata ?q), b_refs := (b_refs A)(n := refcnt ?q),
       b_owner := (b_owner A)(n := owner_of (blk ?q))\<rparr>"
      by (rule held_upd(2) [OF assms(1,4,5)]) (use H len z in \<open>simp_all add: sleeplock_zero_def\<close>)
    also have "\<dots> = A\<lparr>b_view := (b_view A)(n := b_view A n), b_refs := (b_refs A)(n := b_refs A n - 1),
       b_owner := (b_owner A)(n := None)\<rparr>" using H assms(5) by (simp add: owner_of_def sleeplock_zero_def)
    finally show ?thesis by simp
  qed
  moreover have "holds_buf dev t p c m \<and> bufs (bcache t) ! c = bufs (bcache s) ! c"
    if h: "holds_buf dev s p c m" "m \<noteq> n" for c m
  proof -
    have "b \<noteq> c" using holds_buf_unique [OF assms(1,4) h(1)] h(2) by simp
    moreover have "pid (procs t ! p) = pid (procs s ! p)"
      using running_frame(2) [OF \<open>bc_frame s t\<close> assms(2)] .
    ultimately show ?thesis using h(1) by (simp add: holds_buf_def Let_def t(2))
  qed
  moreover have "lru (bcache t) = (if b_refs A n = 1 then b # remove1 b (lru (bcache s)) else lru (bcache s))"
    using H(6) assms(5) by (simp add: t)
  ultimately show ?thesis by (intro that [of t])
qed

text \<open>Changing only the number of references to a held buffer.\<close>

lemma held_refs:
  assumes "bc_inv dev s" and "holds_buf dev s p b n" and "A = abs_blocks dev s" and "0 < r"
    and "t = upd_buf b ((bufs (bcache s) ! b)\<lparr>refcnt := r\<rparr>) s"
  shows "bc_inv dev t" "bc_frame s t" "abs_blocks dev t = A\<lparr>b_refs := (b_refs A)(n := r)\<rparr>"
    "bdata (bufs (bcache t) ! b) = bdata (bufs (bcache s) ! b)"
    "holds_buf dev s p c m \<Longrightarrow> holds_buf dev t p c m"
    "holds_buf dev s p c m \<Longrightarrow> bdata (bufs (bcache t) ! c) = bdata (bufs (bcache s) ! c)"
proof -
  note H = holds_bufD [OF assms(1,2)] and F = bc_inv_facts [OF assms(1)]
  have len: "length (bdata (bufs (bcache s) ! b)) = BSIZE" using F(3) [OF H(1)] H(3,9) by (simp add: buf_ok_def)
  note U = held_upd [OF assms(1-3), of "(bufs (bcache s) ! b)\<lparr>refcnt := r\<rparr>", folded assms(5)]
  show "bc_inv dev t" "bdata (bufs (bcache t) ! b) = bdata (bufs (bcache s) ! b)" using U(1,4) H assms(4) len by simp_all
  show "bc_frame s t" unfolding assms(5) by (rule bc_frame_upd)
  have "abs_blocks dev t = A\<lparr>b_view := (b_view A)(n := b_view A n), b_refs := (b_refs A)(n := r),
      b_owner := (b_owner A)(n := b_owner A n)\<rparr>"
    using U(2) H assms(3,4) len by (simp add: owner_of_def)
  then show "abs_blocks dev t = A\<lparr>b_refs := (b_refs A)(n := r)\<rparr>" by simp
  assume h: "holds_buf dev s p c m"
  have "holds_buf dev t p c m \<and> bdata (bufs (bcache t) ! c) = bdata (bufs (bcache s) ! c)"
  proof (cases "m = n")
    case False
    then show ?thesis using U(3) h H assms(4) len by simp
  next
    case True
    then have "c = b"
      using bufs_uniqueD [OF F(2)] holds_bufD [OF assms(1) h] H by simp
    then show ?thesis using H(1,3,4,7,9,10) True U(4) assms(4,5) len by (simp add: holds_buf_def Let_def)
  qed
  then show "holds_buf dev t p c m" "bdata (bufs (bcache t) ! c) = bdata (bufs (bcache s) ! c)" by simp_all
qed

lemma bpin_apply:
  assumes "L_bcache \<notin> held s"
  shows "bpin b s = Ret () (upd_buf b ((bufs (bcache s) ! b)\<lparr>refcnt := refcnt (bufs (bcache s) ! b) + 1\<rparr>) s)"
  using assms by (simp add: bpin_def)

lemma bunpin_apply:
  assumes "L_bcache \<notin> held s"
  shows "bunpin b s = Ret () (upd_buf b ((bufs (bcache s) ! b)\<lparr>refcnt := refcnt (bufs (bcache s) ! b) - 1\<rparr>) s)"
  using assms by (simp add: bunpin_def)

definition cache_ok :: "nat \<Rightarrow> kstate \<Rightarrow> nat \<Rightarrow> bool" where
  "cache_ok dev s p \<longleftrightarrow> bc_inv dev s \<and> running s p \<and> L_bcache \<notin> held s"

lemma cache_okD: "cache_ok dev s p \<Longrightarrow> bc_inv dev s" "cache_ok dev s p \<Longrightarrow> running s p"
  "cache_ok dev s p \<Longrightarrow> L_bcache \<notin> held s"
  by (simp_all add: cache_ok_def)

lemma cache_ok_frame: "cache_ok dev s p \<Longrightarrow> bc_frame s t \<Longrightarrow> bc_inv dev t \<Longrightarrow> cache_ok dev t p"
  using running_frame(1) [of s t p] bc_frame_fields(1) [of s t] by (simp add: cache_ok_def)

lemma block_clean:
  assumes "bc_inv dev s" and "b_refs (abs_blocks dev s) n = 0"
  shows "b_view (abs_blocks dev s) n = disk s n" "b_owner (abs_blocks dev s) n = None"
proof -
  have "b_view (abs_blocks dev s) n = disk s n \<and> b_owner (abs_blocks dev s) n = None"
  proof (cases "cached dev s n")
    case None
    then show ?thesis by (simp add: abs_blocks_def)
  next
    case (Some q)
    then obtain b where "b < NBUF" "bufs (bcache s) ! b = q" "bdev q = dev" "blockno q = n"
      by (auto simp: cached_Some [OF bc_inv_facts(2) [OF assms(1)]])
    then have "buf_ok dev (disk s) q" "refcnt q = 0"
      using bc_inv_facts(3) [OF assms(1)] assms(2) abs_blocks_cached(2) [OF Some] by auto
    then show ?thesis using abs_blocks_cached [OF Some] \<open>bdev q = dev\<close> \<open>blockno q = n\<close>
      by (auto simp: buf_ok_def owner_of_def)
  qed
  then show "b_view (abs_blocks dev s) n = disk s n" "b_owner (abs_blocks dev s) n = None" by simp_all
qed

text \<open>The steps that the routines of the log are made of, in terms of the blocks behind the cache.\<close>

lemma read_block:
  assumes "cache_ok dev s p" and "A = abs_blocks dev s" and "b_owner A n = None"
    and "n \<in> in_use dev s \<or> card (in_use dev s) < NBUF"
  obtains b t where "bread dev n s = Ret b t" "cache_ok dev t p" "bc_frame s t" "holds_buf dev t p b n"
    "abs_blocks dev t = A\<lparr>b_refs := (b_refs A)(n := b_refs A n + 1), b_owner := (b_owner A)(n := Some (pid (procs s ! p)))\<rparr>"
    "bdata (bufs (bcache t) ! b) = b_view A n" "\<And>c m. holds_buf dev s p c m \<Longrightarrow> holds_buf dev t p c m"
proof -
  note C = cache_okD [OF assms(1)]
  obtain b t where "bread dev n s = Ret b t" "bc_inv dev t" "bc_frame s t" "holds_buf dev t p b n"
    "abs_blocks dev t = A\<lparr>b_refs := (b_refs A)(n := b_refs A n + 1), b_owner := (b_owner A)(n := Some (pid (procs s ! p)))\<rparr>"
    "bdata (bufs (bcache t) ! b) = b_view A n" "\<And>c m. holds_buf dev s p c m \<Longrightarrow> holds_buf dev t p c m"
    by (rule bread_apply [OF C assms(3) [unfolded assms(2)] assms(4) assms(2)]) (blast intro: that)
  then show ?thesis using cache_ok_frame [OF assms(1)] by (intro that [of b t])
qed

lemma write_block:
  assumes "cache_ok dev s p" and "holds_buf dev s p b n" and "A = abs_blocks dev s" and "length v = BSIZE"
  obtains t where "thenK (modB b (\<lambda>q. q\<lparr>bdata := v\<rparr>)) (bwrite b) s = Ret () t" "cache_ok dev t p" "bc_frame s t"
    "abs_blocks dev t = A\<lparr>b_view := (b_view A)(n := v), b_disk := (b_disk A)(n := v), b_trace := b_trace A @ [(n, v)]\<rparr>"
    "\<And>c m. holds_buf dev s p c m \<Longrightarrow> holds_buf dev t p c m"
proof -
  note C = cache_okD [OF assms(1)]
  define s1 where "s1 = upd_buf b ((bufs (bcache s) ! b)\<lparr>bdata := v\<rparr>) s"
  note S1 = set_data [OF C(1) assms(2,3,4) s1_def]
  define A1 where "A1 = abs_blocks dev s1"
  obtain t where t: "bwrite b s1 = Ret () t" "bc_inv dev t" "bc_frame s1 t"
    "abs_blocks dev t = A1\<lparr>b_disk := (b_disk A1)(n := b_view A1 n), b_trace := b_trace A1 @ [(n, b_view A1 n)]\<rparr>"
    "\<And>c m. holds_buf dev s1 p c m \<Longrightarrow> holds_buf dev t p c m"
    by (rule bwrite_apply [OF S1(1) running_frame(1) [OF S1(2) C(2)] S1(5) [OF assms(2)] A1_def]) (blast intro: that)
  have fr: "bc_frame s t" by (rule bc_frame_trans [OF S1(2) t(3)])
  show ?thesis
  proof (rule that [OF _ cache_ok_frame [OF assms(1) fr t(2)] fr])
    show "thenK (modB b (\<lambda>q. q\<lparr>bdata := v\<rparr>)) (bwrite b) s = Ret () t" using t(1) by (simp add: s1_def [symmetric])
    show "abs_blocks dev t = A\<lparr>b_view := (b_view A)(n := v), b_disk := (b_disk A)(n := v), b_trace := b_trace A @ [(n, v)]\<rparr>"
      using t(4) S1(3) by (simp add: A1_def)
    show "holds_buf dev t p c m" if "holds_buf dev s p c m" for c m using t(5) S1(5) that by blast
  qed
qed

lemma unpin_block:
  assumes "cache_ok dev s p" and "holds_buf dev s p b n" and "A = abs_blocks dev s" and "unpin \<Longrightarrow> 2 \<le> b_refs A n"
  obtains t where "whenK unpin (bunpin b) s = Ret () t" "cache_ok dev t p" "bc_frame s t"
    "abs_blocks dev t = A\<lparr>b_refs := (b_refs A)(n := b_refs A n - (if unpin then 1 else 0))\<rparr>"
    "\<And>c m. holds_buf dev s p c m \<Longrightarrow> holds_buf dev t p c m"
proof (cases unpin)
  case False
  then show ?thesis using assms(1,3) by (intro that [of s]) simp_all
next
  case True
  note C = cache_okD [OF assms(1)]
  have rc: "refcnt (bufs (bcache s) ! b) = b_refs A n" using holds_bufD(6) [OF C(1) assms(2)] assms(3) by simp
  define t where "t = upd_buf b ((bufs (bcache s) ! b)\<lparr>refcnt := b_refs A n - 1\<rparr>) s"
  have pos: "0 < b_refs A n - 1" using assms(4) True by simp
  note T = held_refs [OF C(1) assms(2,3) pos t_def]
  have "whenK unpin (bunpin b) s = Ret () t" using True bunpin_apply [OF C(3)] by (simp add: t_def rc)
  then show ?thesis using T True cache_ok_frame [OF assms(1)] by (intro that [of t]) simp_all
qed

lemma release_block:
  assumes "cache_ok dev s p" and "holds_buf dev s p b n" and "A = abs_blocks dev s"
    and "b_refs A n = 1 \<Longrightarrow> b_view A n = b_disk A n"
  obtains t where "brelse b s = Ret () t" "cache_ok dev t p" "bc_frame s t"
    "abs_blocks dev t = A\<lparr>b_refs := (b_refs A)(n := b_refs A n - 1), b_owner := (b_owner A)(n := None)\<rparr>"
    "\<And>c m. holds_buf dev s p c m \<Longrightarrow> m \<noteq> n \<Longrightarrow> holds_buf dev t p c m"
proof -
  note C = cache_okD [OF assms(1)]
  obtain t where "brelse b s = Ret () t" "bc_inv dev t" "bc_frame s t"
    "abs_blocks dev t = A\<lparr>b_refs := (b_refs A)(n := b_refs A n - 1), b_owner := (b_owner A)(n := None)\<rparr>"
    "\<And>c m. holds_buf dev s p c m \<Longrightarrow> m \<noteq> n \<Longrightarrow> holds_buf dev t p c m"
    by (rule brelse_apply [OF C assms(2-4)]) (blast intro: that)+
  then show ?thesis using cache_ok_frame [OF assms(1)] by (intro that [of t])
qed

section \<open>Properties\<close>

lemma binit_loop:
  assumes "\<And>b. b < NBUF \<Longrightarrow> blk (bufs (bcache s) ! b) = sleeplock_zero" and "length (bufs (bcache s)) = NBUF"
    and "lru (bcache s) = []"
  shows "okK (forK [0..<NBUF] (\<lambda>b. thenK (initsleeplock (SL_buf b)) (modLru (\<lambda>l. b # l)))) s
    (\<lambda>_ t. bcache t = \<lparr>bufs = bufs (bcache s), lru = rev [0..<NBUF]\<rparr> \<and> disk t = disk s \<and> dtrace t = dtrace s)"
proof -
  have step: "okK (thenK (initsleeplock (SL_buf b)) (modLru (\<lambda>l. b # l))) t
      (\<lambda>_ u. bcache u = \<lparr>bufs = bufs (bcache s), lru = rev (ys @ [b])\<rparr> \<and> disk u = disk s \<and> dtrace u = dtrace s)"
    if t: "bcache t = \<lparr>bufs = bufs (bcache s), lru = rev ys\<rparr> \<and> disk t = disk s \<and> dtrace t = dtrace s"
      and b: "b < NBUF" for b ys t
  proof -
    have "(bufs (bcache s))[b := (bufs (bcache s) ! b)\<lparr>blk := sleeplock_zero\<rparr>] = bufs (bcache s)"
      using assms(1) [OF b] by (metis (no_types, lifting) buf.surjective buf.update_convs(4) list_update_id)
    then show ?thesis using t by (simp add: initsleeplock_def set_sl_def okK_def)
  qed
  show ?thesis
  proof (rule okK_for)
    show "bcache s = \<lparr>bufs = bufs (bcache s), lru = rev []\<rparr> \<and> disk s = disk s \<and> dtrace s = dtrace s"
      using assms(3) by simp
    fix ys x zs and t :: kstate
    assume xs: "[0..<NBUF] = ys @ x # zs"
      and I: "bcache t = \<lparr>bufs = bufs (bcache s), lru = rev ys\<rparr> \<and> disk t = disk s \<and> dtrace t = dtrace s"
    have "x \<in> set [0..<NBUF]" unfolding xs by simp
    then show "okK (thenK (initsleeplock (SL_buf x)) (modLru (\<lambda>l. x # l))) t
      (\<lambda>_ u. bcache u = \<lparr>bufs = bufs (bcache s), lru = rev (ys @ [x])\<rparr> \<and> disk u = disk s \<and> dtrace u = dtrace s)"
      using step [OF I] by simp
  qed
qed

text \<open>
  C10: \<^verbatim>\<open>binit\<close> makes the cache of a freshly booted kernel well-formed for every device but number 0: the
  list holds each buffer once, and what the kernel sees of each block is the disk's contents.
\<close>

theorem binit_establishes_cache:
  assumes "dev \<noteq> 0" and "\<And>n. length (d n) = BSIZE"
  shows "okK binit (kernel_boot m e et tramp sel d) (\<lambda>_ t. bc_inv dev t \<and> b_view (abs_blocks dev t) = d \<and>
    b_refs (abs_blocks dev t) = (\<lambda>_. 0) \<and> lru (bcache t) = rev [0..<NBUF])"
proof -
  let ?s = "kernel_boot m e et tramp sel d"
  have run: "binit ?s = forK [0..<NBUF] (\<lambda>b. thenK (initsleeplock (SL_buf b)) (modLru (\<lambda>l. b # l)))
      (?s\<lparr>held := {}, bcache := \<lparr>bufs = replicate NBUF buf_zero, lru = []\<rparr>\<rparr>)"
    by (simp add: binit_def kernel_boot_def)
  have "okK (forK [0..<NBUF] (\<lambda>b. thenK (initsleeplock (SL_buf b)) (modLru (\<lambda>l. b # l))))
      (?s\<lparr>held := {}, bcache := \<lparr>bufs = replicate NBUF buf_zero, lru = []\<rparr>\<rparr>)
    (\<lambda>_ t. bcache t = \<lparr>bufs = replicate NBUF buf_zero, lru = rev [0..<NBUF]\<rparr> \<and> disk t = d \<and> dtrace t = [])"
    by (rule okK_mono [OF binit_loop]) (simp_all add: kernel_boot_def buf_zero_def)
  then have "okK binit ?s (\<lambda>_ t. bcache t = \<lparr>bufs = replicate NBUF buf_zero, lru = rev [0..<NBUF]\<rparr> \<and> disk t = d \<and> dtrace t = [])"
    unfolding okK_def using run by simp
  then show ?thesis
  proof (rule okK_mono)
    fix r and t :: kstate assume t: "bcache t = \<lparr>bufs = replicate NBUF buf_zero, lru = rev [0..<NBUF]\<rparr> \<and> disk t = d \<and> dtrace t = []"
    have e: "cached dev t n = None" for n
      using t assms(1) by (simp add: cached_None buf_zero_def)
    have "bc_inv dev t"
      using t assms by (auto simp: bc_inv_def Let_def bufs_unique_def buf_ok_def buf_zero_def sleeplock_zero_def)
    then show "bc_inv dev t \<and> b_view (abs_blocks dev t) = d \<and> b_refs (abs_blocks dev t) = (\<lambda>_. 0) \<and>
        lru (bcache t) = rev [0..<NBUF]"
      using t by (simp add: abs_blocks_def e)
  qed
qed

theorem binit_establishes_cache_witness:
  "okK binit (kernel_boot (\<lambda>_. 0) 0 0 0 SCFIFO (\<lambda>_. replicate BSIZE 7)) (\<lambda>_ t. bc_inv 1 t)"
  by (rule okK_mono [OF binit_establishes_cache [of 1]]) simp_all

text \<open>
  C8: \<^verbatim>\<open>bread\<close> returns a buffer with the contents of the block, locked by the caller, and nothing else
  changes: every block keeps its contents, its references and its owner but for the one reference
  and the lock that the caller now has, and the buffers the caller held before are still its own.
\<close>

theorem bread_gives_the_block:
  assumes "cache_ok dev s p" and "b_owner (abs_blocks dev s) n = None"
    and "n \<in> in_use dev s \<or> card (in_use dev s) < NBUF"
  shows "okK (bread dev n) s (\<lambda>b t. cache_ok dev t p \<and> holds_buf dev t p b n \<and>
    bdata (bufs (bcache t) ! b) = b_view (abs_blocks dev s) n \<and>
    abs_blocks dev t = (abs_blocks dev s)\<lparr>
      b_refs := (b_refs (abs_blocks dev s))(n := b_refs (abs_blocks dev s) n + 1),
      b_owner := (b_owner (abs_blocks dev s))(n := Some (pid (procs s ! p)))\<rparr> \<and>
    (\<forall>c m. holds_buf dev s p c m \<longrightarrow> holds_buf dev t p c m))"
proof -
  obtain b t where "bread dev n s = Ret b t" "cache_ok dev t p" "bc_frame s t" "holds_buf dev t p b n"
    "abs_blocks dev t = (abs_blocks dev s)\<lparr>
      b_refs := (b_refs (abs_blocks dev s))(n := b_refs (abs_blocks dev s) n + 1),
      b_owner := (b_owner (abs_blocks dev s))(n := Some (pid (procs s ! p)))\<rparr>"
    "bdata (bufs (bcache t) ! b) = b_view (abs_blocks dev s) n" "\<And>c m. holds_buf dev s p c m \<Longrightarrow> holds_buf dev t p c m"
    by (rule read_block [OF assms(1) refl assms(2,3)]) (blast intro: that)
  then show ?thesis by (intro okK_I [of "bread dev n" s b t]) blast+
qed

text \<open>A cache in which no block is held, for a process that runs.\<close>

definition sample_cache :: kstate where
  "sample_cache = sample_run\<lparr>bcache := \<lparr>bufs = replicate NBUF buf_zero, lru = rev [0..<NBUF]\<rparr>,
     disk := (\<lambda>n. replicate BSIZE (of_nat n)), dtrace := []\<rparr>"

lemma sample_cache_ok: "cache_ok ROOTDEV sample_cache 0"
proof -
  have "bc_inv ROOTDEV sample_cache"
    by (auto simp: ROOTDEV_def sample_cache_def bc_inv_def Let_def bufs_unique_def buf_ok_def buf_zero_def sleeplock_zero_def)
  then show ?thesis by (simp add: cache_ok_def running_def sample_cache_def NPROC_def)
qed

lemma sample_cache_empty:
  "cached ROOTDEV sample_cache n = None" "in_use ROOTDEV sample_cache = {}" "b_owner (abs_blocks ROOTDEV sample_cache) n = None"
proof -
  show e: "cached ROOTDEV sample_cache n = None" for n by (simp add: cached_None sample_cache_def buf_zero_def ROOTDEV_def)
  show "in_use ROOTDEV sample_cache = {}" "b_owner (abs_blocks ROOTDEV sample_cache) n = None"
    by (simp_all add: in_use_def abs_blocks_def e)
qed

theorem bread_gives_the_block_witness:
  "okK (bread ROOTDEV 5) sample_cache (\<lambda>b t. bdata (bufs (bcache t) ! b) = replicate BSIZE 5)"
  by (rule okK_mono [OF bread_gives_the_block [OF sample_cache_ok]])
    (simp_all add: sample_cache_empty NBUF_def MAXOPBLOCKS_def abs_blocks_def, simp add: sample_cache_def)

text \<open>
  C9: \<^verbatim>\<open>brelse\<close> by the holder of a buffer unlocks it and drops one reference, without changing the
  contents of any block; a buffer that nobody refers to any more becomes the most recently used,
  and otherwise the order of use does not change. Releasing a buffer that the caller does not hold
  panics.
\<close>

theorem brelse_releases:
  assumes "cache_ok dev s p" and "A = abs_blocks dev s"
  shows "(holds_buf dev s p b n \<and> (b_refs A n = 1 \<longrightarrow> b_view A n = disk s n) \<longrightarrow>
      okK (brelse b) s (\<lambda>_ t. cache_ok dev t p \<and>
        abs_blocks dev t = A\<lparr>b_refs := (b_refs A)(n := b_refs A n - 1), b_owner := (b_owner A)(n := None)\<rparr> \<and>
        lru (bcache t) = (if b_refs A n = 1 then b # remove1 b (lru (bcache s)) else lru (bcache s)))) \<and>
    (owner_of (blk (bufs (bcache s) ! b)) \<noteq> Some (pid (procs s ! p)) \<longrightarrow> brelse b s = Panic ''brelse'')"
proof (intro conjI impI; (elim conjE)?)
  note C = cache_okD [OF assms(1)]
  show "okK (brelse b) s (\<lambda>_ t. cache_ok dev t p \<and>
        abs_blocks dev t = A\<lparr>b_refs := (b_refs A)(n := b_refs A n - 1), b_owner := (b_owner A)(n := None)\<rparr> \<and>
        lru (bcache t) = (if b_refs A n = 1 then b # remove1 b (lru (bcache s)) else lru (bcache s)))"
    if h: "holds_buf dev s p b n" and cl: "b_refs A n = 1 \<longrightarrow> b_view A n = disk s n"
  proof -
    have cl': "b_refs A n = 1 \<Longrightarrow> b_view A n = b_disk A n" using cl by (simp add: assms(2))
    obtain t where t: "brelse b s = Ret () t" "bc_inv dev t" "bc_frame s t"
      "abs_blocks dev t = A\<lparr>b_refs := (b_refs A)(n := b_refs A n - 1), b_owner := (b_owner A)(n := None)\<rparr>"
      "lru (bcache t) = (if b_refs A n = 1 then b # remove1 b (lru (bcache s)) else lru (bcache s))"
      by (rule brelse_apply [OF C h assms(2) cl']) (blast intro: that)+
    then show ?thesis using cache_ok_frame [OF assms(1) t(3,2)] by (intro okK_I [of "brelse b" s "()" t]) blast+
  qed
  assume "owner_of (blk (bufs (bcache s) ! b)) \<noteq> Some (pid (procs s ! p))"
  then have h: "holdingsleep (SL_buf b) s = Ret False s"
    using holdingsleep_apply [OF C(2), of "SL_buf b"] by (auto simp: get_sl_def owner_of_def split: if_splits)
  show "brelse b s = Panic ''brelse''"
    unfolding brelse_def bindK_Ret [of "holdingsleep (SL_buf b)", OF h] by simp
qed

text \<open>The sample cache after reading block 5 into buffer 0, the last of the list.\<close>

definition sample_held :: kstate where
  "sample_held = upd_buf 0 \<lparr>bvalid = True, bdev = ROOTDEV, blockno = 5, blk = \<lparr>sl_locked = True, sl_pid = 3\<rparr>,
     refcnt = 1, bdata = replicate BSIZE 5\<rparr> sample_cache"

lemma sample_held_ok: "cache_ok ROOTDEV sample_held 0" "holds_buf ROOTDEV sample_held 0 0 5"
  "lru (bcache sample_held) = rev [0..<NBUF]" "disk sample_held 5 = replicate BSIZE 5"
proof -
  note C = cache_okD [OF sample_cache_ok]
  have z: "0 < NBUF" by (simp add: NBUF_def MAXOPBLOCKS_def)
  have "bc_inv ROOTDEV sample_held"
    unfolding sample_held_def
    by (rule bc_upd(1) [OF C(1) z]) (simp_all add: buf_ok_def sample_cache_empty)
  moreover have "bc_frame sample_cache sample_held" unfolding sample_held_def by (rule bc_frame_upd)
  ultimately show "cache_ok ROOTDEV sample_held 0" by (intro cache_ok_frame [OF sample_cache_ok])
  show "holds_buf ROOTDEV sample_held 0 0 5" "lru (bcache sample_held) = rev [0..<NBUF]"
    "disk sample_held 5 = replicate BSIZE 5"
    using z by (simp_all add: holds_buf_def sample_held_def sample_cache_def)
qed

theorem brelse_releases_witness:
  "okK (brelse 0) sample_held (\<lambda>_ t. lru (bcache t) = 0 # remove1 0 (rev [0..<NBUF]))"
proof -
  note H = holds_bufD [OF cache_okD(1) [OF sample_held_ok(1)] sample_held_ok(2)]
  have n: "0 < NBUF" by (simp add: NBUF_def MAXOPBLOCKS_def)
  have A: "b_refs (abs_blocks ROOTDEV sample_held) 5 = 1" "b_view (abs_blocks ROOTDEV sample_held) 5 = disk sample_held 5"
    using H(5,6) n by (simp_all add: sample_held_ok) (simp_all add: sample_held_def sample_cache_def)
  show ?thesis
    using brelse_releases [OF sample_held_ok(1) refl, of 0 5] sample_held_ok A by (auto elim!: okK_mono)
qed

end
