(* ===== verification/Log.thy ===== *)
theory Log
  imports Bio
begin

text \<open>
  \<^verbatim>\<open>kernel/log.c\<close>: transactions. The log header is the record \<open>klog\<close>; on disk it is the block at
  \<^verbatim>\<open>log.start\<close>, the count and the block numbers as little-endian 32-bit integers, and the logged
  blocks follow it.
\<close>

section \<open>Operations\<close>

definition get32 :: "u8 list \<Rightarrow> nat \<Rightarrow> u32" where
  "get32 d off = le_word (take 4 (drop off d))"

definition put32 :: "u8 list \<Rightarrow> nat \<Rightarrow> u32 \<Rightarrow> u8 list" where
  "put32 d off v = take off d @ le_bytes 4 v @ drop (off + 4) d"

definition getL :: "(klog \<Rightarrow> 'a) \<Rightarrow> 'a K" where
  "getL f = getK (\<lambda>s. f (klog s))"

definition modL :: "(klog \<Rightarrow> klog) \<Rightarrow> unit K" where
  "modL f = modK (\<lambda>s. s\<lparr>klog := f (klog s)\<rparr>)"

definition install_trans :: "bool \<Rightarrow> unit K" where
  "install_trans recovering =
     bindK (getL lh_n) (\<lambda>n.
     forK [0..<n] (\<lambda>i.
       bindK (getL (\<lambda>l. l)) (\<lambda>l.
       bindK (bread (ldev l) (lstart l + i + 1)) (\<lambda>lbuf.
       bindK (bread (ldev l) (lh_block l ! i)) (\<lambda>dbuf.
       bindK (getB lbuf bdata) (\<lambda>d.
       thenK (modB dbuf (\<lambda>q. q\<lparr>bdata := d\<rparr>))
      (thenK (bwrite dbuf)
      (thenK (whenK (\<not> recovering) (bunpin dbuf))
      (thenK (brelse lbuf)
             (brelse dbuf))))))))))"

text \<open>The count on disk is a C \<^verbatim>\<open>int\<close>; a count above LOGSIZE would run over the array.\<close>

definition read_head :: "unit K" where
  "read_head =
     bindK (getL (\<lambda>l. l)) (\<lambda>l.
     bindK (bread (ldev l) (lstart l)) (\<lambda>b.
     bindK (getB b bdata) (\<lambda>d.
     let n = nat (sint (get32 d 0)) in
     if LOGSIZE < n then wildK
     else
       thenK (modL (\<lambda>l. l\<lparr>lh_n := n,
         lh_block := map (\<lambda>i. unat (get32 d (4 + 4 * i))) [0..<n] @ drop n (lh_block l)\<rparr>))
             (brelse b))))"

primrec put_blocks :: "u8 list \<Rightarrow> nat \<Rightarrow> nat list \<Rightarrow> u8 list" where
  "put_blocks d i [] = d"
| "put_blocks d i (x # xs) = put_blocks (put32 d (4 + 4 * i) (of_nat x)) (Suc i) xs"

definition write_head :: "unit K" where
  "write_head =
     bindK (getL (\<lambda>l. l)) (\<lambda>l.
     bindK (bread (ldev l) (lstart l)) (\<lambda>b.
     thenK (modB b (\<lambda>q. q\<lparr>bdata := put_blocks (put32 (bdata q) 0 (of_nat (lh_n l))) 0
                                      (take (lh_n l) (lh_block l))\<rparr>))
    (thenK (bwrite b)
           (brelse b))))"

definition recover_from_log :: "unit K" where
  "recover_from_log =
     thenK read_head
    (thenK (install_trans True)
    (thenK (modL (\<lambda>l. l\<lparr>lh_n := 0\<rparr>))
           write_head))"

definition initlog :: "nat \<Rightarrow> superblock \<Rightarrow> unit K" where
  "initlog dev b =
     thenK (panic_if (4 + 4 * LOGSIZE \<ge> BSIZE) ''initlog: too big logheader'')
    (thenK (initlock L_log)
    (thenK (modL (\<lambda>l. l\<lparr>lstart := sb_logstart b, lsize := sb_nlog b, ldev := dev\<rparr>))
           recover_from_log))"

definition begin_op :: "unit K" where
  "begin_op =
     thenK (acquire L_log)
     (whileK (bindK (getL (\<lambda>l. l)) (\<lambda>l.
        if committing l then thenK (sleep Ch_log L_log) (retK None)
        else if int (lh_n l) + (outstanding l + 1) * int MAXOPBLOCKS > int LOGSIZE
        then thenK (sleep Ch_log L_log) (retK None)
        else thenK (modL (\<lambda>l. l\<lparr>outstanding := outstanding l + 1\<rparr>))
            (thenK (release L_log) (retK (Some ()))))))"

definition write_log :: "unit K" where
  "write_log =
     bindK (getL lh_n) (\<lambda>n.
     forK [0..<n] (\<lambda>i.
       bindK (getL (\<lambda>l. l)) (\<lambda>l.
       bindK (bread (ldev l) (lstart l + i + 1)) (\<lambda>to.
       bindK (bread (ldev l) (lh_block l ! i)) (\<lambda>from.
       bindK (getB from bdata) (\<lambda>d.
       thenK (modB to (\<lambda>q. q\<lparr>bdata := d\<rparr>))
      (thenK (bwrite to)
      (thenK (brelse from)
             (brelse to)))))))))"

definition commit :: "unit K" where
  "commit =
     bindK (getL lh_n) (\<lambda>n.
     whenK (n > 0)
       (thenK write_log
       (thenK write_head
       (thenK (install_trans False)
       (thenK (modL (\<lambda>l. l\<lparr>lh_n := 0\<rparr>))
              write_head)))))"

definition end_op :: "unit K" where
  "end_op =
     thenK (acquire L_log)
    (thenK (modL (\<lambda>l. l\<lparr>outstanding := outstanding l - 1\<rparr>))
    (bindK (getL (\<lambda>l. l)) (\<lambda>l.
     thenK (panic_if (committing l) ''log.committing'')
     (let do_commit = (outstanding l = 0) in
      thenK (if do_commit then modL (\<lambda>l. l\<lparr>committing := True\<rparr>) else wakeup (Some Ch_log))
     (thenK (release L_log)
     (whenK do_commit
       (thenK commit
       (thenK (acquire L_log)
       (thenK (modL (\<lambda>l. l\<lparr>committing := False\<rparr>))
       (thenK (wakeup (Some Ch_log))
              (release L_log)))))))))))"

definition log_write :: "nat \<Rightarrow> unit K" where
  "log_write b =
     thenK (acquire L_log)
    (bindK (getL (\<lambda>l. l)) (\<lambda>l.
     thenK (panic_if (lh_n l \<ge> LOGSIZE \<or> int (lh_n l) \<ge> int (lsize l) - 1) ''too big a transaction'')
    (thenK (panic_if (outstanding l < 1) ''log_write outside of trans'')
    (bindK (getB b blockno) (\<lambda>bno.
     let i = length (takeWhile (\<lambda>x. x \<noteq> bno) (take (lh_n l) (lh_block l))) in
     thenK (modL (\<lambda>l. l\<lparr>lh_block := (lh_block l)[i := bno]\<rparr>))
    (thenK (whenK (i = lh_n l)
             (thenK (bpin b) (modL (\<lambda>l. l\<lparr>lh_n := lh_n l + 1\<rparr>))))
           (release L_log)))))))"

section \<open>Integers in blocks\<close>

definition splice :: "u8 list \<Rightarrow> nat \<Rightarrow> u8 list \<Rightarrow> u8 list" where
  "splice d off bs = take off d @ bs @ drop (off + length bs) d"

lemma length_splice [simp]: "off + length bs \<le> length d \<Longrightarrow> length (splice d off bs) = length d"
  by (simp add: splice_def)

lemma nth_splice:
  "off + length bs \<le> length d \<Longrightarrow> i < length d \<Longrightarrow>
   splice d off bs ! i = (if off \<le> i \<and> i < off + length bs then bs ! (i - off) else d ! i)"
  by (auto simp: splice_def nth_append min_def)

lemma splice_same:
  "off + length bs \<le> length d \<Longrightarrow> take (length bs) (drop off (splice d off bs)) = bs"
  by (simp add: splice_def)

lemma splice_other:
  assumes "off + length bs \<le> length d" and "pos + k \<le> off \<or> off + length bs \<le> pos" and "pos + k \<le> length d"
  shows "take k (drop pos (splice d off bs)) = take k (drop pos d)"
  by (rule nth_equalityI) (use assms in \<open>auto simp: nth_splice\<close>)

lemma put32_splice: "put32 d off v = splice d off (le_bytes 4 v)"
  by (simp add: put32_def splice_def)

lemma length_put32 [simp]: "off + 4 \<le> length d \<Longrightarrow> length (put32 d off v) = length d"
  by (simp add: put32_splice)

lemma get32_put32_same [simp]: "off + 4 \<le> length d \<Longrightarrow> get32 (put32 d off v) off = v"
  using splice_same [of off "le_bytes 4 v" d]
  by (simp add: get32_def put32_splice le_word_le_bytes take_bit_word_eq_self)

lemma get32_put32_other:
  "off + 4 \<le> length d \<Longrightarrow> pos + 4 \<le> off \<or> off + 4 \<le> pos \<Longrightarrow> pos + 4 \<le> length d \<Longrightarrow>
   get32 (put32 d off v) pos = get32 d pos"
  using splice_other [of off "le_bytes 4 v" d pos 4] by (simp add: get32_def put32_splice)

lemma put_blocks_facts:
  assumes "4 + 4 * (i + length xs) \<le> length d"
  shows "length (put_blocks d i xs) = length d \<and>
    (\<forall>pos. pos + 4 \<le> 4 + 4 * i \<longrightarrow> get32 (put_blocks d i xs) pos = get32 d pos) \<and>
    (\<forall>j<length xs. get32 (put_blocks d i xs) (4 + 4 * (i + j)) = of_nat (xs ! j))"
  using assms
proof (induction xs arbitrary: d i)
  case (Cons x xs)
  let ?d = "put32 d (4 + 4 * i) (of_nat x)"
  have len: "length ?d = length d" using Cons.prems by simp
  have "4 + 4 * (Suc i + length xs) \<le> length ?d" using Cons.prems len by simp
  note IH = Cons.IH [OF this]
  have "get32 (put_blocks d i (x # xs)) (4 + 4 * (i + j)) = of_nat ((x # xs) ! j)" if j: "j < length (x # xs)" for j
  proof (cases j)
    case 0
    then show ?thesis using IH Cons.prems by simp
  next
    case (Suc k)
    then have "get32 (put_blocks ?d (Suc i) xs) (4 + 4 * (Suc i + k)) = of_nat (xs ! k)" using IH j by simp
    then show ?thesis using Suc by simp
  qed
  moreover have "get32 (put_blocks d i (x # xs)) pos = get32 d pos" if "pos + 4 \<le> 4 + 4 * i" for pos
    using IH that Cons.prems by (simp add: get32_put32_other)
  moreover have "length (put_blocks d i (x # xs)) = length d" using IH len by simp
  ultimately show ?case by blast
qed simp

text \<open>The header of the log: what \<^verbatim>\<open>write_head\<close> encodes, \<^verbatim>\<open>read_head\<close> decodes.\<close>

definition head_n :: "u8 list \<Rightarrow> nat" where
  "head_n d = nat (sint (get32 d 0))"

definition head_blocks :: "u8 list \<Rightarrow> nat list" where
  "head_blocks d = map (\<lambda>i. unat (get32 d (4 + 4 * i))) [0..<head_n d]"

definition encode_head :: "nat list \<Rightarrow> u8 list \<Rightarrow> u8 list" where
  "encode_head bs d = put_blocks (put32 d 0 (of_nat (length bs))) 0 bs"

lemma encode_decode:
  assumes "length bs \<le> LOGSIZE" and "length d = BSIZE" and "\<forall>b\<in>set bs. b < 2 ^ 32"
  shows "length (encode_head bs d) = BSIZE" "head_n (encode_head bs d) = length bs"
    "head_blocks (encode_head bs d) = bs"
proof -
  have l30: "length bs \<le> 30" using assms(1) by (simp add: LOGSIZE_def MAXOPBLOCKS_def)
  let ?d = "put32 d 0 (of_nat (length bs))"
  have len: "length ?d = BSIZE" using assms(2) by (simp add: BSIZE_def)
  have room: "4 + 4 * (0 + length bs) \<le> length ?d" using l30 len by (simp add: BSIZE_def)
  note P = put_blocks_facts [OF room]
  show "length (encode_head bs d) = BSIZE" using P len by (simp add: encode_head_def)
  have "get32 (encode_head bs d) 0 = of_nat (length bs)"
    using P assms(2) by (simp add: encode_head_def BSIZE_def)
  moreover have "sint (of_nat (length bs) :: u32) = int (length bs)"
    using l30 by (simp add: signed_of_nat signed_take_bit_int_eq_self)
  ultimately show n: "head_n (encode_head bs d) = length bs" by (simp add: head_n_def)
  show "head_blocks (encode_head bs d) = bs"
  proof (rule nth_equalityI)
    fix i assume "i < length (head_blocks (encode_head bs d))"
    then have i: "i < length bs" by (simp add: head_blocks_def n)
    have "bs ! i < 2 ^ 32" using assms(3) i by simp
    then show "head_blocks (encode_head bs d) ! i = bs ! i"
      using P i n [unfolded encode_head_def] by (simp add: head_blocks_def encode_head_def unat_of_nat)
  qed (simp add: head_blocks_def n)
qed

section \<open>Copying blocks\<close>

lemma copy_tail:
  assumes "cache_ok dev s p" and "holds_buf dev s p lb src" and "holds_buf dev s p db dst" and "src \<noteq> dst"
    and "A = abs_blocks dev s" and "v = b_view A src" and "unpin \<Longrightarrow> 2 \<le> b_refs A dst"
    and "b_refs A src = 1 \<Longrightarrow> b_view A src = b_disk A src"
  obtains t where "bindK (getB lb bdata) (\<lambda>d. thenK (modB db (\<lambda>q. q\<lparr>bdata := d\<rparr>)) (thenK (bwrite db)
      (thenK (whenK unpin (bunpin db)) (thenK (brelse lb) (brelse db))))) s = Ret () t"
    "cache_ok dev t p" "bc_frame s t"
    "abs_blocks dev t = A\<lparr>b_view := (b_view A)(dst := v), b_disk := (b_disk A)(dst := v),
       b_trace := b_trace A @ [(dst, v)],
       b_refs := (b_refs A)(src := b_refs A src - 1, dst := b_refs A dst - (if unpin then 2 else 1)),
       b_owner := (b_owner A)(src := None, dst := None)\<rparr>"
proof -
  note C = cache_okD [OF assms(1)]
  note Hs = holds_bufD [OF C(1) assms(2)]
  have v: "v = bdata (bufs (bcache s) ! lb)" using Hs(5) assms(5,6) by simp
  have vl: "length v = BSIZE" using bc_inv_facts(3) [OF C(1) Hs(1)] Hs(3,9) v by (simp add: buf_ok_def)
  define A2 where "A2 = A\<lparr>b_view := (b_view A)(dst := v), b_disk := (b_disk A)(dst := v), b_trace := b_trace A @ [(dst, v)]\<rparr>"
  obtain s2 where s2: "thenK (modB db (\<lambda>q. q\<lparr>bdata := v\<rparr>)) (bwrite db) s = Ret () s2" "cache_ok dev s2 p" "bc_frame s s2"
    "abs_blocks dev s2 = A2" "holds_buf dev s2 p db dst" "holds_buf dev s2 p lb src"
    unfolding A2_def by (rule write_block [OF assms(1,3,5) vl]) (use assms(2,3) in \<open>blast intro: that\<close>)
  define A3 where "A3 = A2\<lparr>b_refs := (b_refs A2)(dst := b_refs A2 dst - (if unpin then 1 else 0))\<rparr>"
  have up: "unpin \<Longrightarrow> 2 \<le> b_refs A2 dst" using assms(7) by (simp add: A2_def)
  obtain s3 where s3: "whenK unpin (bunpin db) s2 = Ret () s3" "cache_ok dev s3 p" "bc_frame s2 s3"
    "abs_blocks dev s3 = A3" "holds_buf dev s3 p db dst" "holds_buf dev s3 p lb src"
    unfolding A3_def
    by (rule unpin_block [OF s2(2,5) s2(4) [symmetric] up]) (use s2(5,6) in \<open>blast intro: that\<close>)+
  define A4 where "A4 = A3\<lparr>b_refs := (b_refs A3)(src := b_refs A3 src - 1), b_owner := (b_owner A3)(src := None)\<rparr>"
  have cs: "b_refs A3 src = 1 \<Longrightarrow> b_view A3 src = b_disk A3 src"
    using assms(4,8) by (simp add: A3_def A2_def)
  obtain s4 where s4: "brelse lb s3 = Ret () s4" "cache_ok dev s4 p" "bc_frame s3 s4" "abs_blocks dev s4 = A4"
    "holds_buf dev s4 p db dst"
    unfolding A4_def
    by (rule release_block [OF s3(2,6) s3(4) [symmetric] cs]) (use s3(5) assms(4) in \<open>blast intro: that\<close>)+
  have cd: "b_refs A4 dst = 1 \<Longrightarrow> b_view A4 dst = b_disk A4 dst" by (simp add: A4_def A3_def A2_def)
  obtain t where t: "brelse db s4 = Ret () t" "cache_ok dev t p" "bc_frame s4 t"
    "abs_blocks dev t = A4\<lparr>b_refs := (b_refs A4)(dst := b_refs A4 dst - 1), b_owner := (b_owner A4)(dst := None)\<rparr>"
    by (rule release_block [OF s4(2,5) s4(4) [symmetric] cd]) (blast intro: that)+
  have "bindK (getB lb bdata) (\<lambda>d. thenK (modB db (\<lambda>q. q\<lparr>bdata := d\<rparr>)) (thenK (bwrite db)
      (thenK (whenK unpin (bunpin db)) (thenK (brelse lb) (brelse db))))) s = Ret () t"
    using s2(1) s3(1) s4(1) t(1) by (simp add: v [symmetric] thenK_assoc [symmetric] del: whenK_apply modB_apply)
  moreover have "abs_blocks dev t = A\<lparr>b_view := (b_view A)(dst := v), b_disk := (b_disk A)(dst := v),
       b_trace := b_trace A @ [(dst, v)],
       b_refs := (b_refs A)(src := b_refs A src - 1, dst := b_refs A dst - (if unpin then 2 else 1)),
       b_owner := (b_owner A)(src := None, dst := None)\<rparr>"
    unfolding t(4) by (rule blocks.equality) (use assms(4) in \<open>auto simp: A4_def A3_def A2_def fun_eq_iff\<close>)
  moreover have "bc_frame s t" by (rule bc_frame_trans [OF s2(3) bc_frame_trans [OF s3(3) bc_frame_trans [OF s4(3) t(3)]]])
  ultimately show ?thesis using that t(2) by blast
qed

end
