(* ===== verification/Fs.thy ===== *)
theory Fs
  imports Log
begin

text \<open>
  \<^verbatim>\<open>kernel/fs.c\<close>: blocks, inodes, file contents, directories and path names. A \<^verbatim>\<open>struct inode *\<close> is the
  index of the entry in \<^verbatim>\<open>itable\<close>. Block contents are lists of \<^verbatim>\<open>BSIZE\<close> bytes; the disk structures in
  them (super block, \<^verbatim>\<open>struct dinode\<close>, indirect blocks, \<^verbatim>\<open>struct dirent\<close>) are read and written at
  their byte offsets.
\<close>

section \<open>Disk structures\<close>

definition ROOTINO :: nat where "ROOTINO = 1"
definition FSMAGIC :: nat where "FSMAGIC = 0x10203040"
definition NINDIRECT :: nat where "NINDIRECT = BSIZE div 4"
definition MAXFILE :: nat where "MAXFILE = NDIRECT + NINDIRECT"
definition DINODE_SIZE :: nat where "DINODE_SIZE = 64"
definition IPB :: nat where "IPB = BSIZE div DINODE_SIZE"
definition BPB :: nat where "BPB = BSIZE * 8"
definition DIRSIZ :: nat where "DIRSIZ = 14"
definition DIRENT_SIZE :: nat where "DIRENT_SIZE = 16"
definition T_DIR :: int where "T_DIR = 1"
definition T_FILE :: int where "T_FILE = 2"
definition T_DEVICE :: int where "T_DEVICE = 3"

definition IBLOCK :: "nat \<Rightarrow> superblock \<Rightarrow> nat" where
  "IBLOCK i b = i div IPB + sb_inodestart b"

definition BBLOCK :: "nat \<Rightarrow> superblock \<Rightarrow> nat" where
  "BBLOCK n b = n div BPB + sb_bmapstart b"

definition get16 :: "u8 list \<Rightarrow> nat \<Rightarrow> u16" where
  "get16 d off = le_word (take 2 (drop off d))"

definition put16 :: "u8 list \<Rightarrow> nat \<Rightarrow> u16 \<Rightarrow> u8 list" where
  "put16 d off v = take off d @ le_bytes 2 v @ drop (off + 2) d"

definition get_sb :: "u8 list \<Rightarrow> superblock" where
  "get_sb d = (let w = (\<lambda>k. unat (get32 d (4 * k))) in
     \<lparr>sb_magic = w 0, sb_size = w 1, sb_nblocks = w 2, sb_ninodes = w 3, sb_nlog = w 4,
      sb_logstart = w 5, sb_inodestart = w 6, sb_bmapstart = w 7\<rparr>)"

text \<open>\<^verbatim>\<open>struct dinode\<close> at byte offset \<open>o\<close> of a block.\<close>

definition dinode_load :: "u8 list \<Rightarrow> nat \<Rightarrow> inode \<Rightarrow> inode" where
  "dinode_load d pos ip =
     ip\<lparr>itype := sint (get16 d pos), imajor := sint (get16 d (pos + 2)),
        iminor := sint (get16 d (pos + 4)), inlink := sint (get16 d (pos + 6)),
        isize := unat (get32 d (pos + 8)),
        iaddrs := map (\<lambda>i. unat (get32 d (pos + 12 + 4 * i))) [0..<NDIRECT + 1]\<rparr>"

primrec put32s :: "u8 list \<Rightarrow> nat \<Rightarrow> nat list \<Rightarrow> u8 list" where
  "put32s d pos [] = d"
| "put32s d pos (x # xs) = put32s (put32 d pos (of_nat x)) (pos + 4) xs"

definition dinode_store :: "inode \<Rightarrow> nat \<Rightarrow> u8 list \<Rightarrow> u8 list" where
  "dinode_store ip pos d =
     (let d = put16 d pos (of_int (itype ip));
          d = put16 d (pos + 2) (of_int (imajor ip));
          d = put16 d (pos + 4) (of_int (iminor ip));
          d = put16 d (pos + 6) (of_int (inlink ip));
          d = put32 d (pos + 8) (of_nat (isize ip))
      in put32s d (pos + 12) (iaddrs ip))"

definition dinode_pos :: "nat \<Rightarrow> nat" where
  "dinode_pos i = DINODE_SIZE * (i mod IPB)"

section \<open>Blocks\<close>

definition readsb :: "nat \<Rightarrow> unit K" where
  "readsb dev =
     bindK (bread dev 1) (\<lambda>bp.
     bindK (getB bp bdata) (\<lambda>d.
     thenK (modK (\<lambda>s. s\<lparr>sb := get_sb d\<rparr>))
           (brelse bp)))"

definition fsinit :: "nat \<Rightarrow> unit K" where
  "fsinit dev =
     thenK (readsb dev)
    (bindK (getK sb) (\<lambda>b.
     thenK (panic_if (sb_magic b \<noteq> FSMAGIC) ''invalid file system'')
           (initlog dev b)))"

definition bzero :: "nat \<Rightarrow> nat \<Rightarrow> unit K" where
  "bzero dev bno =
     bindK (bread dev bno) (\<lambda>bp.
     thenK (modB bp (\<lambda>q. q\<lparr>bdata := replicate BSIZE 0\<rparr>))
    (thenK (log_write bp)
           (brelse bp)))"

definition block_bit :: "u8 list \<Rightarrow> nat \<Rightarrow> bool" where
  "block_bit d bi = bit (d ! (bi div 8)) (bi mod 8)"

definition set_block_bit :: "u8 list \<Rightarrow> nat \<Rightarrow> u8 list" where
  "set_block_bit d bi = d[bi div 8 := (d ! (bi div 8)) OR push_bit (bi mod 8) 1]"

definition clear_block_bit :: "u8 list \<Rightarrow> nat \<Rightarrow> u8 list" where
  "clear_block_bit d bi = d[bi div 8 := (d ! (bi div 8)) AND NOT (push_bit (bi mod 8) 1)]"

definition balloc :: "nat \<Rightarrow> nat K" where
  "balloc dev =
     bindK (getK sb) (\<lambda>sbk.
     bindK (loopK (map (\<lambda>i. BPB * i) [0..<(sb_size sbk + BPB - 1) div BPB]) (\<lambda>b.
       bindK (bread dev (BBLOCK b sbk)) (\<lambda>bp.
       bindK (getB bp bdata) (\<lambda>d.
       case find (\<lambda>bi. b + bi < sb_size sbk \<and> \<not> block_bit d bi) [0..<BPB] of
         Some bi \<Rightarrow>
           thenK (modB bp (\<lambda>q. q\<lparr>bdata := set_block_bit (bdata q) bi\<rparr>))
          (thenK (log_write bp)
          (thenK (brelse bp)
          (thenK (bzero dev (b + bi))
                 (retK (Some (b + bi))))))
       | None \<Rightarrow> thenK (brelse bp) (retK None)))))
     (\<lambda>r. case r of Some n \<Rightarrow> retK n | None \<Rightarrow> panicK ''balloc: out of blocks''))"

definition bfree :: "nat \<Rightarrow> nat \<Rightarrow> unit K" where
  "bfree dev n =
     bindK (getK sb) (\<lambda>sbk.
     bindK (bread dev (BBLOCK n sbk)) (\<lambda>bp.
     bindK (getB bp bdata) (\<lambda>d.
     let bi = n mod BPB in
     thenK (panic_if (\<not> block_bit d bi) ''freeing free block'')
    (thenK (modB bp (\<lambda>q. q\<lparr>bdata := clear_block_bit (bdata q) bi\<rparr>))
    (thenK (log_write bp)
           (brelse bp))))))"

section \<open>Inodes\<close>

definition getI :: "nat \<Rightarrow> (inode \<Rightarrow> 'a) \<Rightarrow> 'a K" where
  "getI i f = getK (\<lambda>s. f (itable s ! i))"

definition modI :: "nat \<Rightarrow> (inode \<Rightarrow> inode) \<Rightarrow> unit K" where
  "modI i f = modK (\<lambda>s. s\<lparr>itable := (itable s)[i := f (itable s ! i)]\<rparr>)"

definition iinit :: "unit K" where
  "iinit = thenK (initlock L_itable) (forK [0..<NINODE] (\<lambda>i. initsleeplock (SL_inode i)))"

definition iget :: "nat \<Rightarrow> nat \<Rightarrow> nat K" where
  "iget dev inm =
     thenK (acquire L_itable)
    (bindK (getK (\<lambda>s. find (\<lambda>i. iref (itable s ! i) > 0 \<and> idev (itable s ! i) = dev \<and> inum (itable s ! i) = inm)
                        [0..<NINODE])) (\<lambda>hit.
     case hit of
       Some i \<Rightarrow>
         thenK (modI i (\<lambda>ip. ip\<lparr>iref := iref ip + 1\<rparr>))
        (thenK (release L_itable)
               (retK i))
     | None \<Rightarrow>
         bindK (getK (\<lambda>s. find (\<lambda>i. iref (itable s ! i) = 0) [0..<NINODE])) (\<lambda>empty.
         case empty of
           None \<Rightarrow> panicK ''iget: no inodes''
         | Some i \<Rightarrow>
             thenK (modI i (\<lambda>ip. ip\<lparr>idev := dev, inum := inm, iref := 1, ivalid := False\<rparr>))
            (thenK (release L_itable)
                   (retK i)))))"

definition ialloc :: "nat \<Rightarrow> int \<Rightarrow> nat K" where
  "ialloc dev ty =
     bindK (getK sb) (\<lambda>sbk.
     bindK (loopK [1..<sb_ninodes sbk] (\<lambda>inm.
       bindK (bread dev (IBLOCK inm sbk)) (\<lambda>bp.
       bindK (getB bp bdata) (\<lambda>d.
       if get16 d (dinode_pos inm) = 0
       then
         thenK (modB bp (\<lambda>q. q\<lparr>bdata :=
             put16 (take (dinode_pos inm) (bdata q) @ replicate DINODE_SIZE 0 @
                    drop (dinode_pos inm + DINODE_SIZE) (bdata q)) (dinode_pos inm) (of_int ty)\<rparr>))
        (thenK (log_write bp)
        (thenK (brelse bp)
        (bindK (iget dev inm) (\<lambda>i. retK (Some i)))))
       else thenK (brelse bp) (retK None)))))
     (\<lambda>r. case r of Some i \<Rightarrow> retK i | None \<Rightarrow> panicK ''ialloc: no inodes''))"

definition iupdate :: "nat \<Rightarrow> unit K" where
  "iupdate i =
     bindK (getK sb) (\<lambda>sbk.
     bindK (getI i (\<lambda>ip. ip)) (\<lambda>ip.
     bindK (bread (idev ip) (IBLOCK (inum ip) sbk)) (\<lambda>bp.
     thenK (modB bp (\<lambda>q. q\<lparr>bdata := dinode_store ip (dinode_pos (inum ip)) (bdata q)\<rparr>))
    (thenK (log_write bp)
           (brelse bp)))))"

definition idup :: "nat \<Rightarrow> nat K" where
  "idup i =
     thenK (acquire L_itable)
    (thenK (modI i (\<lambda>ip. ip\<lparr>iref := iref ip + 1\<rparr>))
    (thenK (release L_itable)
           (retK i)))"

definition ilock :: "nat option \<Rightarrow> unit K" where
  "ilock ipp =
     (case ipp of
        None \<Rightarrow> panicK ''ilock''
      | Some i \<Rightarrow>
          bindK (getI i iref) (\<lambda>r.
          thenK (panic_if (r < 1) ''ilock'')
         (thenK (acquiresleep (SL_inode i))
         (bindK (getI i (\<lambda>ip. ip)) (\<lambda>ip.
          whenK (\<not> ivalid ip)
            (bindK (getK sb) (\<lambda>sbk.
             bindK (bread (idev ip) (IBLOCK (inum ip) sbk)) (\<lambda>bp.
             bindK (getB bp bdata) (\<lambda>d.
             thenK (modI i (dinode_load d (dinode_pos (inum ip))))
            (thenK (brelse bp)
            (thenK (modI i (\<lambda>ip. ip\<lparr>ivalid := True\<rparr>))
            (bindK (getI i itype) (\<lambda>ty.
             panic_if (ty = 0) ''ilock: no type'')))))))))))))"

definition iunlock :: "nat option \<Rightarrow> unit K" where
  "iunlock ipp =
     (case ipp of
        None \<Rightarrow> panicK ''iunlock''
      | Some i \<Rightarrow>
          bindK (holdingsleep (SL_inode i)) (\<lambda>h.
          bindK (getI i iref) (\<lambda>r.
          thenK (panic_if (\<not> h \<or> r < 1) ''iunlock'')
                (releasesleep (SL_inode i)))))"

section \<open>Inode content\<close>

definition bmap :: "nat \<Rightarrow> nat \<Rightarrow> nat K" where
  "bmap i bn =
     bindK (getI i idev) (\<lambda>dev.
     if bn < NDIRECT
     then
       bindK (getI i (\<lambda>ip. iaddrs ip ! bn)) (\<lambda>addr.
       if addr = 0
       then bindK (balloc dev) (\<lambda>addr.
            thenK (modI i (\<lambda>ip. ip\<lparr>iaddrs := (iaddrs ip)[bn := addr]\<rparr>)) (retK addr))
       else retK addr)
     else if bn - NDIRECT < NINDIRECT
     then
       bindK (getI i (\<lambda>ip. iaddrs ip ! NDIRECT)) (\<lambda>addr.
       bindK (if addr = 0
              then bindK (balloc dev) (\<lambda>addr.
                   thenK (modI i (\<lambda>ip. ip\<lparr>iaddrs := (iaddrs ip)[NDIRECT := addr]\<rparr>)) (retK addr))
              else retK addr) (\<lambda>addr.
       bindK (bread dev addr) (\<lambda>bp.
       bindK (getB bp bdata) (\<lambda>d.
       let a = unat (get32 d (4 * (bn - NDIRECT))) in
       bindK (if a = 0
              then bindK (balloc dev) (\<lambda>a.
                   thenK (modB bp (\<lambda>q. q\<lparr>bdata := put32 (bdata q) (4 * (bn - NDIRECT)) (of_nat a)\<rparr>))
                  (thenK (log_write bp) (retK a)))
              else retK a) (\<lambda>a.
       thenK (brelse bp) (retK a))))))
     else panicK ''bmap: out of range'')"

definition itrunc :: "nat \<Rightarrow> unit K" where
  "itrunc i =
     bindK (getI i idev) (\<lambda>dev.
     thenK (forK [0..<NDIRECT] (\<lambda>k.
       bindK (getI i (\<lambda>ip. iaddrs ip ! k)) (\<lambda>a.
       whenK (a \<noteq> 0)
         (thenK (bfree dev a) (modI i (\<lambda>ip. ip\<lparr>iaddrs := (iaddrs ip)[k := 0]\<rparr>))))))
    (bindK (getI i (\<lambda>ip. iaddrs ip ! NDIRECT)) (\<lambda>ind.
     thenK (whenK (ind \<noteq> 0)
       (bindK (bread dev ind) (\<lambda>bp.
        thenK (forK [0..<NINDIRECT] (\<lambda>j.
          bindK (getB bp (\<lambda>q. unat (get32 (bdata q) (4 * j)))) (\<lambda>a.
          whenK (a \<noteq> 0) (bfree dev a))))
       (thenK (brelse bp)
       (thenK (bfree dev ind)
              (modI i (\<lambda>ip. ip\<lparr>iaddrs := (iaddrs ip)[NDIRECT := 0]\<rparr>)))))))
    (thenK (modI i (\<lambda>ip. ip\<lparr>isize := 0\<rparr>))
           (iupdate i)))))"

definition iput :: "nat \<Rightarrow> unit K" where
  "iput i =
     thenK (acquire L_itable)
    (bindK (getI i (\<lambda>ip. ip)) (\<lambda>ip.
     thenK (whenK (iref ip = 1 \<and> ivalid ip \<and> inlink ip = 0)
       (thenK (acquiresleep (SL_inode i))
       (thenK (release L_itable)
       (thenK (itrunc i)
       (thenK (modI i (\<lambda>ip. ip\<lparr>itype := 0\<rparr>))
       (thenK (iupdate i)
       (thenK (modI i (\<lambda>ip. ip\<lparr>ivalid := False\<rparr>))
       (thenK (releasesleep (SL_inode i))
              (acquire L_itable)))))))))
    (thenK (modI i (\<lambda>ip. ip\<lparr>iref := iref ip - 1\<rparr>))
           (release L_itable))))"

definition iunlockput :: "nat \<Rightarrow> unit K" where
  "iunlockput i = thenK (iunlock (Some i)) (iput i)"

text \<open>\<^verbatim>\<open>struct stat\<close> as it is copied out: the four bytes before the size are padding.\<close>

definition stati :: "nat \<Rightarrow> u8 list K" where
  "stati i =
     getI i (\<lambda>ip. le_bytes 4 (of_nat (idev ip) :: u32) @ le_bytes 4 (of_nat (inum ip) :: u32) @
       le_bytes 2 (of_int (itype ip) :: u16) @ le_bytes 2 (of_int (inlink ip) :: u16) @
       replicate 4 0 @ le_bytes 8 (of_nat (isize ip) :: u64))"

text \<open>
  Where \<^verbatim>\<open>readi\<close> stores and \<^verbatim>\<open>writei\<close> takes its bytes: a user address, a kernel address, or a local
  variable of the caller, whose bytes are passed as a list. \<open>readi\<close> returns the bytes it has copied
  along with its result.
\<close>

datatype dst = UDst u64 | KDst u64 | LDst
datatype src = USrc u64 | KSrc u64 | LSrc "u8 list"

fun dst_put :: "dst \<Rightarrow> u8 list \<Rightarrow> int K" where
  "dst_put (UDst a) bs = either_copyout True a bs"
| "dst_put (KDst a) bs = either_copyout False a bs"
| "dst_put LDst bs = retK 0"

fun dst_add :: "dst \<Rightarrow> nat \<Rightarrow> dst" where
  "dst_add (UDst a) m = UDst (a + of_nat m)"
| "dst_add (KDst a) m = KDst (a + of_nat m)"
| "dst_add LDst m = LDst"

fun src_get :: "src \<Rightarrow> nat \<Rightarrow> (int \<times> u8 list) K" where
  "src_get (USrc a) m = either_copyin True a m"
| "src_get (KSrc a) m = either_copyin False a m"
| "src_get (LSrc bs) m = retK (0, take m bs)"

fun src_add :: "src \<Rightarrow> nat \<Rightarrow> src" where
  "src_add (USrc a) m = USrc (a + of_nat m)"
| "src_add (KSrc a) m = KSrc (a + of_nat m)"
| "src_add (LSrc bs) m = LSrc (drop m bs)"

definition chunk :: "nat \<Rightarrow> nat \<Rightarrow> nat" where
  "chunk off left = min left (BSIZE - off mod BSIZE)"

lemma chunk_pos: "0 < left \<Longrightarrow> 0 < chunk off left"
  by (simp add: chunk_def BSIZE_def)

lemma chunk_le: "chunk off left \<le> left"
  by (simp add: chunk_def)

function (sequential) readi_loop :: "nat \<Rightarrow> dst \<Rightarrow> nat \<Rightarrow> nat \<Rightarrow> nat \<Rightarrow> (int \<times> u8 list) K" where
  "readi_loop i dst off n tot =
     (if tot < n
      then
        bindK (bmap i (off div BSIZE)) (\<lambda>addr.
        bindK (getI i idev) (\<lambda>dev.
        bindK (bread dev addr) (\<lambda>bp.
        bindK (getB bp bdata) (\<lambda>d.
        let m = chunk off (n - tot); bs = take m (drop (off mod BSIZE) d) in
        bindK (dst_put dst bs) (\<lambda>r.
        if r = -1 then thenK (brelse bp) (retK (-1, []))
        else thenK (brelse bp)
            (bindK (readi_loop i (dst_add dst m) (off + m) n (tot + m)) (\<lambda>(res, rest).
             retK (res, bs @ rest))))))))
      else retK (sint (of_nat tot :: u32), []))"
  by pat_completeness auto
termination
  by (relation "measure (\<lambda>(i, dst, off, n, tot). n - tot)")
    (auto intro!: diff_less_mono2 simp: chunk_pos)

declare readi_loop.simps [simp del]

definition readi :: "nat \<Rightarrow> dst \<Rightarrow> nat \<Rightarrow> nat \<Rightarrow> (int \<times> u8 list) K" where
  "readi i dst off n =
     bindK (getI i isize) (\<lambda>sz.
     if off > sz \<or> (off + n) mod 2 ^ 32 < off then retK (0, [])
     else readi_loop i dst off (if off + n > sz then sz - off else n) 0)"

function (sequential) writei_loop :: "nat \<Rightarrow> src \<Rightarrow> nat \<Rightarrow> nat \<Rightarrow> nat \<Rightarrow> (nat \<times> nat) K" where
  "writei_loop i src off n tot =
     (if tot < n
      then
        bindK (bmap i (off div BSIZE)) (\<lambda>addr.
        bindK (getI i idev) (\<lambda>dev.
        bindK (bread dev addr) (\<lambda>bp.
        let m = chunk off (n - tot) in
        bindK (src_get src m) (\<lambda>(r, bs).
        thenK (modB bp (\<lambda>q. q\<lparr>bdata := take (off mod BSIZE) (bdata q) @ bs @
                                        drop (off mod BSIZE + length bs) (bdata q)\<rparr>))
       (if r = -1 then thenK (brelse bp) (retK (tot, off))
        else thenK (log_write bp)
            (thenK (brelse bp)
                   (writei_loop i (src_add src m) (off + m) n (tot + m))))))))
      else retK (tot, off))"
  by pat_completeness auto
termination
  by (relation "measure (\<lambda>(i, src, off, n, tot). n - tot)")
    (auto intro!: diff_less_mono2 simp: chunk_pos)

declare writei_loop.simps [simp del]

definition writei :: "nat \<Rightarrow> src \<Rightarrow> nat \<Rightarrow> nat \<Rightarrow> int K" where
  "writei i src off n =
     bindK (getI i isize) (\<lambda>sz.
     if off > sz \<or> (off + n) mod 2 ^ 32 < off then retK (-1)
     else if off + n > MAXFILE * BSIZE then retK (-1)
     else
       bindK (writei_loop i src off n 0) (\<lambda>(tot, off).
       thenK (modI i (\<lambda>ip. if off > isize ip then ip\<lparr>isize := off\<rparr> else ip))
      (thenK (iupdate i)
             (retK (int tot)))))"

section \<open>Directories\<close>

definition namecmp :: "u8 list \<Rightarrow> u8 list \<Rightarrow> int" where
  "namecmp s t = strncmp s t DIRSIZ"

text \<open>A directory entry as read: its inode number and name.\<close>

definition de_inum :: "u8 list \<Rightarrow> nat" where
  "de_inum de = unat (get16 de 0)"

definition de_name :: "u8 list \<Rightarrow> u8 list" where
  "de_name de = take DIRSIZ (drop 2 de)"

definition dirent_offsets :: "nat \<Rightarrow> nat list" where
  "dirent_offsets size_b = map (\<lambda>k. DIRENT_SIZE * k) [0..<(size_b + DIRENT_SIZE - 1) div DIRENT_SIZE]"

definition dirlookup :: "nat \<Rightarrow> u8 list \<Rightarrow> (nat \<times> nat) option K" where
  "dirlookup dp name =
     bindK (getI dp (\<lambda>ip. ip)) (\<lambda>ip.
     thenK (panic_if (itype ip \<noteq> T_DIR) ''dirlookup not DIR'')
    (loopK (dirent_offsets (isize ip)) (\<lambda>off.
       bindK (readi dp LDst off DIRENT_SIZE) (\<lambda>(r, de).
       thenK (panic_if (r \<noteq> int DIRENT_SIZE) ''dirlookup read'')
      (if de_inum de = 0 then retK None
       else if namecmp name (de_name de) = 0
       then bindK (iget (idev ip) (de_inum de)) (\<lambda>i. retK (Some (i, off)))
       else retK None)))))"

definition dirlink :: "nat \<Rightarrow> u8 list \<Rightarrow> nat \<Rightarrow> int K" where
  "dirlink dp name inm =
     bindK (dirlookup dp name) (\<lambda>found.
     case found of
       Some (i, off) \<Rightarrow> thenK (iput i) (retK (-1))
     | None \<Rightarrow>
         bindK (getI dp isize) (\<lambda>sz.
         bindK (loopK (dirent_offsets sz) (\<lambda>off.
           bindK (readi dp LDst off DIRENT_SIZE) (\<lambda>(r, de).
           thenK (panic_if (r \<noteq> int DIRENT_SIZE) ''dirlink read'')
                 (retK (if de_inum de = 0 then Some off else None))))) (\<lambda>free.
         let off = (case free of Some x \<Rightarrow> x
                    | None \<Rightarrow> DIRENT_SIZE * ((sz + DIRENT_SIZE - 1) div DIRENT_SIZE));
             de = le_bytes 2 (of_nat inm :: u16) @ strncpy_bytes name DIRSIZ in
         bindK (writei dp (LSrc de) off DIRENT_SIZE) (\<lambda>r.
         thenK (panic_if (r \<noteq> int DIRENT_SIZE) ''dirlink'')
               (retK 0)))))"

section \<open>Path names\<close>

text \<open>A path is the list of its bytes; reading past the end of the list is reading the NUL.\<close>

definition SLASH :: u8 where "SLASH = 47"

definition skip_slashes :: "u8 list \<Rightarrow> u8 list" where
  "skip_slashes path = dropWhile (\<lambda>c. c = SLASH) path"

definition elem_part :: "u8 list \<Rightarrow> u8 list" where
  "elem_part path = takeWhile (\<lambda>c. c \<noteq> SLASH \<and> c \<noteq> 0) path"

definition skipelem :: "u8 list \<Rightarrow> u8 list \<Rightarrow> (u8 list \<times> u8 list) option" where
  "skipelem path name =
     (let path = skip_slashes path in
      if ch path = 0 then None
      else let s = elem_part path; len = length s;
               name = (if len \<ge> DIRSIZ then take DIRSIZ s else s @ [0] @ drop (len + 1) name)
           in Some (skip_slashes (drop len path), name))"

lemma skipelem_shorter:
  assumes "skipelem path name = Some (path', name')"
  shows "length path' < length path"
proof -
  let ?p = "skip_slashes path"
  have c: "ch ?p \<noteq> 0" and e: "path' = skip_slashes (drop (length (elem_part ?p)) ?p)"
    using assms by (auto simp: skipelem_def Let_def split: if_splits)
  have ne: "?p \<noteq> []" using c by (auto simp: ch_def)
  have "hd ?p \<noteq> SLASH" using ne hd_dropWhile [of "\<lambda>c. c = SLASH" path] by (simp add: skip_slashes_def)
  then have "elem_part ?p \<noteq> []" using ne c by (cases ?p) (auto simp: elem_part_def ch_def)
  then have "length (drop (length (elem_part ?p)) ?p) < length ?p"
    using ne by (simp add: elem_part_def)
  moreover have "length (skip_slashes q) \<le> length q" for q
    by (simp add: skip_slashes_def length_dropWhile_le)
  ultimately show ?thesis unfolding e by (meson le_less_trans less_le_trans)
qed

function (sequential) namex_loop :: "nat \<Rightarrow> u8 list \<Rightarrow> bool \<Rightarrow> u8 list \<Rightarrow> (nat option \<times> u8 list) K" where
  "namex_loop i path nameiparent name =
     (case skipelem path name of
        None \<Rightarrow> (if nameiparent then thenK (iput i) (retK (None, name)) else retK (Some i, name))
      | Some (path', name') \<Rightarrow>
          thenK (ilock (Some i))
         (bindK (getI i itype) (\<lambda>ty.
          if ty \<noteq> T_DIR then thenK (iunlockput i) (retK (None, name'))
          else if nameiparent \<and> ch path' = 0 then thenK (iunlock (Some i)) (retK (Some i, name'))
          else
            bindK (dirlookup i name') (\<lambda>found.
            case found of
              None \<Rightarrow> thenK (iunlockput i) (retK (None, name'))
            | Some (nxt, off) \<Rightarrow> thenK (iunlockput i) (namex_loop nxt path' nameiparent name')))))"
  by pat_completeness auto
termination
  by (relation "measure (\<lambda>(i, path, np, name). length path)") (auto simp: skipelem_shorter)

declare namex_loop.simps [simp del]

definition namex :: "u8 list \<Rightarrow> bool \<Rightarrow> u8 list \<Rightarrow> (nat option \<times> u8 list) K" where
  "namex path nameiparent name =
     bindK (if ch path = SLASH then iget ROOTDEV ROOTINO
            else bindK myproc (\<lambda>p. bindK (getP p cwd) (\<lambda>c.
                 case c of None \<Rightarrow> wildK | Some i \<Rightarrow> idup i))) (\<lambda>i.
     namex_loop i path nameiparent name)"

definition namei :: "u8 list \<Rightarrow> nat option K" where
  "namei path = bindK (namex path False (replicate DIRSIZ 0)) (\<lambda>(ip, name). retK ip)"

definition nameiparent :: "u8 list \<Rightarrow> (nat option \<times> u8 list) K" where
  "nameiparent path = namex path True (replicate DIRSIZ 0)"

section \<open>Names of swap files\<close>

definition digit10 :: "nat \<Rightarrow> u8" where
  "digit10 k = of_nat (48 + k)"

text \<open>The loop that counts the digits, and the one that stores them from the last to the first.\<close>

function itoa_len :: "nat \<Rightarrow> nat" where
  "itoa_len i = (if i div 10 \<noteq> 0 then Suc (itoa_len (i div 10)) else 1)"
  by pat_completeness auto
termination
  by (relation "measure id") auto

declare itoa_len.simps [simp del]

function itoa_fill :: "nat \<Rightarrow> u8 list \<Rightarrow> u8 list" where
  "itoa_fill i acc =
     (if i div 10 \<noteq> 0 then itoa_fill (i div 10) (digit10 (i mod 10) # acc)
      else digit10 (i mod 10) # acc)"
  by pat_completeness auto
termination
  by (relation "measure fst") auto

declare itoa_fill.simps [simp del]

definition itoa :: "int \<Rightarrow> u8 list" where
  "itoa i = (if i < 0 then [45] else []) @ itoa_fill (nat \<bar>i\<bar>) []"

definition DIGITS :: nat where "DIGITS = 14"

end
