(* ===== verification/Ring.thy ===== *)
theory Ring
  imports XV6_Prelude
begin

text \<open>
  Ring buffers with free-running counters, as \<^verbatim>\<open>pipe.c\<close>, \<^verbatim>\<open>console.c\<close> and \<^verbatim>\<open>uart.c\<close> have them: a byte is
  stored at the write counter modulo the size, the number of bytes is the difference of the
  counters, and both wrap around. The contract that the three buffers share is the locale
  \<open>bounded_queue\<close>; the theories of the three components interpret it on their operations.
\<close>

section \<open>The contents of a ring\<close>

definition ring_items :: "'a list \<Rightarrow> 'w::len word \<Rightarrow> 'w word \<Rightarrow> 'a list" where
  "ring_items d r w = map (\<lambda>k. d ! (unat (r + of_nat k) mod length d)) [0..<unat (w - r)]"

lemma length_ring_items [simp]: "length (ring_items d r w) = unat (w - r)"
  by (simp add: ring_items_def)

lemma unat_add_mod:
  assumes "N dvd 2 ^ LENGTH('w::len)"
  shows "unat (x + of_nat j :: 'w word) mod N = (unat x + j) mod N"
proof -
  have "unat (x + of_nat j :: 'w word) = (unat x + j) mod 2 ^ LENGTH('w)"
    by (simp add: unat_word_ariths unat_of_nat mod_simps)
  then show ?thesis using assms by (simp add: mod_mod_cancel)
qed

lemma ring_counter:
  fixes r w :: "'w::len word"
  assumes "unat (w - r) < N" and "N < 2 ^ LENGTH('w)"
  shows "unat (w + 1 - r) = unat (w - r) + 1"
proof -
  have e: "w + 1 - r = w - r + 1" by simp
  show ?thesis unfolding e using assms by (simp add: unat_word_ariths)
qed

lemma ring_put:
  fixes r w :: "'w::len word"
  assumes "unat (w - r) < length d" and "length d < 2 ^ LENGTH('w)" and "length d dvd 2 ^ LENGTH('w)"
  shows "ring_items (d[unat w mod length d := c]) r (w + 1) = ring_items d r w @ [c]"
proof (rule nth_equalityI)
  let ?n = "unat (w - r)" and ?N = "length d"
  show "length (ring_items (d[unat w mod length d := c]) r (w + 1)) = length (ring_items d r w @ [c])"
    using ring_counter [OF assms(1,2)] by simp
  fix k assume "k < length (ring_items (d[unat w mod length d := c]) r (w + 1))"
  then have k: "k < Suc ?n" using ring_counter [OF assms(1,2)] by simp
  have N: "0 < ?N" using assms(1) by linarith
  have w: "w = r + of_nat ?n" by simp
  have idx: "unat (r + of_nat j) mod ?N = (unat r + j) mod ?N" for j
    by (rule unat_add_mod [OF assms(3)])
  have "(unat r + k) mod ?N = (unat r + ?n) mod ?N \<longleftrightarrow> k = ?n"
  proof
    assume "(unat r + k) mod ?N = (unat r + ?n) mod ?N"
    then have "?N dvd ?n - k" using k mod_eq_dvd_iff_nat [of "unat r + k" "unat r + ?n" ?N] by simp
    then show "k = ?n" using k assms(1) by (auto dest!: dvd_imp_le)
  qed simp
  then have "unat (r + of_nat k) mod ?N = unat w mod ?N \<longleftrightarrow> k = ?n"
    using idx [of ?n] idx [of k] unfolding w [symmetric] by simp
  then show "ring_items (d[unat w mod length d := c]) r (w + 1) ! k = (ring_items d r w @ [c]) ! k"
    using k N ring_counter [OF assms(1,2)]
    by (auto simp: ring_items_def nth_append nth_list_update)
qed

lemma ring_drop:
  fixes r w :: "'w::len word"
  assumes "w \<noteq> r"
  shows "ring_items d r w = d ! (unat r mod length d) # ring_items d (r + 1) w"
    "unat (w - (r + 1)) = unat (w - r) - 1"
proof -
  have "w - (r + 1) = w - r - 1" by simp
  moreover have "0 < unat (w - r)" using assms by (simp add: unat_gt_0)
  ultimately show n: "unat (w - (r + 1)) = unat (w - r) - 1"
    by (metis unat_minus_one unat_gt_0 word_neq_0_conv)
  obtain m where m: "unat (w - r) = Suc m" using \<open>0 < unat (w - r)\<close> by (cases "unat (w - r)") auto
  then have m': "unat (w - (r + 1)) = m" using n by simp
  show "ring_items d r w = d ! (unat r mod length d) # ring_items d (r + 1) w"
    unfolding ring_items_def m m' upt_conv_Cons [OF zero_less_Suc] map_Suc_upt [symmetric]
    by (simp add: add.assoc comp_def)
qed

lemma ring_empty: "ring_items d r w = [] \<longleftrightarrow> w = r"
proof -
  have "ring_items d r w = [] \<longleftrightarrow> unat (w - r) = 0" by (metis length_0_conv length_ring_items)
  then show ?thesis by (simp add: unat_eq_0)
qed

text \<open>Removing the last byte of a ring.\<close>

lemma ring_last:
  fixes r w :: "'w::len word"
  assumes "w \<noteq> r"
  shows "ring_items d r (w - 1) = butlast (ring_items d r w)" "unat (w - 1 - r) = unat (w - r) - 1"
    "last (ring_items d r w) = d ! (unat (w - 1) mod length d)"
proof -
  have e: "w - 1 - r = w - r - 1" by simp
  have pos: "0 < unat (w - r)" using assms by (simp add: unat_gt_0)
  show n: "unat (w - 1 - r) = unat (w - r) - 1"
    unfolding e using pos by (metis unat_minus_one unat_gt_0)
  obtain m where m: "unat (w - r) = Suc m" using pos by (cases "unat (w - r)") auto
  have n': "unat (w - 1 - r) = m" using n m by simp
  show "ring_items d r (w - 1) = butlast (ring_items d r w)"
    unfolding ring_items_def m n' by (simp add: butlast_append)
  have "r + of_nat (unat (w - 1 - r)) = w - 1" by simp
  then have "r + of_nat m = w - 1" unfolding n' .
  then show "last (ring_items d r w) = d ! (unat (w - 1) mod length d)"
    unfolding ring_items_def m by simp
qed

lemma ring_append:
  fixes r w e :: "'w::len word"
  assumes "unat (e - r) = unat (w - r) + unat (e - w)"
  shows "ring_items d r e = ring_items d r w @ ring_items d w e"
proof (rule nth_equalityI)
  let ?n = "unat (w - r)"
  show "length (ring_items d r e) = length (ring_items d r w @ ring_items d w e)" using assms by simp
  fix k assume "k < length (ring_items d r e)"
  then have k: "k < ?n + unat (e - w)" using assms by simp
  have "r + of_nat k = w + of_nat (k - ?n)" if "\<not> k < ?n"
  proof -
    have "of_nat k = (of_nat ?n + of_nat (k - ?n) :: 'w word)"
      using that by (metis le_add_diff_inverse not_less of_nat_add)
    then show ?thesis by simp
  qed
  then show "ring_items d r e ! k = (ring_items d r w @ ring_items d w e) ! k"
    using k assms by (auto simp: ring_items_def nth_append add.commute)
qed

section \<open>Bounded queues\<close>

text \<open>The operations a client performs; a full queue takes no byte and an empty one yields none.\<close>

datatype 'a qop = Put 'a | Get

text \<open>Running a list of operations: the queue left, the bytes accepted and the bytes delivered.\<close>

fun queue_run :: "('a \<Rightarrow> 'q \<Rightarrow> 'q) \<Rightarrow> ('q \<Rightarrow> 'a) \<Rightarrow> ('q \<Rightarrow> 'q) \<Rightarrow> ('q \<Rightarrow> bool) \<Rightarrow> ('q \<Rightarrow> bool) \<Rightarrow>
  'a qop list \<Rightarrow> 'q \<Rightarrow> 'q \<times> 'a list \<times> 'a list" where
  "queue_run put front dr full is_emp [] q = (q, [], [])"
| "queue_run put front dr full is_emp (Put c # ops) q =
     (if full q then queue_run put front dr full is_emp ops q
      else case queue_run put front dr full is_emp ops (put c q) of (q', ins, outs) \<Rightarrow> (q', c # ins, outs))"
| "queue_run put front dr full is_emp (Get # ops) q =
     (if is_emp q then queue_run put front dr full is_emp ops q
      else case queue_run put front dr full is_emp ops (dr q) of (q', ins, outs) \<Rightarrow> (q', ins, front q # outs))"

locale bounded_queue =
  fixes inv :: "'q \<Rightarrow> bool" and items :: "'q \<Rightarrow> 'a list" and cap :: nat
    and put :: "'a \<Rightarrow> 'q \<Rightarrow> 'q" and front :: "'q \<Rightarrow> 'a" and drop_front :: "'q \<Rightarrow> 'q"
    and full :: "'q \<Rightarrow> bool" and is_emp :: "'q \<Rightarrow> bool"
  assumes items_le: "inv q \<Longrightarrow> length (items q) \<le> cap"
    and full_iff: "inv q \<Longrightarrow> full q \<longleftrightarrow> length (items q) = cap"
    and empty_iff: "inv q \<Longrightarrow> is_emp q \<longleftrightarrow> items q = []"
    and put_inv: "inv q \<Longrightarrow> \<not> full q \<Longrightarrow> inv (put c q)"
    and put_items: "inv q \<Longrightarrow> \<not> full q \<Longrightarrow> items (put c q) = items q @ [c]"
    and drop_inv: "inv q \<Longrightarrow> \<not> is_emp q \<Longrightarrow> inv (drop_front q)"
    and drop_items: "inv q \<Longrightarrow> \<not> is_emp q \<Longrightarrow> items q = front q # items (drop_front q)"
begin

abbreviation run :: "'a qop list \<Rightarrow> 'q \<Rightarrow> 'q \<times> 'a list \<times> 'a list" where
  "run \<equiv> queue_run put front drop_front full is_emp"

lemma run_fifo:
  assumes "inv q" and "run ops q = (q', ins, outs)"
  shows "inv q' \<and> items q @ ins = outs @ items q'"
  using assms
proof (induction ops arbitrary: q q' ins outs)
  case (Cons op ops)
  show ?case
  proof (cases op)
    case (Put c)
    show ?thesis
    proof (cases "full q")
      case False
      obtain q1 ins1 outs1 where r: "run ops (put c q) = (q1, ins1, outs1)" by (metis prod_cases3)
      then have "inv q1 \<and> items (put c q) @ ins1 = outs1 @ items q1"
        using Cons.IH [OF put_inv [OF Cons.prems(1) False] r] by blast
      then show ?thesis using Cons.prems Put False r put_items by auto
    qed (use Cons Put in auto)
  next
    case Get
    show ?thesis
    proof (cases "is_emp q")
      case False
      obtain q2 ins2 outs2 where r: "run ops (drop_front q) = (q2, ins2, outs2)" by (metis prod_cases3)
      then have "inv q2 \<and> items (drop_front q) @ ins2 = outs2 @ items q2"
        using Cons.IH [OF drop_inv [OF Cons.prems(1) False] r] by blast
      then show ?thesis using Cons.prems Get False r drop_items [OF Cons.prems(1) False] by auto
    qed (use Cons Get in auto)
  qed
qed simp

end

end
