(* ===== verification/Console.thy ===== *)
theory Console
  imports Sched Ring
begin

text \<open>
  The console: the UART driver \<^verbatim>\<open>kernel/uart.c\<close> and the line discipline \<^verbatim>\<open>kernel/console.c\<close>. The device
  side of the UART is in the state: \<open>tx_room\<close> is how often the status register will report that
  the transmitter is idle, \<open>rx_in\<close> holds the bytes received and not yet read.
\<close>

section \<open>The UART driver\<close>

definition getU :: "(uart \<Rightarrow> 'a) \<Rightarrow> 'a K" where
  "getU f = getK (\<lambda>s. f (uart s))"

definition modU :: "(uart \<Rightarrow> uart) \<Rightarrow> unit K" where
  "modU f = modK (\<lambda>s. s\<lparr>uart := f (uart s)\<rparr>)"

definition tx_put :: "u8 \<Rightarrow> uart \<Rightarrow> uart" where
  "tx_put c u = u\<lparr>tx_buf := (tx_buf u)[unat (tx_w u) mod UART_TX_BUF_SIZE := c], tx_w := tx_w u + 1\<rparr>"

definition tx_next :: "uart \<Rightarrow> u8" where
  "tx_next u = tx_buf u ! (unat (tx_r u) mod UART_TX_BUF_SIZE)"

definition tx_drop :: "uart \<Rightarrow> uart" where
  "tx_drop u = u\<lparr>tx_r := tx_r u + 1\<rparr>"

definition tx_full :: "uart \<Rightarrow> bool" where
  "tx_full u \<longleftrightarrow> tx_w u = tx_r u + of_nat UART_TX_BUF_SIZE"

definition tx_empty :: "uart \<Rightarrow> bool" where
  "tx_empty u \<longleftrightarrow> tx_w u = tx_r u"

text \<open>
  The loop of \<^verbatim>\<open>uartstart\<close>; its argument is the room left in the transmitter, which a byte written to
  its register takes up.
\<close>

primrec uartstart_loop :: "nat \<Rightarrow> unit K" where
  "uartstart_loop 0 = retK ()"
| "uartstart_loop (Suc n) =
     bindK (getU (\<lambda>u. u)) (\<lambda>u.
     if tx_empty u then retK ()
     else
       thenK (modU tx_drop)
      (thenK (wakeup (Some Ch_uart))
      (thenK (modK (\<lambda>s. s\<lparr>uart := (uart s)\<lparr>tx_room := n\<rparr>, uart_out := uart_out s @ [tx_next u]\<rparr>))
             (uartstart_loop n))))"

definition uartstart :: "unit K" where
  "uartstart = bindK (getU tx_room) (\<lambda>n. uartstart_loop n)"

definition uartputc :: "u8 \<Rightarrow> unit K" where
  "uartputc c =
     thenK (acquire L_uart)
     (whileK (bindK (getU (\<lambda>u. u)) (\<lambda>u.
        if tx_full u then thenK (sleep Ch_uart L_uart) (retK None)
        else
          thenK (modU (tx_put c))
         (thenK uartstart
         (thenK (release L_uart)
                (retK (Some ())))))))"

definition uartgetc :: "int K" where
  "uartgetc =
     bindK (getU rx_in) (\<lambda>r.
     case r of [] \<Rightarrow> retK (-1) | c # cs \<Rightarrow> thenK (modU (\<lambda>u. u\<lparr>rx_in := cs\<rparr>)) (retK (uint c)))"

section \<open>The line discipline\<close>

definition getC :: "(cons \<Rightarrow> 'a) \<Rightarrow> 'a K" where
  "getC f = getK (\<lambda>s. f (cons s))"

definition modC :: "(cons \<Rightarrow> cons) \<Rightarrow> unit K" where
  "modC f = modK (\<lambda>s. s\<lparr>cons := f (cons s)\<rparr>)"

definition in_slot :: "u32 \<Rightarrow> nat" where
  "in_slot i = unat i mod INPUT_BUF"

definition in_put :: "u8 \<Rightarrow> cons \<Rightarrow> cons" where
  "in_put c q = q\<lparr>cbuf := (cbuf q)[in_slot (cons_e q) := c], cons_e := cons_e q + 1\<rparr>"

definition consolewrite :: "bool \<Rightarrow> u64 \<Rightarrow> int \<Rightarrow> int K" where
  "consolewrite user_src src n =
     bindK (loopK [0..<nat n] (\<lambda>i.
       bindK (either_copyin user_src (src + of_nat i) 1) (\<lambda>(r, bs).
       if r = -1 then retK (Some i)
       else thenK (uartputc (hd bs)) (retK None))))
     (\<lambda>r. retK (case r of Some i \<Rightarrow> int i | None \<Rightarrow> int (nat n)))"

definition consoleread_wait :: "bool K" where
  "consoleread_wait =
     whileK (bindK (getC (\<lambda>c. c)) (\<lambda>c.
       if cons_r c = cons_w c
       then
         bindK myproc (\<lambda>p. bindK (getP p killed) (\<lambda>k.
         if k then thenK (release L_cons) (retK (Some False))
         else thenK (sleep Ch_cons L_cons) (retK None)))
       else retK (Some True)))"

text \<open>The loop of \<^verbatim>\<open>consoleread\<close> by the number of bytes that are still wanted.\<close>

primrec consoleread_loop :: "bool \<Rightarrow> u64 \<Rightarrow> nat \<Rightarrow> nat \<Rightarrow> int K" where
  "consoleread_loop user_dst dst target 0 = thenK (release L_cons) (retK (int target))"
| "consoleread_loop user_dst dst target (Suc n) =
     bindK consoleread_wait (\<lambda>ok.
     if \<not> ok then retK (-1)
     else
       bindK (getC (\<lambda>c. cbuf c ! in_slot (cons_r c))) (\<lambda>c.
       thenK (modC (\<lambda>q. q\<lparr>cons_r := cons_r q + 1\<rparr>))
      (if c = 4
       then thenK (whenK (Suc n < target) (modC (\<lambda>q. q\<lparr>cons_r := cons_r q - 1\<rparr>)))
           (thenK (release L_cons) (retK (int (target - Suc n))))
       else
         bindK (either_copyout user_dst dst [c]) (\<lambda>r.
         if r = -1 then thenK (release L_cons) (retK (int (target - Suc n)))
         else if c = 10 then thenK (release L_cons) (retK (int (target - n)))
         else consoleread_loop user_dst (dst + 1) target n))))"

definition consoleread :: "bool \<Rightarrow> u64 \<Rightarrow> int \<Rightarrow> int K" where
  "consoleread user_dst dst n =
     thenK (acquire L_cons) (consoleread_loop user_dst dst (nat n) (nat n))"

text \<open>Control-U: the loop by the number of characters in the line being edited.\<close>

primrec kill_line :: "nat \<Rightarrow> unit K" where
  "kill_line 0 = retK ()"
| "kill_line (Suc k) =
     bindK (getC (\<lambda>c. c)) (\<lambda>c.
     if cons_e c \<noteq> cons_w c \<and> cbuf c ! in_slot (cons_e c - 1) \<noteq> 10
     then thenK (modC (\<lambda>q. q\<lparr>cons_e := cons_e q - 1\<rparr>))
         (thenK (consputc BACKSPACE) (kill_line k))
     else retK ())"

text \<open>The branches of the \<^verbatim>\<open>switch\<close>: erasing a character, and an ordinary character.\<close>

definition con_erase :: "unit K" where
  "con_erase =
     bindK (getC (\<lambda>q. q)) (\<lambda>q.
     whenK (cons_e q \<noteq> cons_w q)
       (thenK (modC (\<lambda>q. q\<lparr>cons_e := cons_e q - 1\<rparr>)) (consputc BACKSPACE)))"

definition con_char :: "int \<Rightarrow> unit K" where
  "con_char c0 =
     bindK (getC (\<lambda>q. q)) (\<lambda>q.
     whenK (c0 \<noteq> 0 \<and> unat (cons_e q - cons_r q) < INPUT_BUF)
       (let c = (if c0 = 13 then 10 else c0) in
        thenK (consputc c)
       (thenK (modC (in_put (of_int c)))
       (bindK (getC (\<lambda>q. q)) (\<lambda>q.
        whenK (c = 10 \<or> c = 4 \<or> cons_e q = cons_r q + of_nat INPUT_BUF)
          (thenK (modC (\<lambda>q. q\<lparr>cons_w := cons_e q\<rparr>))
                 (wakeup (Some Ch_cons))))))))"

definition consoleintr :: "int \<Rightarrow> unit K" where
  "consoleintr c =
     thenK (acquire L_cons)
    (thenK
       (if c = 16 then procdump
        else if c = 21 then bindK (getC (\<lambda>q. unat (cons_e q - cons_w q))) kill_line
        else if c = 8 \<or> c = 0x7f then con_erase
        else con_char c)
       (release L_cons))"

text \<open>\<^verbatim>\<open>uartintr\<close> reads until nothing is waiting; then it sends what is buffered.\<close>

primrec uartintr_loop :: "nat \<Rightarrow> unit K" where
  "uartintr_loop 0 = retK ()"
| "uartintr_loop (Suc k) =
     bindK uartgetc (\<lambda>c. if c = -1 then retK () else thenK (consoleintr c) (uartintr_loop k))"

definition uartintr :: "unit K" where
  "uartintr =
     bindK (getU (\<lambda>u. length (rx_in u))) (\<lambda>k.
     thenK (uartintr_loop k)
    (thenK (acquire L_uart)
    (thenK uartstart
           (release L_uart))))"

definition uartinit :: "unit K" where
  "uartinit = initlock L_uart"

definition consoleinit :: "unit K" where
  "consoleinit = thenK (initlock L_cons) uartinit"

section \<open>The transmit buffer as a queue\<close>

definition tx_inv :: "uart \<Rightarrow> bool" where
  "tx_inv u \<longleftrightarrow> length (tx_buf u) = UART_TX_BUF_SIZE \<and> unat (tx_w u - tx_r u) \<le> UART_TX_BUF_SIZE"

definition tx_items :: "uart \<Rightarrow> u8 list" where
  "tx_items u = ring_items (tx_buf u) (tx_r u) (tx_w u)"

interpretation tx_queue: bounded_queue tx_inv tx_items UART_TX_BUF_SIZE tx_put tx_next tx_drop
  tx_full tx_empty
proof
  fix u :: uart and c :: u8
  assume inv: "tx_inv u"
  then have len: "length (tx_buf u) = 32" and n: "unat (tx_w u - tx_r u) \<le> 32"
    by (simp_all add: tx_inv_def UART_TX_BUF_SIZE_def)
  show "length (tx_items u) \<le> UART_TX_BUF_SIZE" using inv by (simp add: tx_items_def tx_inv_def)
  have "tx_full u \<longleftrightarrow> tx_w u - tx_r u = of_nat UART_TX_BUF_SIZE"
    by (auto simp: tx_full_def algebra_simps)
  also have "\<dots> \<longleftrightarrow> unat (tx_w u - tx_r u) = 32"
    by (simp add: word_unat_eq_iff UART_TX_BUF_SIZE_def)
  finally have full: "tx_full u \<longleftrightarrow> unat (tx_w u - tx_r u) = 32" .
  then show "tx_full u \<longleftrightarrow> length (tx_items u) = UART_TX_BUF_SIZE"
    by (simp add: tx_items_def UART_TX_BUF_SIZE_def)
  show "tx_empty u \<longleftrightarrow> tx_items u = []"
    by (auto simp: tx_empty_def tx_items_def ring_empty)
  {
    assume "\<not> tx_full u"
    then have lt: "unat (tx_w u - tx_r u) < 32" using full n by simp
    have "unat (tx_w u + 1 - tx_r u) = unat (tx_w u - tx_r u) + 1"
      by (rule ring_counter [OF lt]) simp
    then show "tx_inv (tx_put c u)"
      using inv lt by (simp add: tx_inv_def tx_put_def UART_TX_BUF_SIZE_def)
    show "tx_items (tx_put c u) = tx_items u @ [c]"
      using ring_put [of "tx_w u" "tx_r u" "tx_buf u" c] lt len
      by (simp add: tx_items_def tx_put_def UART_TX_BUF_SIZE_def)
  }
  {
    assume "\<not> tx_empty u"
    then have ne: "tx_w u \<noteq> tx_r u" by (simp add: tx_empty_def)
    note d = ring_drop(1) [OF ne, of "tx_buf u"] ring_drop(2) [OF ne]
    show "tx_inv (tx_drop u)" using inv d(2) by (auto simp: tx_inv_def tx_drop_def)
    show "tx_items u = tx_next u # tx_items (tx_drop u)"
      using d(1) len by (simp add: tx_items_def tx_next_def tx_drop_def UART_TX_BUF_SIZE_def)
  }
qed

section \<open>Transmission\<close>

lemma getU_apply [simp]: "getU f s = Ret (f (uart s)) s"
  by (simp add: getU_def)

lemma modU_apply [simp]: "modU f s = Ret () (s\<lparr>uart := f (uart s)\<rparr>)"
  by (simp add: modU_def)

text \<open>\<^verbatim>\<open>uartstart\<close> sends the oldest bytes, as many as the transmitter takes.\<close>

lemma uartstart_loop_correct:
  assumes "can_wake s" and "tx_inv (uart s)" and "tx_room (uart s) = n"
    and "k = min n (length (tx_items (uart s)))"
  shows "\<exists>u. uartstart_loop n s = Ret () (s\<lparr>uart := u, uart_out := uart_out s @ take k (tx_items (uart s)),
      procs := if k = 0 then procs s else wake_all (cur s) (Some Ch_uart) (procs s)\<rparr>) \<and>
    tx_inv u \<and> tx_items u = drop k (tx_items (uart s)) \<and> tx_room u = n - k \<and> rx_in u = rx_in (uart s)"
  using assms
proof (induction n arbitrary: s k)
  case 0
  then show ?case by (intro exI [of _ "uart s"]) simp
next
  case (Suc n)
  let ?u = "uart s"
  note inv = Suc.prems(2)
  show ?case
  proof (cases "tx_empty ?u")
    case True
    then have "tx_items ?u = []" using tx_queue.empty_iff [OF inv] by simp
    then show ?thesis using True Suc.prems by (intro exI [of _ ?u]) simp
  next
    case False
    note it = tx_queue.drop_items [OF inv False] and inv' = tx_queue.drop_inv [OF inv False]
    let ?u1 = "(tx_drop ?u)\<lparr>tx_room := n\<rparr>"
    let ?s1 = "s\<lparr>uart := tx_drop ?u\<rparr>"
    let ?s2 = "s\<lparr>uart := ?u1, uart_out := uart_out s @ [tx_next ?u],
        procs := wake_all (cur s) (Some Ch_uart) (procs s)\<rparr>"
    have it1: "tx_items ?u1 = tx_items (tx_drop ?u)" "tx_inv ?u1" "rx_in ?u1 = rx_in ?u"
      using inv' by (simp_all add: tx_items_def tx_inv_def tx_drop_def)
    define j where "j = min n (length (tx_items (tx_drop ?u)))"
    have k: "k = Suc j" using Suc.prems(4) it by (simp add: j_def)
    have wk: "wakeup (Some Ch_uart) ?s1 = Ret () (?s1\<lparr>procs := wake_all (cur s) (Some Ch_uart) (procs s)\<rparr>)"
      using wakeup_can_wake [of ?s1] Suc.prems(1) by (simp add: can_wake_def)
    have step: "uartstart_loop (Suc n) s = uartstart_loop n ?s2"
      using False wk by simp (rule arg_cong [of _ _ "uartstart_loop n"], rule kstate.equality, simp_all)
    have "can_wake ?s2" using Suc.prems(1) by (simp add: can_wake_def)
    then obtain u where r: "uartstart_loop n ?s2 = Ret () (?s2\<lparr>uart := u,
        uart_out := uart_out ?s2 @ take j (tx_items (uart ?s2)),
        procs := if j = 0 then procs ?s2 else wake_all (cur ?s2) (Some Ch_uart) (procs ?s2)\<rparr>)"
      and u: "tx_inv u" "tx_items u = drop j (tx_items (uart ?s2))" "tx_room u = n - j"
        "rx_in u = rx_in (uart ?s2)"
      using Suc.IH [of ?s2 j] it1 by (auto simp: j_def)
    have e: "?s2\<lparr>uart := u, uart_out := uart_out ?s2 @ take j (tx_items (uart ?s2)),
        procs := if j = 0 then procs ?s2 else wake_all (cur ?s2) (Some Ch_uart) (procs ?s2)\<rparr> =
      s\<lparr>uart := u, uart_out := uart_out s @ take k (tx_items ?u),
        procs := if k = 0 then procs s else wake_all (cur s) (Some Ch_uart) (procs s)\<rparr>"
      by (rule kstate.equality) (simp_all add: k it it1)
    have run: "uartstart_loop (Suc n) s = Ret () (s\<lparr>uart := u, uart_out := uart_out s @ take k (tx_items ?u),
        procs := if k = 0 then procs s else wake_all (cur s) (Some Ch_uart) (procs s)\<rparr>)"
      unfolding step r e ..
    show ?thesis using u it it1 k by (intro exI [of _ u] conjI run) simp_all
  qed
qed

lemma uartstart_correct:
  assumes "can_wake s" and "tx_inv (uart s)" and "k = min (tx_room (uart s)) (length (tx_items (uart s)))"
  obtains u where "uartstart s = Ret () (s\<lparr>uart := u, uart_out := uart_out s @ take k (tx_items (uart s)),
      procs := if k = 0 then procs s else wake_all (cur s) (Some Ch_uart) (procs s)\<rparr>)"
    "tx_inv u" "tx_items u = drop k (tx_items (uart s))" "tx_room u = tx_room (uart s) - k"
    "rx_in u = rx_in (uart s)"
  using uartstart_loop_correct [OF assms(1,2) refl assms(3)] by (auto simp: uartstart_def)

text \<open>
  C23: A byte given to \<^verbatim>\<open>uartputc\<close> while the transmit buffer has room joins the end of the buffer, and
  the device gets the oldest bytes, as many as it takes: what was sent and what is buffered
  afterwards, together, are what was sent and buffered before followed by the new byte. Writers
  that wait for room are woken when a byte has left the buffer.
\<close>

theorem uartputc_sends_in_order:
  assumes "can_wake s" and "L_uart \<notin> held s" and "tx_inv (uart s)" and "\<not> tx_full (uart s)"
  shows "okK (uartputc c) s (\<lambda>_ t. uart_out t @ tx_items (uart t) = uart_out s @ tx_items (uart s) @ [c] \<and>
    tx_inv (uart t) \<and> held t = held s \<and>
    length (tx_items (uart t)) = length (tx_items (uart s)) + 1 - tx_room (uart s) \<and>
    (0 < tx_room (uart s) \<longrightarrow> procs t = wake_all (cur s) (Some Ch_uart) (procs s)))"
proof -
  let ?u = "tx_put c (uart s)"
  let ?s = "s\<lparr>held := insert L_uart (held s), uart := ?u\<rparr>"
  define k where "k = min (tx_room ?u) (length (tx_items ?u))"
  have inv: "tx_inv ?u" and it: "tx_items ?u = tx_items (uart s) @ [c]" and rm: "tx_room ?u = tx_room (uart s)"
    using tx_queue.put_inv [OF assms(3,4)] tx_queue.put_items [OF assms(3,4)] by (simp_all add: tx_put_def)
  have pre: "can_wake ?s" "tx_inv (uart ?s)" "k = min (tx_room (uart ?s)) (length (tx_items (uart ?s)))"
    using assms(1) inv by (simp_all add: can_wake_def k_def)
  obtain u where st0: "uartstart ?s = Ret () (?s\<lparr>uart := u, uart_out := uart_out ?s @ take k (tx_items (uart ?s)),
      procs := if k = 0 then procs ?s else wake_all (cur ?s) (Some Ch_uart) (procs ?s)\<rparr>)"
    and u: "tx_inv u" "tx_items u = drop k (tx_items (uart ?s))"
    by (rule uartstart_correct [OF pre]) (blast intro: that)
  have st: "uartstart ?s = Ret () (?s\<lparr>uart := u, uart_out := uart_out s @ take k (tx_items ?u),
      procs := if k = 0 then procs s else wake_all (cur s) (Some Ch_uart) (procs s)\<rparr>)"
    unfolding st0 by simp
  let ?t = "s\<lparr>uart := u, uart_out := uart_out s @ take k (tx_items ?u),
      procs := if k = 0 then procs s else wake_all (cur s) (Some Ch_uart) (procs s)\<rparr>"
  have e: "?s\<lparr>uart := u, uart_out := uart_out s @ take k (tx_items ?u),
      procs := if k = 0 then procs s else wake_all (cur s) (Some Ch_uart) (procs s),
      held := held s\<rparr> = ?t"
    by (rule kstate.equality) simp_all
  have ins: "insert L_uart (held s) - {L_uart} = held s" using assms(2) by simp
  have "uartputc c s = Ret () ?t"
    unfolding uartputc_def using assms(2,4) st e by (simp add: ins)
  then show ?thesis
  proof (rule okK_I, intro conjI impI)
    show "uart_out ?t @ tx_items (uart ?t) = uart_out s @ tx_items (uart s) @ [c]"
      using u(2) by (simp flip: it)
    show "length (tx_items (uart ?t)) = length (tx_items (uart s)) + 1 - tx_room (uart s)"
    proof -
      have "length (tx_items u) = length (tx_items ?u) - k" using u(2) by simp
      moreover have "length (tx_items ?u) = length (tx_items (uart s)) + 1" by (simp add: it)
      ultimately show ?thesis by (simp add: k_def rm min_def)
    qed
    show "procs ?t = wake_all (cur s) (Some Ch_uart) (procs s)" if "0 < tx_room (uart s)"
      using that by (auto simp: k_def rm it min_def)
  qed (simp_all add: u(1))
qed

section \<open>The line discipline\<close>

lemma getC_apply [simp]: "getC f s = Ret (f (cons s)) s"
  by (simp add: getC_def)

lemma modC_apply [simp]: "modC f s = Ret () (s\<lparr>cons := f (cons s)\<rparr>)"
  by (simp add: modC_def)

text \<open>
  The input buffer holds the bytes of complete lines, from \<open>cons_r\<close> to \<open>cons_w\<close>, which a reader may
  take, and the line being edited, from \<open>cons_w\<close> to \<open>cons_e\<close>, which has no end of line in it.
\<close>

definition cons_lines :: "cons \<Rightarrow> u8 list" where
  "cons_lines q = ring_items (cbuf q) (cons_r q) (cons_w q)"

definition cons_edit :: "cons \<Rightarrow> u8 list" where
  "cons_edit q = ring_items (cbuf q) (cons_w q) (cons_e q)"

definition cons_inv :: "cons \<Rightarrow> bool" where
  "cons_inv q \<longleftrightarrow> length (cbuf q) = INPUT_BUF \<and>
     unat (cons_w q - cons_r q) + unat (cons_e q - cons_w q) \<le> INPUT_BUF \<and> 10 \<notin> set (cons_edit q)"

lemma cons_total:
  assumes "unat (cons_w q - cons_r q) + unat (cons_e q - cons_w q) \<le> INPUT_BUF"
  shows "unat (cons_e q - cons_r q) = unat (cons_w q - cons_r q) + unat (cons_e q - cons_w q)"
proof -
  have e: "cons_e q - cons_r q = (cons_w q - cons_r q) + (cons_e q - cons_w q)" by simp
  show ?thesis unfolding e using assms by (subst unat_add_lem [THEN iffD1]) (simp_all add: INPUT_BUF_def)
qed

text \<open>What the console does with a character: a specification on the complete lines and the edited line.\<close>

definition line_char :: "int \<Rightarrow> u8 list \<times> u8 list \<Rightarrow> u8 list \<times> u8 list" where
  "line_char c = (\<lambda>(ls, ed).
     if c = 16 then (ls, ed)
     else if c = 21 then (ls, [])
     else if c = 8 \<or> c = 0x7f then (ls, butlast ed)
     else if c = 0 \<or> length ls + length ed \<ge> INPUT_BUF then (ls, ed)
     else
       let b = (if c = 13 then 10 else of_int c); ed' = ed @ [b] in
       if b = 10 \<or> b = 4 \<or> length ls + length ed' = INPUT_BUF then (ls @ ed', []) else (ls, ed'))"

lemma consputc_out:
  obtains out where "consputc c s = Ret () (s\<lparr>uart_out := out\<rparr>)"
  by (cases "c = BACKSPACE") (auto simp: consputc_def uartputc_sync_def)

lemma procdump_out: "L_pr \<notin> held s \<Longrightarrow> okK procdump s (\<lambda>_ t. only_out s t)"
proof -
  assume pr: "L_pr \<notin> held s"
  have "okK (forK [0..<NPROC] (\<lambda>i. bindK (getP i (\<lambda>q. q)) (\<lambda>q. whenK (pstate q \<noteq> UNUSED)
      (thenK (kprintf ''%d %s %s'' [VWord (of_int (pid q)), VStr (Some (str (state_name (pstate q)))),
         VStr (Some (takeWhile (\<lambda>c. c \<noteq> 0) (pname q)))]) (kprintf ''\<newline>'' []))))) t
    (\<lambda>_ u. only_out s u)" if "only_out s t" for t
    by (rule okK_for [where I = "\<lambda>_. only_out s"])
      (use that pr in \<open>auto simp: only_out_def\<close>)
  then show ?thesis using pr by (simp add: procdump_def)
qed

lemma kill_line_correct:
  assumes "cons_inv (cons s)" and "n = unat (cons_e (cons s) - cons_w (cons s))"
  shows "\<exists>out. kill_line n s = Ret () (s\<lparr>cons := (cons s)\<lparr>cons_e := cons_w (cons s)\<rparr>, uart_out := out\<rparr>)"
  using assms
proof (induction n arbitrary: s)
  case 0
  then have "cons_e (cons s) = cons_w (cons s)" by (simp add: unat_eq_0)
  then show ?case by (intro exI [of _ "uart_out s"]) (simp add: kstate.equality)
next
  case (Suc n)
  let ?q = "cons s"
  have ne: "cons_e ?q \<noteq> cons_w ?q" using Suc.prems(2) by auto
  note l = ring_last(1) [OF ne, of "cbuf ?q"] ring_last(2) [OF ne] ring_last(3) [OF ne, of "cbuf ?q"]
  have ed: "cons_edit ?q \<noteq> []" using ne by (simp add: cons_edit_def ring_empty)
  then have "last (cons_edit ?q) \<noteq> 10" using Suc.prems(1) by (metis cons_inv_def last_in_set)
  then have nl: "cbuf ?q ! in_slot (cons_e ?q - 1) \<noteq> 10"
    using l(3) Suc.prems(1) by (simp add: cons_edit_def cons_inv_def in_slot_def)
  let ?q1 = "?q\<lparr>cons_e := cons_e ?q - 1\<rparr>"
  have inv1: "cons_inv ?q1"
    using Suc.prems(1) l by (auto simp: cons_inv_def cons_edit_def dest: in_set_butlastD)
  obtain out where o: "consputc BACKSPACE (s\<lparr>cons := ?q1\<rparr>) = Ret () (s\<lparr>cons := ?q1, uart_out := out\<rparr>)"
    by (rule consputc_out)
  have "unat (cons_e ?q - cons_w ?q) = Suc n" using Suc.prems(2) by simp
  then have n: "n = unat (cons_e ?q1 - cons_w ?q1)" using l(2) by simp
  have "\<exists>out'. kill_line n (s\<lparr>cons := ?q1, uart_out := out\<rparr>) =
      Ret () (s\<lparr>cons := ?q1, uart_out := out\<rparr>\<lparr>cons := ?q1\<lparr>cons_e := cons_w ?q1\<rparr>, uart_out := out'\<rparr>)"
    using Suc.IH [of "s\<lparr>cons := ?q1, uart_out := out\<rparr>"] inv1 n by simp
  then show ?case using ne nl o by simp
qed

lemma cons_all:
  assumes "cons_inv q"
  shows "ring_items (cbuf q) (cons_r q) (cons_e q) = cons_lines q @ cons_edit q"
    "unat (cons_e q - cons_r q) = length (cons_lines q) + length (cons_edit q)"
proof -
  have t: "unat (cons_e q - cons_r q) = unat (cons_w q - cons_r q) + unat (cons_e q - cons_w q)"
    by (rule cons_total) (use assms in \<open>simp add: cons_inv_def\<close>)
  show "ring_items (cbuf q) (cons_r q) (cons_e q) = cons_lines q @ cons_edit q"
    unfolding cons_lines_def cons_edit_def by (rule ring_append [OF t])
  show "unat (cons_e q - cons_r q) = length (cons_lines q) + length (cons_edit q)"
    using t by (simp add: cons_lines_def cons_edit_def)
qed

lemma in_put_correct:
  assumes "cons_inv q" and "length (cons_lines q) + length (cons_edit q) < INPUT_BUF"
  shows "cons_lines (in_put b q) = cons_lines q" "cons_edit (in_put b q) = cons_edit q @ [b]"
    "unat (cons_e (in_put b q) - cons_r (in_put b q)) = length (cons_lines q) + length (cons_edit q) + 1"
    "cbuf (in_put b q) = (cbuf q)[in_slot (cons_e q) := b]"
proof -
  have len: "length (cbuf q) = 128" using assms(1) by (simp add: cons_inv_def INPUT_BUF_def)
  note all = cons_all [OF assms(1)]
  have lt: "unat (cons_e q - cons_r q) < 128" using all(2) assms(2) by (simp add: INPUT_BUF_def)
  have ltw: "unat (cons_e q - cons_w q) < 128" using assms(2) by (simp add: cons_edit_def INPUT_BUF_def)
  let ?d = "(cbuf q)[unat (cons_e q) mod 128 := b]"
  have P: "ring_items ?d (cons_r q) (cons_e q + 1) = ring_items (cbuf q) (cons_r q) (cons_e q) @ [b]"
    using ring_put [of "cons_e q" "cons_r q" "cbuf q" b] lt len by simp
  have E: "ring_items ?d (cons_w q) (cons_e q + 1) = cons_edit q @ [b]"
    using ring_put [of "cons_e q" "cons_w q" "cbuf q" b] ltw len by (simp add: cons_edit_def)
  have c: "unat (cons_e q + 1 - cons_r q) = unat (cons_e q - cons_r q) + 1"
    "unat (cons_e q + 1 - cons_w q) = unat (cons_e q - cons_w q) + 1"
    by (rule ring_counter [OF lt], simp) (rule ring_counter [OF ltw], simp)
  have "ring_items ?d (cons_r q) (cons_e q + 1) =
      ring_items ?d (cons_r q) (cons_w q) @ ring_items ?d (cons_w q) (cons_e q + 1)"
    by (rule ring_append) (use c all(2) in \<open>simp add: cons_lines_def cons_edit_def\<close>)
  then have "ring_items ?d (cons_r q) (cons_w q) = cons_lines q" using P E all(1) by simp
  then show "cons_lines (in_put b q) = cons_lines q" "cons_edit (in_put b q) = cons_edit q @ [b]"
    "unat (cons_e (in_put b q) - cons_r (in_put b q)) = length (cons_lines q) + length (cons_edit q) + 1"
    "cbuf (in_put b q) = (cbuf q)[in_slot (cons_e q) := b]"
    using E c(1) all(2)
    by (simp_all add: in_put_def cons_lines_def cons_edit_def in_slot_def INPUT_BUF_def)
qed

text \<open>Committing the edited line.\<close>

lemma commit_line:
  assumes "cbuf q = d" "length d = INPUT_BUF" and "q' = q\<lparr>cons_w := cons_e q\<rparr>"
    and "unat (cons_e q - cons_r q) = length (cons_lines q) + length (cons_edit q)"
    and "unat (cons_e q - cons_r q) \<le> INPUT_BUF"
  shows "cons_inv q'" "cons_lines q' = cons_lines q @ cons_edit q" "cons_edit q' = []"
proof -
  have "cons_lines q' = ring_items (cbuf q) (cons_r q) (cons_e q)" using assms(3) by (simp add: cons_lines_def)
  also have "\<dots> = cons_lines q @ cons_edit q"
    unfolding cons_lines_def cons_edit_def
    by (rule ring_append) (use assms(4) in \<open>simp add: cons_lines_def cons_edit_def\<close>)
  finally show "cons_lines q' = cons_lines q @ cons_edit q" .
  show e: "cons_edit q' = []" using assms(3) by (simp add: cons_edit_def ring_items_def)
  show "cons_inv q'" using e assms by (simp add: cons_inv_def)
qed

text \<open>What handling a character must achieve, between taking and releasing the console's lock.\<close>

definition char_post :: "int \<Rightarrow> kstate \<Rightarrow> kstate \<Rightarrow> bool" where
  "char_post c s t \<longleftrightarrow>
     (cons_lines (cons t), cons_edit (cons t)) = line_char c (cons_lines (cons s), cons_edit (cons s)) \<and>
     cons_inv (cons t) \<and> held t = held s \<and>
     (cons_lines (cons t) \<noteq> cons_lines (cons s) \<longrightarrow> procs t = wake_all (cur s) (Some Ch_cons) (procs s))"

lemma con_erase_correct:
  assumes "cons_inv (cons s)" and "c = 8 \<or> c = 0x7f"
  shows "okK con_erase s (\<lambda>_. char_post c s)"
proof (cases "cons_e (cons s) = cons_w (cons s)")
  case True
  then have "cons_edit (cons s) = []" by (simp add: cons_edit_def ring_empty)
  moreover have "con_erase s = Ret () s" using True by (simp add: con_erase_def)
  ultimately show ?thesis using assms by (auto simp: okK_def char_post_def line_char_def)
next
  case False
  let ?q = "(cons s)\<lparr>cons_e := cons_e (cons s) - 1\<rparr>"
  note l = ring_last(1) [OF False, of "cbuf (cons s)"] ring_last(2) [OF False]
  obtain out where o: "consputc BACKSPACE (s\<lparr>cons := ?q\<rparr>) = Ret () (s\<lparr>cons := ?q, uart_out := out\<rparr>)"
    by (rule consputc_out)
  have "cons_edit ?q = butlast (cons_edit (cons s))" "cons_lines ?q = cons_lines (cons s)"
    using l(1) by (simp_all add: cons_edit_def cons_lines_def)
  moreover have "cons_inv ?q"
    using assms(1) l by (auto simp: cons_inv_def cons_edit_def dest: in_set_butlastD)
  moreover have "con_erase s = Ret () (s\<lparr>cons := ?q, uart_out := out\<rparr>)"
    using False o by (simp add: con_erase_def)
  ultimately show ?thesis using assms(2) by (auto simp: okK_def char_post_def line_char_def)
qed

lemma con_kill_correct:
  assumes "cons_inv (cons s)"
  shows "okK (bindK (getC (\<lambda>q. unat (cons_e q - cons_w q))) kill_line) s (\<lambda>_. char_post 21 s)"
proof -
  obtain out where k: "kill_line (unat (cons_e (cons s) - cons_w (cons s))) s =
      Ret () (s\<lparr>cons := (cons s)\<lparr>cons_e := cons_w (cons s)\<rparr>, uart_out := out\<rparr>)"
    using kill_line_correct [OF assms refl] by blast
  have "cons_inv ((cons s)\<lparr>cons_e := cons_w (cons s)\<rparr>)"
    using assms by (auto simp: cons_inv_def cons_edit_def ring_items_def)
  then show ?thesis
    using k by (simp add: okK_def char_post_def line_char_def cons_lines_def cons_edit_def ring_empty)
qed

lemma con_char_correct:
  assumes "cons_inv (cons s)" and "can_wake s" and "0 \<le> c" "c < 256" and "c \<notin> {16, 21, 8, 0x7f}"
  shows "okK (con_char c) s (\<lambda>_. char_post c s)"
proof (cases "c \<noteq> 0 \<and> unat (cons_e (cons s) - cons_r (cons s)) < INPUT_BUF")
  case False
  then have "con_char c s = Ret () s" by (auto simp: con_char_def)
  then show ?thesis
    using False assms cons_all(2) [OF assms(1)] by (auto simp: okK_def char_post_def line_char_def)
next
  case True
  define d where "d = (if c = 13 then 10 else c)"
  define b where "b = (of_int d :: u8)"
  let ?q = "cons s" and ?q1 = "in_put b (cons s)"
  have bd: "b = 10 \<longleftrightarrow> d = 10" "b = 4 \<longleftrightarrow> d = 4" "b = (if c = 13 then 10 else of_int c)"
  proof -
    have u: "uint (of_int d :: u8) = d" using assms(3,4) by (simp add: d_def unsigned_of_int take_bit_int_eq_self)
    then have "b = 10 \<longleftrightarrow> uint b = uint (10 :: u8)" "b = 4 \<longleftrightarrow> uint b = uint (4 :: u8)"
      by (simp_all only: word_uint_eq_iff)
    then show "b = 10 \<longleftrightarrow> d = 10" "b = 4 \<longleftrightarrow> d = 4" using u by (simp_all add: b_def)
    show "b = (if c = 13 then 10 else of_int c)" by (simp add: b_def d_def)
  qed
  have lt: "length (cons_lines ?q) + length (cons_edit ?q) < INPUT_BUF"
    using True cons_all(2) [OF assms(1)] by simp
  note p = in_put_correct [OF assms(1) lt, of b]
  have len: "length (cbuf ?q1) = INPUT_BUF" using p(4) assms(1) by (simp add: cons_inv_def)
  have fullw: "cons_e ?q1 = cons_r ?q1 + of_nat INPUT_BUF \<longleftrightarrow>
      length (cons_lines ?q) + length (cons_edit ?q) + 1 = INPUT_BUF"
  proof -
    have "cons_e ?q1 = cons_r ?q1 + of_nat INPUT_BUF \<longleftrightarrow> cons_e ?q1 - cons_r ?q1 = of_nat INPUT_BUF"
      by (auto simp: algebra_simps)
    also have "\<dots> \<longleftrightarrow> unat (cons_e ?q1 - cons_r ?q1) = INPUT_BUF"
      by (simp add: word_unat_eq_iff INPUT_BUF_def)
    finally show ?thesis unfolding p(3) .
  qed
  obtain out where o: "consputc d s = Ret () (s\<lparr>uart_out := out\<rparr>)" by (rule consputc_out)
  let ?s1 = "s\<lparr>uart_out := out, cons := ?q1\<rparr>"
  let ?eol = "d = 10 \<or> d = 4 \<or> length (cons_lines ?q) + length (cons_edit ?q) + 1 = INPUT_BUF"
  have spec: "line_char c (cons_lines ?q, cons_edit ?q) =
      (if ?eol then (cons_lines ?q @ cons_edit ?q @ [b], []) else (cons_lines ?q, cons_edit ?q @ [b]))"
    using True assms(5) lt bd by (auto simp: line_char_def Let_def)
  have start: "con_char c s = whenK ?eol (thenK (modC (\<lambda>q. q\<lparr>cons_w := cons_e q\<rparr>)) (wakeup (Some Ch_cons))) ?s1"
    using True o by (simp add: con_char_def d_def [symmetric] b_def [symmetric] fullw)
  show ?thesis
  proof (cases ?eol)
    case e: True
    let ?q2 = "?q1\<lparr>cons_w := cons_e ?q1\<rparr>"
    have le: "unat (cons_e ?q1 - cons_r ?q1) \<le> INPUT_BUF" using p(3) lt by simp
    have len1: "unat (cons_e ?q1 - cons_r ?q1) = length (cons_lines ?q1) + length (cons_edit ?q1)"
      using p by simp
    note cm = commit_line [OF refl len refl len1 le]
    have "wakeup (Some Ch_cons) (s\<lparr>uart_out := out, cons := ?q2\<rparr>) =
        Ret () (s\<lparr>uart_out := out, cons := ?q2, procs := wake_all (cur s) (Some Ch_cons) (procs s)\<rparr>)"
      using wakeup_can_wake [of "s\<lparr>uart_out := out, cons := ?q2\<rparr>"] assms(2) by (simp add: can_wake_def)
    then have "con_char c s =
        Ret () (s\<lparr>uart_out := out, cons := ?q2, procs := wake_all (cur s) (Some Ch_cons) (procs s)\<rparr>)"
      unfolding start using e by simp
    then show ?thesis
      by (rule okK_I) (use cm p spec e in \<open>simp add: char_post_def\<close>)
  next
    case False
    then have "con_char c s = Ret () ?s1" unfolding start by simp
    moreover have "cons_inv ?q1"
    proof -
      have "unat (cons_w ?q1 - cons_r ?q1) = length (cons_lines ?q1)"
        "unat (cons_e ?q1 - cons_w ?q1) = length (cons_edit ?q1)"
        by (simp_all add: cons_lines_def cons_edit_def)
      moreover have "10 \<notin> set (cons_edit ?q1)"
        using p(2) False bd(1) assms(1) by (auto simp: cons_inv_def)
      ultimately show ?thesis using p(1,2) lt len by (simp add: cons_inv_def)
    qed
    ultimately show ?thesis
      by (intro okK_I) (use p spec False in \<open>auto simp: char_post_def\<close>)
  qed
qed

text \<open>
  C21: Each character from the keyboard edits the console's input as a terminal line: an ordinary
  character joins the edited line, a carriage return or newline or control-D (or a full buffer)
  turns the edited line into input that readers may take and wakes them, backspace removes the
  last character of the edited line and control-U all of it; nothing ever changes input that is
  complete, and a character that does not fit is dropped.
\<close>

theorem consoleintr_edits_line:
  assumes "cons_inv (cons s)" and "can_wake s" and "L_cons \<notin> held s" and "L_pr \<notin> held s"
    and "0 \<le> c" and "c < 256"
  shows "okK (consoleintr c) s (\<lambda>_ t.
    (cons_lines (cons t), cons_edit (cons t)) = line_char c (cons_lines (cons s), cons_edit (cons s)) \<and>
    cons_inv (cons t) \<and> held t = held s \<and>
    (cons_lines (cons t) \<noteq> cons_lines (cons s) \<longrightarrow> procs t = wake_all (cur s) (Some Ch_cons) (procs s)))"
proof -
  let ?s = "s\<lparr>held := insert L_cons (held s)\<rparr>"
  let ?body = "if c = 16 then procdump
        else if c = 21 then bindK (getC (\<lambda>q. unat (cons_e q - cons_w q))) kill_line
        else if c = 8 \<or> c = 0x7f then con_erase else con_char c"
  have cw: "can_wake ?s" using assms(2) by (simp add: can_wake_def)
  have dump: "okK procdump ?s (\<lambda>_. char_post 16 ?s)"
    using procdump_out [of ?s] assms(1,4)
    by (auto simp: char_post_def line_char_def only_out_def elim!: okK_mono)
  have "okK ?body ?s (\<lambda>_. char_post c ?s)"
  proof (cases "c \<in> {16, 21, 8, 0x7f}")
    case True
    then show ?thesis
      using dump con_kill_correct [of ?s] con_erase_correct [of ?s c] assms(1) by auto
  next
    case False
    then show ?thesis using con_char_correct [of ?s c] assms(1,5,6) cw by simp
  qed
  then obtain t where t: "?body ?s = Ret () t" "char_post c ?s t" by (auto simp: okK_def)
  have h: "held t = insert L_cons (held s)" using t(2) by (simp add: char_post_def)
  have "consoleintr c s = thenK ?body (release L_cons) ?s"
    unfolding consoleintr_def by (rule thenK_Ret) (use assms(3) in simp)
  also have "\<dots> = release L_cons t" by (rule thenK_Ret [of ?body ?s, OF t(1)])
  also have "\<dots> = Ret () (t\<lparr>held := held s\<rparr>)" using h assms(3) by simp
  finally have "consoleintr c s = Ret () (t\<lparr>held := held s\<rparr>)" .
  then show ?thesis using t(2) by (simp add: okK_def char_post_def)
qed


definition sample_cons :: kstate where
  "sample_cons = sample_run\<lparr>cons := \<lparr>cbuf = [0x68, 0x69] @ replicate 126 0, cons_r = 0, cons_w = 0, cons_e = 2\<rparr>\<rparr>"

lemma sample_cons_facts:
  "cons_lines (cons sample_cons) = []" "cons_edit (cons sample_cons) = [0x68, 0x69]"
  "cons_inv (cons sample_cons)" "can_wake sample_cons" "held sample_cons = {}"
  by (simp_all add: sample_cons_def cons_lines_def cons_edit_def cons_inv_def ring_items_def upt_rec
      INPUT_BUF_def can_wake_def)

theorem consoleintr_edits_line_witness:
  "okK (consoleintr 13) sample_cons (\<lambda>_ t. cons_lines (cons t) = [0x68, 0x69, 10] \<and> cons_edit (cons t) = [])"
  using consoleintr_edits_line [of sample_cons 13]
  by (auto simp: sample_cons_facts line_char_def INPUT_BUF_def elim!: okK_mono)

section \<open>Reading lines\<close>

text \<open>
  What a read of \<open>n\<close> bytes takes from the complete lines: up to and including a newline; control-D
  ends the input, and is left in place unless it is the first byte (\<open>None\<close>: there is not enough
  input yet). \<open>at_start\<close> says that no byte has been taken so far.
\<close>

fun line_take :: "nat \<Rightarrow> bool \<Rightarrow> u8 list \<Rightarrow> (u8 list \<times> u8 list) option" where
  "line_take 0 at_start cs = Some ([], cs)"
| "line_take (Suc n) at_start [] = None"
| "line_take (Suc n) at_start (c # cs) =
     (if c = 4 then Some ([], if at_start then cs else c # cs)
      else if c = 10 then Some ([c], cs)
      else map_option (\<lambda>(bs, rest). (c # bs, rest)) (line_take n False cs))"

lemma cons_take:
  assumes "cons_inv q" and "cons_lines q = c # cs" and "q' = q\<lparr>cons_r := cons_r q + 1\<rparr>"
  shows "cbuf q ! in_slot (cons_r q) = c" "cons_lines q' = cs" "cons_edit q' = cons_edit q" "cons_inv q'"
    "cons_r q \<noteq> cons_w q"
proof -
  show ne: "cons_r q \<noteq> cons_w q"
    using assms(2) ring_empty [of "cbuf q" "cons_r q" "cons_w q"] by (auto simp: cons_lines_def)
  then have ne': "cons_w q \<noteq> cons_r q" by simp
  note d = ring_drop(1) [OF ne', of "cbuf q"] ring_drop(2) [OF ne']
  show "cbuf q ! in_slot (cons_r q) = c" "cons_lines q' = cs"
    using d(1) assms by (simp_all add: cons_lines_def cons_inv_def in_slot_def)
  show e: "cons_edit q' = cons_edit q" using assms(3) by (simp add: cons_edit_def)
  show "cons_inv q'" using assms(1,3) d(2) e by (auto simp: cons_inv_def)
qed

lemma consoleread_wait_ready: "cons_r (cons s) \<noteq> cons_w (cons s) \<Longrightarrow> consoleread_wait s = Ret True s"
  unfolding consoleread_wait_def by (rule whileK_leave) simp

lemma either_copyout_user:
  assumes "cur s = Some p" and "pt = ppagetable (procs s ! p)"
  shows "either_copyout True a bs s = copyout pt a bs s"
  using assms by (simp add: either_copyout_def)

text \<open>The state of a process that reads the console: its lock is held, its address space in order.\<close>

definition at_console :: "kstate \<Rightarrow> nat \<Rightarrow> u64 \<Rightarrow> u64 list \<Rightarrow> bool" where
  "at_console s p pt fl \<longleftrightarrow> cur s = Some p \<and> pt = ppagetable (procs s ! p) \<and> uspace s pt fl \<and>
     cons_inv (cons s)"

lemma line_take_length: "line_take n b cs = Some (bs, rest) \<Longrightarrow> length bs \<le> n"
  by (induction n b cs arbitrary: bs rest rule: line_take.induct) (fastforce split: if_splits)+

lemma consoleread_loop_correct:
  assumes "at_console s p pt fl" and "held s = {L_cons}" and "left \<le> target" and "target < 2 ^ 31"
    and "line_take left (left = target) (cons_lines (cons s)) = Some (bs, rest)"
    and "None \<notin> set (ubytes (mem s) pt dst (length bs))"
  shows "\<exists>m out q. consoleread_loop True dst target left s =
      Ret (int (target - left + length bs)) (s\<lparr>held := {}, cons := q, mem := m, uart_out := out\<rparr>) \<and>
    cons_inv q \<and> cons_lines q = rest \<and> cons_edit q = cons_edit (cons s) \<and>
    (\<forall>vb. ubyte m pt vb = ustored (mem s) pt dst bs vb)"
  using assms
proof (induction left arbitrary: s dst bs)
  case 0
  then show ?case
    by (intro exI [of _ "mem s"] exI [of _ "uart_out s"] exI [of _ "cons s"])
      (auto simp: at_console_def ustored_def kstate.equality)
next
  case (Suc n)
  let ?q = "cons s"
  note at = Suc.prems(1) [unfolded at_console_def]
  obtain c cs where l: "cons_lines ?q = c # cs" using Suc.prems(5) by (cases "cons_lines ?q") auto
  have inv: "cons_inv ?q" using at by simp
  let ?q1 = "?q\<lparr>cons_r := cons_r ?q + 1\<rparr>" let ?s1 = "s\<lparr>cons := ?q1\<rparr>"
  note t = cons_take [OF inv l refl]
  have w: "consoleread_wait s = Ret True s" by (rule consoleread_wait_ready [OF t(5)])
  show ?case
  proof (cases "c = 4")
    case True
    let ?q2 = "if Suc n = target then ?q1 else ?q"
    have bs: "bs = []" "rest = cons_lines ?q2" using Suc.prems(5) l True t(2) by auto
    have "Suc n < target \<longleftrightarrow> Suc n \<noteq> target" using Suc.prems(3) by auto
    then have "consoleread_loop True dst target (Suc n) s =
        Ret (int (target - Suc n)) (s\<lparr>held := {}, cons := ?q2, mem := mem s, uart_out := uart_out s\<rparr>)"
      using w t(1) True Suc.prems(2) by (auto simp: kstate.equality)
    then show ?thesis
      using bs t inv
      by (intro exI [of _ "mem s"] exI [of _ "uart_out s"] exI [of _ ?q2])
        (auto simp: ustored_def simp del: consoleread_loop.simps)
  next
    case False
    obtain bs' where bs: "bs = c # bs'" using Suc.prems(5) l False by (auto split: if_splits)
    have split: "ubytes (mem s) pt dst (length bs) = ubytes (mem s) pt dst 1 @ ubytes (mem s) pt (dst + 1) (length bs')"
      using ubytes_add [of "mem s" pt dst 1 "length bs'"] bs by simp
    have us1: "uspace ?s1 pt fl" by (rule uspace_cong) (use at in auto)
    have nm: "None \<notin> set (ubytes (mem ?s1) pt dst (length [c]))"
      and len: "length [c] \<le> 2 ^ 64" and lp: "L_pr \<notin> held ?s1"
      using Suc.prems(2,6) split by simp_all
    obtain m out where cp: "copyout pt dst [c] ?s1 = Ret 0 (?s1\<lparr>mem := m, uart_out := out\<rparr>)"
      and us: "uspace (?s1\<lparr>mem := m\<rparr>) pt fl" and up: "\<And>vb. upage m pt vb = upage (mem ?s1) pt vb"
      and st: "\<And>vb. ubyte m pt vb = ustored (mem ?s1) pt dst [c] vb"
      by (rule copyout_uspace [OF us1 lp nm len]) (blast intro: that)
    let ?s2 = "?s1\<lparr>mem := m, uart_out := out\<rparr>"
    have ec: "either_copyout True dst [c] ?s1 = Ret 0 ?s2"
      using cp either_copyout_user [of ?s1 p pt] at by simp
    show ?thesis
    proof (cases "c = 10")
      case True
      then have r: "bs = [c]" "rest = cs" using Suc.prems(5) l by auto
      have "consoleread_loop True dst target (Suc n) s =
          Ret (int (target - n)) (s\<lparr>held := {}, cons := ?q1, mem := m, uart_out := out\<rparr>)"
        using w t(1) True Suc.prems(2) ec by (auto simp: kstate.equality)
      moreover have "target - n = target - Suc n + length bs" using r Suc.prems(3) by simp
      ultimately show ?thesis
        using r t st by (intro exI [of _ m] exI [of _ out] exI [of _ ?q1]) (simp del: consoleread_loop.simps)
    next
      case nl: False
      have lt: "line_take n (n = target) cs = Some (bs', rest)"
        using Suc.prems(3,5) l False nl bs by (auto split: if_splits)
      have at2: "at_console ?s2 p pt fl"
        using at t(4) uspace_cong [OF us, of ?s2] by (simp add: at_console_def)
      have map2: "None \<notin> set (ubytes (mem ?s2) pt (dst + 1) (length bs'))"
        using Suc.prems(6) ubytes_mapped_cong [of m pt "mem s"] up split by auto
      obtain m' out' q' where r: "consoleread_loop True (dst + 1) target n ?s2 =
          Ret (int (target - n + length bs')) (?s2\<lparr>held := {}, cons := q', mem := m', uart_out := out'\<rparr>)"
        and q': "cons_inv q'" "cons_lines q' = rest" "cons_edit q' = cons_edit (cons ?s2)"
        and st': "\<And>vb. ubyte m' pt vb = ustored (mem ?s2) pt (dst + 1) bs' vb"
        using Suc.IH [OF at2, of bs' "dst + 1"] Suc.prems(2-4) lt map2 t(2) by auto
      have e: "?s2\<lparr>held := {}, cons := q', mem := m', uart_out := out'\<rparr> =
          s\<lparr>held := {}, cons := q', mem := m', uart_out := out'\<rparr>"
        by (rule kstate.equality) simp_all
      have "consoleread_loop True dst target (Suc n) s = consoleread_loop True (dst + 1) target n ?s2"
        using w t(1) False nl ec by simp
      also have "\<dots> = Ret (int (target - Suc n + length bs)) (s\<lparr>held := {}, cons := q', mem := m', uart_out := out'\<rparr>)"
        unfolding r e using bs Suc.prems(3) by simp
      finally have run: "consoleread_loop True dst target (Suc n) s =
          Ret (int (target - Suc n + length bs)) (s\<lparr>held := {}, cons := q', mem := m', uart_out := out'\<rparr>)" .
      have "ustored m pt (dst + of_nat (length [c])) bs' vb = ustored (mem s) pt dst ([c] @ bs') vb" for vb
        by (rule ustored_append) (use st bs line_take_length [OF lt] Suc.prems(3,4) in auto)
      then have "\<forall>vb. ubyte m' pt vb = ustored (mem s) pt dst bs vb" using st' bs by simp
      then show ?thesis
        using q' t(3) by (intro exI [of _ m'] exI [of _ out'] exI [of _ q'] conjI run) simp_all
    qed
  qed
qed

text \<open>
  C22: \<^verbatim>\<open>consoleread\<close> of a user gives at most one line: when the complete input has the bytes for it, the
  call returns the number of bytes up to and including the newline (at most \<open>n\<close>), stores exactly
  these at the user's address and removes them from the input; control-D ends the input and is
  kept for the next call unless it came first, so that a call returns 0 for it.
\<close>

theorem consoleread_gives_a_line:
  assumes "at_console s p pt fl" and "held s = {}" and "0 \<le> n" and "n < 2 ^ 31"
    and "line_take (nat n) True (cons_lines (cons s)) = Some (bs, rest)"
    and "None \<notin> set (ubytes (mem s) pt dst (length bs))"
  shows "okK (consoleread True dst n) s (\<lambda>r t. r = int (length bs) \<and> cons_lines (cons t) = rest \<and>
    cons_edit (cons t) = cons_edit (cons s) \<and> cons_inv (cons t) \<and> held t = {} \<and>
    (\<forall>vb. ubyte (mem t) pt vb = ustored (mem s) pt dst bs vb))"
proof -
  let ?s = "s\<lparr>held := {L_cons}\<rparr>"
  have "uspace ?s pt fl" by (rule uspace_cong) (use assms(1) in \<open>auto simp: at_console_def\<close>)
  then have at: "at_console ?s p pt fl" using assms(1) by (simp add: at_console_def)
  have "\<exists>m out q. consoleread_loop True dst (nat n) (nat n) ?s =
      Ret (int (nat n - nat n + length bs)) (?s\<lparr>held := {}, cons := q, mem := m, uart_out := out\<rparr>) \<and>
    cons_inv q \<and> cons_lines q = rest \<and> cons_edit q = cons_edit (cons ?s) \<and>
    (\<forall>vb. ubyte m pt vb = ustored (mem ?s) pt dst bs vb)"
    by (rule consoleread_loop_correct [OF at]) (use assms in simp_all)
  then show ?thesis using assms(2) by (auto simp: consoleread_def okK_def)
qed

definition sample_lines :: kstate where
  "sample_lines = sample_run\<lparr>cons := \<lparr>cbuf = [0x68, 10, 0x69] @ replicate 125 0, cons_r = 0, cons_w = 3, cons_e = 3\<rparr>\<rparr>"

theorem consoleread_gives_a_line_witness:
  "okK (consoleread True 8 100) sample_lines (\<lambda>r t. r = 2 \<and> cons_lines (cons t) = [0x69] \<and>
     ubyte (mem t) sample_pt 8 = Some 0x68 \<and> ubyte (mem t) sample_pt 9 = Some 10)"
proof -
  have l: "cons_lines (cons sample_lines) = [0x68, 10, 0x69]"
    by (simp add: sample_lines_def cons_lines_def ring_items_def upt_rec)
  have "uspace sample_lines sample_pt sample_pages"
    by (rule uspace_cong [OF sample_run_uspace]) (simp_all add: sample_lines_def)
  then have at: "at_console sample_lines 0 sample_pt sample_pages"
    using l by (simp add: at_console_def sample_lines_def cons_inv_def INPUT_BUF_def cons_edit_def ring_items_def)
  have t: "line_take (nat 100) True (cons_lines (cons sample_lines)) = Some ([0x68, 10], [0x69])"
  proof -
    have n: "nat 100 = Suc (Suc 98)" by simp
    have "line_take (Suc (Suc m)) True [0x68, 10, 0x69] = Some ([0x68, 10], [0x69])" for m by simp
    then show ?thesis unfolding l n .
  qed
  have m: "None \<notin> set (ubytes (mem sample_lines) sample_pt 8 (length [0x68 :: u8, 10]))"
    using sample_mapped [of 8 "Suc (Suc 0)"] by (simp add: sample_lines_def)
  have h: "held sample_lines = {}" by (simp add: sample_lines_def)
  show ?thesis
    by (rule okK_mono [OF consoleread_gives_a_line [OF at h _ _ t m]]) (auto simp: ustored_def)
qed

theorem uartputc_sends_in_order_witness:
  "okK (uartputc 0x41) (sample_run\<lparr>uart := \<lparr>tx_buf = replicate 32 0, tx_w = 0, tx_r = 0, tx_room = 1, rx_in = []\<rparr>,
      uart_out := []\<rparr>) (\<lambda>_ t. uart_out t @ tx_items (uart t) = [0x41])"
  using uartputc_sends_in_order [of "sample_run\<lparr>uart := \<lparr>tx_buf = replicate 32 0, tx_w = 0, tx_r = 0,
      tx_room = 1, rx_in = []\<rparr>, uart_out := []\<rparr>" "0x41"]
  by (auto simp: can_wake_def tx_inv_def UART_TX_BUF_SIZE_def tx_full_def tx_items_def ring_items_def
      elim!: okK_mono)

end
