(* ===== verification/Pipe.thy ===== *)
theory Pipe
  imports Sched Ring
begin

text \<open>
  Pipes (\<^verbatim>\<open>kernel/pipe.c\<close>): a ring buffer of \<^verbatim>\<open>PIPESIZE\<close> bytes between a writer that waits while it is
  full and a reader that waits while it is empty. A pipe is named by the address of its page.
  \<^verbatim>\<open>pipealloc\<close> is in the theory File, since it allocates two files.
\<close>

section \<open>Operations\<close>

definition getPipe :: "u64 \<Rightarrow> (pipe \<Rightarrow> 'a) \<Rightarrow> 'a K" where
  "getPipe pi f = getK (\<lambda>s. f (pipes s pi))"

definition modPipe :: "u64 \<Rightarrow> (pipe \<Rightarrow> pipe) \<Rightarrow> unit K" where
  "modPipe pi f = modK (\<lambda>s. s\<lparr>pipes := (pipes s)(pi := f (pipes s pi))\<rparr>)"

definition pipeclose :: "u64 \<Rightarrow> bool \<Rightarrow> unit K" where
  "pipeclose pi is_writable =
     thenK (acquire (L_pipe pi))
    (thenK (if is_writable
            then thenK (modPipe pi (\<lambda>q. q\<lparr>writeopen := False\<rparr>)) (wakeup (Some (Ch_nread pi)))
            else thenK (modPipe pi (\<lambda>q. q\<lparr>readopen := False\<rparr>)) (wakeup (Some (Ch_nwrite pi))))
    (bindK (getPipe pi (\<lambda>q. \<not> readopen q \<and> \<not> writeopen q)) (\<lambda>dead.
     if dead then thenK (release (L_pipe pi)) (kfree pi)
     else release (L_pipe pi))))"

definition pipe_put :: "u8 \<Rightarrow> pipe \<Rightarrow> pipe" where
  "pipe_put c q = q\<lparr>pdata := (pdata q)[unat (nwrite q) mod PIPESIZE := c], nwrite := nwrite q + 1\<rparr>"

definition pipe_next :: "pipe \<Rightarrow> u8" where
  "pipe_next q = pdata q ! (unat (nread q) mod PIPESIZE)"

definition pipe_drop :: "pipe \<Rightarrow> pipe" where
  "pipe_drop q = q\<lparr>nread := nread q + 1\<rparr>"

definition pipe_full :: "pipe \<Rightarrow> bool" where
  "pipe_full q \<longleftrightarrow> nwrite q = nread q + of_nat PIPESIZE"

definition pipe_empty :: "pipe \<Rightarrow> bool" where
  "pipe_empty q \<longleftrightarrow> nread q = nwrite q"

text \<open>
  The loop of \<^verbatim>\<open>pipewrite\<close> by the number of bytes that are left. One turn stores a byte, after as many
  waits as the pipe is full; the result is the count to return, or \<open>None\<close> for the return in the loop.
\<close>

definition pipewrite_wait :: "u64 \<Rightarrow> nat \<Rightarrow> bool K" where
  "pipewrite_wait pi pr =
     whileK (bindK (getPipe pi (\<lambda>q. q)) (\<lambda>q. bindK (getP pr killed) (\<lambda>k.
       if \<not> readopen q \<or> k then thenK (release (L_pipe pi)) (retK (Some False))
       else if pipe_full q
       then thenK (wakeup (Some (Ch_nread pi)))
           (thenK (sleep (Ch_nwrite pi) (L_pipe pi)) (retK None))
       else retK (Some True))))"

primrec pipewrite_loop :: "u64 \<Rightarrow> nat \<Rightarrow> u64 \<Rightarrow> nat \<Rightarrow> nat \<Rightarrow> nat option K" where
  "pipewrite_loop pi pr addr i 0 = retK (Some i)"
| "pipewrite_loop pi pr addr i (Suc left) =
     bindK (pipewrite_wait pi pr) (\<lambda>ok.
     if \<not> ok then retK None
     else
       bindK (getP pr ppagetable) (\<lambda>pt.
       bindK (copyin pt (addr + of_nat i) 1) (\<lambda>(r, bs).
       if r = -1 then retK (Some i)
       else thenK (modPipe pi (pipe_put (hd bs)))
                  (pipewrite_loop pi pr addr (i + 1) left))))"

definition pipewrite_end :: "u64 \<Rightarrow> nat option \<Rightarrow> int K" where
  "pipewrite_end pi r =
     (case r of None \<Rightarrow> retK (-1)
      | Some i \<Rightarrow>
          thenK (wakeup (Some (Ch_nread pi)))
         (thenK (release (L_pipe pi))
                (retK (int i))))"

definition pipewrite :: "u64 \<Rightarrow> u64 \<Rightarrow> int \<Rightarrow> int K" where
  "pipewrite pi addr n =
     bindK myproc (\<lambda>pr.
     thenK (acquire (L_pipe pi))
           (bindK (pipewrite_loop pi pr addr 0 (nat n)) (pipewrite_end pi)))"

primrec piperead_loop :: "u64 \<Rightarrow> nat \<Rightarrow> u64 \<Rightarrow> nat \<Rightarrow> nat \<Rightarrow> nat K" where
  "piperead_loop pi pr addr i 0 = retK i"
| "piperead_loop pi pr addr i (Suc left) =
     bindK (getPipe pi (\<lambda>q. q)) (\<lambda>q.
     if pipe_empty q then retK i
     else
       thenK (modPipe pi pipe_drop)
      (bindK (getP pr ppagetable) (\<lambda>pt.
       bindK (copyout pt (addr + of_nat i) [pipe_next q]) (\<lambda>r.
       if r = -1 then retK i
       else piperead_loop pi pr addr (i + 1) left))))"

definition piperead_wait :: "u64 \<Rightarrow> nat \<Rightarrow> bool K" where
  "piperead_wait pi pr =
     whileK (bindK (getPipe pi (\<lambda>q. q)) (\<lambda>q. bindK (getP pr killed) (\<lambda>k.
       if pipe_empty q \<and> writeopen q
       then if k then thenK (release (L_pipe pi)) (retK (Some False))
            else thenK (sleep (Ch_nread pi) (L_pipe pi)) (retK None)
       else retK (Some True))))"

definition piperead :: "u64 \<Rightarrow> u64 \<Rightarrow> int \<Rightarrow> int K" where
  "piperead pi addr n =
     bindK myproc (\<lambda>pr.
     thenK (acquire (L_pipe pi))
    (bindK (piperead_wait pi pr) (\<lambda>ok.
     if \<not> ok then retK (-1)
     else
       bindK (piperead_loop pi pr addr 0 (nat n)) (\<lambda>i.
       thenK (wakeup (Some (Ch_nwrite pi)))
      (thenK (release (L_pipe pi))
             (retK (int i)))))))"

section \<open>The pipe as a queue\<close>

definition pipe_inv :: "pipe \<Rightarrow> bool" where
  "pipe_inv q \<longleftrightarrow> length (pdata q) = PIPESIZE \<and> unat (nwrite q - nread q) \<le> PIPESIZE"

definition pipe_items :: "pipe \<Rightarrow> u8 list" where
  "pipe_items q = ring_items (pdata q) (nread q) (nwrite q)"

interpretation pipe_queue: bounded_queue pipe_inv pipe_items PIPESIZE pipe_put pipe_next pipe_drop
  pipe_full pipe_empty
proof
  fix q :: pipe and c :: u8
  assume inv: "pipe_inv q"
  then have len: "length (pdata q) = 512" and n: "unat (nwrite q - nread q) \<le> 512"
    by (simp_all add: pipe_inv_def PIPESIZE_def)
  have dvd: "length (pdata q) dvd 2 ^ LENGTH(32)" using len by simp
  show "length (pipe_items q) \<le> PIPESIZE" using inv by (simp add: pipe_items_def pipe_inv_def)
  have fullw: "pipe_full q \<longleftrightarrow> nwrite q - nread q = of_nat PIPESIZE"
    by (auto simp: pipe_full_def algebra_simps)
  also have "\<dots> \<longleftrightarrow> unat (nwrite q - nread q) = 512"
    by (simp add: word_unat_eq_iff PIPESIZE_def)
  finally have full: "pipe_full q \<longleftrightarrow> unat (nwrite q - nread q) = 512" .
  then show "pipe_full q \<longleftrightarrow> length (pipe_items q) = PIPESIZE"
    by (simp add: pipe_items_def PIPESIZE_def)
  show "pipe_empty q \<longleftrightarrow> pipe_items q = []"
    by (auto simp: pipe_empty_def pipe_items_def ring_empty)
  {
    assume "\<not> pipe_full q"
    then have lt: "unat (nwrite q - nread q) < 512" using full n by simp
    have "unat (nwrite q + 1 - nread q) = unat (nwrite q - nread q) + 1"
      by (rule ring_counter [OF lt]) simp
    then show "pipe_inv (pipe_put c q)"
      using inv lt by (simp add: pipe_inv_def pipe_put_def PIPESIZE_def)
    show "pipe_items (pipe_put c q) = pipe_items q @ [c]"
      using ring_put [of "nwrite q" "nread q" "pdata q" c] lt len
      by (simp add: pipe_items_def pipe_put_def PIPESIZE_def)
  }
  {
    assume "\<not> pipe_empty q"
    then have ne: "nwrite q \<noteq> nread q" by (simp add: pipe_empty_def)
    note d = ring_drop(1) [OF ne, of "pdata q"] ring_drop(2) [OF ne]
    show "pipe_inv (pipe_drop q)" using inv d(2) by (auto simp: pipe_inv_def pipe_drop_def)
    show "pipe_items q = pipe_next q # pipe_items (pipe_drop q)"
      using d(1) len by (simp add: pipe_items_def pipe_next_def pipe_drop_def PIPESIZE_def)
  }
qed

section \<open>Reading and writing a pipe\<close>

lemma getPipe_apply [simp]: "getPipe pi f s = Ret (f (pipes s pi)) s"
  by (simp add: getPipe_def)

lemma modPipe_apply [simp]: "modPipe pi f s = Ret () (s\<lparr>pipes := (pipes s)(pi := f (pipes s pi))\<rparr>)"
  by (simp add: modPipe_def)

text \<open>
  The state of a process at work on a pipe: it holds the pipe's lock, its address space is in order.
\<close>

definition at_pipe :: "kstate \<Rightarrow> u64 \<Rightarrow> nat \<Rightarrow> u64 list \<Rightarrow> bool" where
  "at_pipe s pi p fl \<longleftrightarrow> cur s = Some p \<and> p < NPROC \<and> length (procs s) = NPROC \<and>
     uspace s (ppagetable (procs s ! p)) fl \<and> pipe_inv (pipes s pi) \<and> L_pr \<notin> held s"

lemma piperead_loop_correct:
  assumes "at_pipe s pi p fl" and "pt = ppagetable (procs s ! p)"
    and "k = min left (length (pipe_items (pipes s pi)))" and "i + left < 2 ^ 31"
    and "None \<notin> set (ubytes (mem s) pt (addr + of_nat i) k)"
  shows "\<exists>m out q. piperead_loop pi p addr i left s =
      Ret (i + k) (s\<lparr>pipes := (pipes s)(pi := q), mem := m, uart_out := out\<rparr>) \<and>
    pipe_inv q \<and> pipe_items q = drop k (pipe_items (pipes s pi)) \<and> uspace (s\<lparr>mem := m\<rparr>) pt fl \<and>
    readopen q = readopen (pipes s pi) \<and> writeopen q = writeopen (pipes s pi) \<and>
    (\<forall>vb. ubyte m pt vb = ustored (mem s) pt (addr + of_nat i) (take k (pipe_items (pipes s pi))) vb)"
  using assms
proof (induction left arbitrary: s i k)
  case 0
  then show ?case
    by (intro exI [of _ "mem s"] exI [of _ "uart_out s"] exI [of _ "pipes s pi"])
      (simp add: at_pipe_def ustored_def)
next
  case (Suc left)
  let ?q = "pipes s pi"
  note at = Suc.prems(1) [unfolded at_pipe_def]
  have inv: "pipe_inv ?q" using at by simp
  show ?case
  proof (cases "pipe_empty ?q")
    case True
    then have "pipe_items ?q = []" using pipe_queue.empty_iff [OF inv] by simp
    then show ?thesis
      using True Suc.prems at
      by (intro exI [of _ "mem s"] exI [of _ "uart_out s"] exI [of _ ?q]) (simp add: ustored_def)
  next
    case False
    note it = pipe_queue.drop_items [OF inv False] and inv' = pipe_queue.drop_inv [OF inv False]
    have k: "k = Suc (min left (length (pipe_items (pipe_drop ?q))))" using Suc.prems(3) it by simp
    let ?k = "min left (length (pipe_items (pipe_drop ?q)))"
    let ?s1 = "s\<lparr>pipes := (pipes s)(pi := pipe_drop ?q)\<rparr>" and ?a = "addr + of_nat i"
    have us1: "uspace ?s1 pt fl" by (rule uspace_cong) (use at Suc.prems(2) in simp_all)
    have split: "ubytes (mem s) pt ?a k = ubytes (mem s) pt ?a 1 @ ubytes (mem s) pt (?a + 1) ?k"
      using ubytes_add [of "mem s" pt ?a 1 ?k] k by simp
    have nm: "None \<notin> set (ubytes (mem ?s1) pt ?a (length [pipe_next ?q]))"
      and len: "length [pipe_next ?q] \<le> 2 ^ 64" and lp: "L_pr \<notin> held ?s1"
      using Suc.prems(5) split at by simp_all
    obtain m out where c: "copyout pt ?a [pipe_next ?q] ?s1 = Ret 0 (?s1\<lparr>mem := m, uart_out := out\<rparr>)"
      and us: "uspace (?s1\<lparr>mem := m\<rparr>) pt fl" and up: "\<And>vb. upage m pt vb = upage (mem ?s1) pt vb"
      and st: "\<And>vb. ubyte m pt vb = ustored (mem ?s1) pt ?a [pipe_next ?q] vb"
      by (rule copyout_uspace [OF us1 lp nm len]) (blast intro: that)
    let ?s2 = "?s1\<lparr>mem := m, uart_out := out\<rparr>"
    have at2: "at_pipe ?s2 pi p fl"
      using at inv' uspace_cong [OF us, of ?s2] Suc.prems(2) by (simp add: at_pipe_def)
    have map2: "None \<notin> set (ubytes (mem ?s2) pt (addr + of_nat (Suc i)) ?k)"
      using Suc.prems(5) ubytes_mapped_cong [of m pt "mem s"] up split by (auto simp: algebra_simps)
    obtain m' out' q' where r: "piperead_loop pi p addr (Suc i) left ?s2 =
        Ret (Suc i + ?k) (?s2\<lparr>pipes := (pipes ?s2)(pi := q'), mem := m', uart_out := out'\<rparr>)"
      and q': "pipe_inv q'" "pipe_items q' = drop ?k (pipe_items (pipe_drop ?q))"
        "uspace (?s2\<lparr>mem := m'\<rparr>) pt fl" "readopen q' = readopen ?q" "writeopen q' = writeopen ?q"
      and st': "\<And>vb. ubyte m' pt vb = ustored m pt (addr + of_nat (Suc i))
        (take ?k (pipe_items (pipe_drop ?q))) vb"
      using Suc.IH [OF at2 _ _ _ map2] Suc.prems(2,4) by (fastforce simp: pipe_drop_def)
    have e: "?s2\<lparr>pipes := (pipes ?s2)(pi := q'), mem := m', uart_out := out'\<rparr> =
        s\<lparr>pipes := (pipes s)(pi := q'), mem := m', uart_out := out'\<rparr>"
      by (rule kstate.equality) simp_all
    have run: "piperead_loop pi p addr i (Suc left) s =
        Ret (i + k) (s\<lparr>pipes := (pipes s)(pi := q'), mem := m', uart_out := out'\<rparr>)"
    proof -
      have "piperead_loop pi p addr i (Suc left) s = piperead_loop pi p addr (Suc i) left ?s2"
        using c by (simp add: False Suc.prems(2))
      then show ?thesis unfolding r e k by simp
    qed
    have "ustored m pt (?a + of_nat (length [pipe_next ?q])) (take ?k (pipe_items (pipe_drop ?q))) vb =
        ustored (mem s) pt ?a ([pipe_next ?q] @ take ?k (pipe_items (pipe_drop ?q))) vb" for vb
      by (rule ustored_append) (use st Suc.prems(4) in auto)
    then have "\<forall>vb. ubyte m' pt vb = ustored (mem s) pt ?a (take k (pipe_items ?q)) vb"
      using st' it k by (simp add: algebra_simps)
    moreover have "uspace (s\<lparr>mem := m'\<rparr>) pt fl" by (rule uspace_cong [OF q'(3)]) simp_all
    moreover have "pipe_items q' = drop k (pipe_items ?q)" using q'(2) it k by simp
    ultimately show ?thesis
      using q'(1,4,5) by (intro exI [of _ m'] exI [of _ out'] exI [of _ q'] conjI run) blast+
  qed
qed

lemma pipewrite_wait_room:
  assumes "at_pipe s pi p fl" and "readopen (pipes s pi)" and "\<not> killed (procs s ! p)"
    and "\<not> pipe_full (pipes s pi)"
  shows "pipewrite_wait pi p s = Ret True s"
  unfolding pipewrite_wait_def by (rule whileK_leave) (use assms in simp)

lemma pipewrite_loop_fill:
  assumes "at_pipe s pi p fl" and "pt = ppagetable (procs s ! p)" and "readopen (pipes s pi)"
    and "\<not> killed (procs s ! p)" and "length (pipe_items (pipes s pi)) + n \<le> PIPESIZE"
    and "None \<notin> set (ubytes (mem s) pt (addr + of_nat i) n)"
  shows "\<exists>out q bs. pipewrite_loop pi p addr i (n + left) s =
      pipewrite_loop pi p addr (i + n) left (s\<lparr>pipes := (pipes s)(pi := q), uart_out := out\<rparr>) \<and>
    pipe_inv q \<and> readopen q \<and> writeopen q = writeopen (pipes s pi) \<and>
    map Some bs = ubytes (mem s) pt (addr + of_nat i) n \<and> pipe_items q = pipe_items (pipes s pi) @ bs"
  using assms
proof (induction n arbitrary: s i)
  case 0
  then show ?case
    by (intro exI [of _ "uart_out s"] exI [of _ "pipes s pi"] exI [of _ "[]"])
      (simp add: at_pipe_def ubytes_def)
next
  case (Suc n)
  let ?q = "pipes s pi" and ?a = "addr + of_nat i"
  note at = Suc.prems(1) [unfolded at_pipe_def]
  have inv: "pipe_inv ?q" using at by simp
  have nf: "\<not> pipe_full ?q" using pipe_queue.full_iff [OF inv] Suc.prems(5) by simp
  have split: "ubytes (mem s) pt ?a (Suc n) = ubytes (mem s) pt ?a 1 @ ubytes (mem s) pt (?a + 1) n"
    using ubytes_add [of "mem s" pt ?a 1 n] by simp
  have pi: "pt_inv s pt fl" "L_pr \<notin> held s" using at Suc.prems(2) by (simp_all add: uspace_def)
  obtain r cs out where c: "copyin pt ?a 1 s = Ret (r, cs) (s\<lparr>uart_out := out\<rparr>)"
    and rc: "if None \<in> set (ubytes (mem s) pt ?a 1) then r = -1
      else r = 0 \<and> map Some cs = ubytes (mem s) pt ?a 1"
    by (rule copyin_uspace [OF pi])
  have r: "r = 0" "map Some cs = ubytes (mem s) pt ?a 1" using rc split Suc.prems(6) by auto
  obtain b where cs: "cs = [b]"
    using arg_cong [OF r(2), of length] by (auto simp: length_Suc_conv)
  let ?s2 = "s\<lparr>uart_out := out, pipes := (pipes s)(pi := pipe_put b ?q)\<rparr>"
  have at2: "at_pipe ?s2 pi p fl"
    using at pipe_queue.put_inv [OF inv nf] uspace_cong [of s "ppagetable (procs s ! p)" fl ?s2]
    by (simp add: at_pipe_def)
  have it: "pipe_items (pipe_put b ?q) = pipe_items ?q @ [b]"
    by (rule pipe_queue.put_items [OF inv nf])
  have "None \<notin> set (ubytes (mem ?s2) pt (addr + of_nat (Suc i)) n)"
    using split Suc.prems(6) by (simp add: algebra_simps)
  then obtain out' q' bs where IH: "pipewrite_loop pi p addr (Suc i) (n + left) ?s2 =
      pipewrite_loop pi p addr (Suc i + n) left (?s2\<lparr>pipes := (pipes ?s2)(pi := q'), uart_out := out'\<rparr>)"
    and q': "pipe_inv q'" "readopen q'" "writeopen q' = writeopen ?q"
      "map Some bs = ubytes (mem s) pt (addr + of_nat (Suc i)) n"
      "pipe_items q' = pipe_items (pipe_put b ?q) @ bs"
    using Suc.IH [OF at2, of "Suc i"] Suc.prems(2-5) it by (fastforce simp: pipe_put_def)
  have e: "?s2\<lparr>pipes := (pipes ?s2)(pi := q'), uart_out := out'\<rparr> =
      s\<lparr>pipes := (pipes s)(pi := q'), uart_out := out'\<rparr>"
    by (rule kstate.equality) simp_all
  have "pipewrite_loop pi p addr i (Suc n + left) s = pipewrite_loop pi p addr (Suc i) (n + left) ?s2"
    using c r(1) cs pipewrite_wait_room [OF Suc.prems(1,3,4) nf] by (simp add: Suc.prems(2))
  then have run: "pipewrite_loop pi p addr i (Suc n + left) s = pipewrite_loop pi p addr (i + Suc n) left
      (s\<lparr>pipes := (pipes s)(pi := q'), uart_out := out'\<rparr>)"
    unfolding IH e by simp
  have "map Some (b # bs) = ubytes (mem s) pt ?a (Suc n)"
    unfolding split using r(2) q'(4) cs by (simp add: algebra_simps)
  moreover have "pipe_items q' = pipe_items ?q @ b # bs" using q'(5) it by simp
  ultimately show ?case
    using q'(1-3) by (intro exI [of _ out'] exI [of _ q'] exI [of _ "b # bs"] conjI run) auto
qed

lemma kstate_pipes_held [simp]:
  "s\<lparr>pipes := ps, held := h\<rparr> = s\<lparr>held := h, pipes := ps\<rparr>"
  by (cases s) simp

text \<open>
  A process about to use the pipe \<open>pi\<close>: it holds no lock, its address space \<open>pt\<close> is in order.
\<close>

definition pipe_user :: "kstate \<Rightarrow> u64 \<Rightarrow> nat \<Rightarrow> u64 \<Rightarrow> u64 list \<Rightarrow> bool" where
  "pipe_user s pi p pt fl \<longleftrightarrow> at_pipe s pi p fl \<and> held s = {} \<and> pt = ppagetable (procs s ! p)"

text \<open>
  C17: \<^verbatim>\<open>piperead\<close> of a pipe that holds bytes (or has no writer left) delivers the oldest bytes in
  order: it returns the number \<open>k\<close> of bytes it took, the lesser of the count asked for and the bytes
  there are, stores exactly them at the user's address, leaves the rest in the pipe, wakes the
  processes that wait for room, and holds no lock at the end.
\<close>

theorem piperead_delivers:
  assumes "pipe_user s pi p pt fl" and "0 \<le> n" and "n < 2 ^ 31"
    and "\<not> pipe_empty (pipes s pi) \<or> \<not> writeopen (pipes s pi)"
    and "k = min (nat n) (length (pipe_items (pipes s pi)))"
    and "None \<notin> set (ubytes (mem s) pt addr k)"
  shows "okK (piperead pi addr n) s (\<lambda>r t. r = int k \<and> pipe_inv (pipes t pi) \<and>
    pipe_items (pipes t pi) = drop k (pipe_items (pipes s pi)) \<and>
    (\<forall>vb. ubyte (mem t) pt vb = ustored (mem s) pt addr (take k (pipe_items (pipes s pi))) vb) \<and>
    procs t = wake_all (Some p) (Some (Ch_nwrite pi)) (procs s) \<and> held t = {})"
proof -
  note u = assms(1) [unfolded pipe_user_def at_pipe_def]
  let ?s = "s\<lparr>held := {L_pipe pi}\<rparr>"
  have us: "uspace ?s pt fl" by (rule uspace_cong) (use u in simp_all)
  have at: "at_pipe ?s pi p fl" using u us by (simp add: at_pipe_def)
  have w: "piperead_wait pi p ?s = Ret True ?s"
    unfolding piperead_wait_def by (rule whileK_leave) (use assms(4) in auto)
  obtain m out q where r: "piperead_loop pi p addr 0 (nat n) ?s =
      Ret k (?s\<lparr>pipes := (pipes s)(pi := q), mem := m, uart_out := out\<rparr>)"
    and q: "pipe_inv q" "pipe_items q = drop k (pipe_items (pipes s pi))"
      "\<forall>vb. ubyte m pt vb = ustored (mem s) pt addr (take k (pipe_items (pipes s pi))) vb"
    using piperead_loop_correct [OF at, of pt k "nat n" 0 addr] u assms(3,5,6) by fastforce
  let ?t = "?s\<lparr>pipes := (pipes s)(pi := q), mem := m, uart_out := out\<rparr>"
  have wk: "wakeup (Some (Ch_nwrite pi)) ?t =
      Ret () (?t\<lparr>procs := wake_all (Some p) (Some (Ch_nwrite pi)) (procs s)\<rparr>)"
    using wakeup_running [of ?t p] u by simp
  have "piperead pi addr n s = bindK (piperead_wait pi p) (\<lambda>ok. if \<not> ok then retK (-1)
     else bindK (piperead_loop pi p addr 0 (nat n)) (\<lambda>i. thenK (wakeup (Some (Ch_nwrite pi)))
       (thenK (release (L_pipe pi)) (retK (int i))))) ?s"
    using u by (simp add: piperead_def myproc_def)
  also have "\<dots> = Ret (int k) (?t\<lparr>procs := wake_all (Some p) (Some (Ch_nwrite pi)) (procs s), held := {}\<rparr>)"
    using w r wk by simp
  finally show ?thesis using q by (simp add: okK_def)
qed

lemma pipewrite_wait_body_not_None:
  "bindK (getPipe pi (\<lambda>q. q)) (\<lambda>q. bindK (getP pr killed) (\<lambda>k.
       if \<not> readopen q \<or> k then thenK (release (L_pipe pi)) (retK (Some False))
       else if pipe_full q
       then thenK (wakeup (Some (Ch_nread pi)))
           (thenK (sleep (Ch_nwrite pi) (L_pipe pi)) (retK None))
       else retK (Some True))) t \<noteq> Ret None t'"
  by (auto simp: bindK_eq_Ret thenK_eq_Ret sleep_not_ret)

lemma pipewrite_wait_full:
  assumes "at_pipe s pi p fl" and "readopen (pipes s pi)" and "\<not> killed (procs s ! p)"
    and "pipe_full (pipes s pi)" and "held s = {L_pipe pi}"
  shows "pipewrite_wait pi p s = Swtch (s\<lparr>held := {L_proc p},
      procs := (wake_all (Some p) (Some (Ch_nread pi)) (procs s))
        [p := (procs s ! p)\<lparr>pchan := Some (Ch_nwrite pi), pstate := SLEEPING\<rparr>]\<rparr>)
    (bindK (resume p (L_pipe pi)) (\<lambda>_. pipewrite_wait pi p))"
proof -
  note at = assms(1) [unfolded at_pipe_def]
  let ?s' = "s\<lparr>procs := wake_all (Some p) (Some (Ch_nread pi)) (procs s)\<rparr>"
  have wk: "wakeup (Some (Ch_nread pi)) s = Ret () ?s'"
    by (rule wakeup_running) (use at assms(5) in auto)
  have "pipewrite_wait pi p s = Swtch (?s'\<lparr>held := {L_proc p},
      procs := (procs ?s')[p := (procs ?s' ! p)\<lparr>pchan := Some (Ch_nwrite pi), pstate := SLEEPING\<rparr>]\<rparr>)
    (bindK (resume p (L_pipe pi)) (\<lambda>_. pipewrite_wait pi p))"
    unfolding pipewrite_wait_def resume_def
    by (rule whileK_sleep [OF _ pipewrite_wait_body_not_None])
      (use at assms wk in \<open>simp_all add: thenK_def\<close>)
  then show ?thesis using at by (simp add: kstate.equality)
qed


lemma pipewrite_start:
  assumes "pipe_user s pi p pt fl"
  shows "pipewrite pi addr n s =
      bindK (pipewrite_loop pi p addr 0 (nat n)) (pipewrite_end pi) (s\<lparr>held := {L_pipe pi}\<rparr>)"
    "at_pipe (s\<lparr>held := {L_pipe pi}\<rparr>) pi p fl"
proof -
  note u = assms [unfolded pipe_user_def at_pipe_def]
  show "pipewrite pi addr n s =
      bindK (pipewrite_loop pi p addr 0 (nat n)) (pipewrite_end pi) (s\<lparr>held := {L_pipe pi}\<rparr>)"
    using u by (simp add: pipewrite_def myproc_def)
  have "uspace (s\<lparr>held := {L_pipe pi}\<rparr>) pt fl" by (rule uspace_cong) (use u in simp_all)
  then show "at_pipe (s\<lparr>held := {L_pipe pi}\<rparr>) pi p fl" using u by (simp add: at_pipe_def)
qed

text \<open>
  C18: \<^verbatim>\<open>pipewrite\<close> into a pipe with room for all \<open>n\<close> bytes appends exactly the user's bytes, in order,
  to what the pipe holds, returns \<open>n\<close>, wakes the processes that wait for bytes, and holds no lock
  at the end.
\<close>

theorem pipewrite_stores:
  assumes "pipe_user s pi p pt fl" and "readopen (pipes s pi)" and "\<not> killed (procs s ! p)"
    and "0 \<le> n" and "length (pipe_items (pipes s pi)) + nat n \<le> PIPESIZE"
    and "None \<notin> set (ubytes (mem s) pt addr (nat n))"
  shows "okK (pipewrite pi addr n) s (\<lambda>r t. r = n \<and> pipe_inv (pipes t pi) \<and>
    (\<exists>bs. map Some bs = ubytes (mem s) pt addr (nat n) \<and>
       pipe_items (pipes t pi) = pipe_items (pipes s pi) @ bs) \<and>
    mem t = mem s \<and> procs t = wake_all (Some p) (Some (Ch_nread pi)) (procs s) \<and> held t = {})"
proof -
  note u = assms(1) [unfolded pipe_user_def at_pipe_def]
  let ?s = "s\<lparr>held := {L_pipe pi}\<rparr>"
  have pre: "pt = ppagetable (procs ?s ! p)" "readopen (pipes ?s pi)" "\<not> killed (procs ?s ! p)"
    "length (pipe_items (pipes ?s pi)) + nat n \<le> PIPESIZE"
    "None \<notin> set (ubytes (mem ?s) pt (addr + of_nat 0) (nat n))"
    using u assms(2-6) by simp_all
  obtain out q bs where f: "pipewrite_loop pi p addr 0 (nat n + 0) ?s =
      pipewrite_loop pi p addr (0 + nat n) 0 (?s\<lparr>pipes := (pipes ?s)(pi := q), uart_out := out\<rparr>)"
    and q: "pipe_inv q" "map Some bs = ubytes (mem ?s) pt (addr + of_nat 0) (nat n)"
      "pipe_items q = pipe_items (pipes ?s pi) @ bs"
    using pipewrite_loop_fill [OF pipewrite_start(2) [OF assms(1)] pre, of 0] by blast
  let ?t = "?s\<lparr>pipes := (pipes s)(pi := q), uart_out := out\<rparr>"
  have "wakeup (Some (Ch_nread pi)) ?t =
      Ret () (?t\<lparr>procs := wake_all (Some p) (Some (Ch_nread pi)) (procs s)\<rparr>)"
    using wakeup_running [of ?t p] u by simp
  then have "pipewrite pi addr n s =
      Ret n (?t\<lparr>procs := wake_all (Some p) (Some (Ch_nread pi)) (procs s), held := {}\<rparr>)"
    using f assms(4) by (simp add: pipewrite_start(1) [OF assms(1)] pipewrite_end_def)
  then show ?thesis using q by (auto simp: okK_def)
qed

text \<open>
  C19: \<^verbatim>\<open>pipewrite\<close> of more bytes than there is room for fills the pipe, wakes the readers and gives the
  CPU away, asleep on the write end and with no lock but its own; when it is resumed, it takes the
  pipe's lock again and goes on with the first byte that is not in the pipe, so that no byte is
  lost and none is stored twice.
\<close>

theorem pipewrite_waits_for_room:
  assumes "pipe_user s pi p pt fl" and "readopen (pipes s pi)" and "\<not> killed (procs s ! p)"
    and "a = PIPESIZE - length (pipe_items (pipes s pi))" and "a < nat n"
    and "None \<notin> set (ubytes (mem s) pt addr a)"
  shows "\<exists>t k bs. pipewrite pi addr n s = Swtch t k \<and>
    map Some bs = ubytes (mem s) pt addr a \<and>
    pipe_items (pipes t pi) = pipe_items (pipes s pi) @ bs \<and> pipe_full (pipes t pi) \<and>
    pstate (procs t ! p) = SLEEPING \<and> pchan (procs t ! p) = Some (Ch_nwrite pi) \<and>
    (\<forall>q<NPROC. q \<noteq> p \<longrightarrow> procs t ! q = wake_one (Some (Ch_nread pi)) (procs s ! q)) \<and>
    held t = {L_proc p} \<and>
    k = bindK (resume p (L_pipe pi)) (\<lambda>_. bindK (pipewrite_loop pi p addr a (nat n - a)) (pipewrite_end pi))"
proof -
  note u = assms(1) [unfolded pipe_user_def at_pipe_def] and at = pipewrite_start(2) [OF assms(1)]
  let ?s = "s\<lparr>held := {L_pipe pi}\<rparr>"
  obtain left where left: "nat n = a + Suc left" using assms(5) less_imp_Suc_add by fastforce
  have le: "length (pipe_items (pipes s pi)) \<le> PIPESIZE" using u pipe_queue.items_le by blast
  have pre: "pt = ppagetable (procs ?s ! p)" "readopen (pipes ?s pi)" "\<not> killed (procs ?s ! p)"
    "length (pipe_items (pipes ?s pi)) + a \<le> PIPESIZE"
    "None \<notin> set (ubytes (mem ?s) pt (addr + of_nat 0) a)"
    using u assms(2-4,6) le by simp_all
  obtain out q bs where f: "pipewrite_loop pi p addr 0 (a + Suc left) ?s =
      pipewrite_loop pi p addr (0 + a) (Suc left) (?s\<lparr>pipes := (pipes ?s)(pi := q), uart_out := out\<rparr>)"
    and q: "pipe_inv q" "readopen q" "map Some bs = ubytes (mem ?s) pt (addr + of_nat 0) a"
      "pipe_items q = pipe_items (pipes ?s pi) @ bs"
    using pipewrite_loop_fill [OF at pre, of "Suc left"] by blast
  let ?t = "?s\<lparr>pipes := (pipes s)(pi := q), uart_out := out\<rparr>"
  let ?u = "?t\<lparr>held := {L_proc p}, procs := (wake_all (Some p) (Some (Ch_nread pi)) (procs s))
        [p := (procs s ! p)\<lparr>pchan := Some (Ch_nwrite pi), pstate := SLEEPING\<rparr>]\<rparr>"
  have "length bs = a" using arg_cong [OF q(3), of length] by simp
  then have full: "pipe_full q"
    using pipe_queue.full_iff [OF q(1)] q(4) assms(4) le by simp
  have "uspace ?t pt fl" by (rule uspace_cong) (use u in simp_all)
  then have "at_pipe ?t pi p fl" using u q(1) by (simp add: at_pipe_def)
  then have w: "pipewrite_wait pi p ?t = Swtch ?u (bindK (resume p (L_pipe pi)) (\<lambda>_. pipewrite_wait pi p))"
    using pipewrite_wait_full [of ?t pi p fl] q(2) full assms(3) by simp
  have "pipewrite pi addr n s = Swtch ?u (bindK (resume p (L_pipe pi))
      (\<lambda>_. bindK (pipewrite_loop pi p addr a (Suc left)) (pipewrite_end pi)))"
  proof -
    obtain F where F: "pipewrite_loop pi p addr a (Suc left) = bindK (pipewrite_wait pi p) F"
      by simp
    have "pipewrite_loop pi p addr a (Suc left) ?t = Swtch ?u
        (bindK (resume p (L_pipe pi)) (\<lambda>_. pipewrite_loop pi p addr a (Suc left)))"
      unfolding F using w by (simp add: bindK_def bind_out_assoc)
    then show ?thesis
      unfolding pipewrite_start(1) [OF assms(1)] left
      using f by (simp add: bindK_def bind_out_assoc del: pipewrite_loop.simps)
  qed
  moreover have "nat n - a = Suc left" using left by simp
  ultimately show ?thesis
    using q(3,4) full u by (intro exI [of _ ?u] exI conjI) auto
qed

definition sample_pipe :: kstate where
  "sample_pipe = sample_run\<lparr>pipes := (\<lambda>_. \<lparr>pdata = [0x61, 0x62] @ replicate 510 0, nread = 0, nwrite = 2,
     readopen = True, writeopen = True\<rparr>)\<rparr>"

lemma sample_pipe_items: "pipe_items (pipes sample_pipe pi) = [0x61, 0x62]"
  by (simp add: pipe_items_def sample_pipe_def ring_items_def upt_rec)

lemma sample_pipe_user: "pipe_user sample_pipe pi 0 sample_pt sample_pages"
proof -
  have "uspace sample_pipe sample_pt sample_pages"
    by (rule uspace_cong [OF sample_run_uspace]) (simp_all add: sample_pipe_def)
  moreover have "pipe_inv (pipes sample_pipe pi)" by (simp add: pipe_inv_def sample_pipe_def PIPESIZE_def)
  ultimately show ?thesis
    by (simp add: pipe_user_def at_pipe_def sample_pipe_def) (simp add: NPROC_def proc_zero_def)
qed

lemma sample_pipe_fields [simp]:
  "mem sample_pipe = sample_user_ram" "\<not> killed (procs sample_pipe ! 0)"
  "readopen (pipes sample_pipe pi)" "\<not> pipe_empty (pipes sample_pipe pi)"
  by (simp_all add: sample_pipe_def proc_zero_def pipe_empty_def)

theorem piperead_delivers_witness:
  "okK (piperead 0x86000000 8 1) sample_pipe (\<lambda>r t. r = 1 \<and>
    pipe_items (pipes t 0x86000000) = [0x62] \<and> ubyte (mem t) sample_pt 8 = Some 0x61)"
  using piperead_delivers [OF sample_pipe_user, of 1 "0x86000000" 1 8] sample_mapped [of 8 1]
  by (auto simp: sample_pipe_items ustored_def elim!: okK_mono)

theorem pipewrite_stores_witness:
  "okK (pipewrite 0x86000000 0 3) sample_pipe (\<lambda>r t. r = 3 \<and>
    pipe_items (pipes t 0x86000000) = [0x61, 0x62, 0x68, 0x69, 0])"
proof -
  have m: "None \<notin> set (ubytes sample_user_ram sample_pt 0 3)" by (rule sample_mapped) simp_all
  show ?thesis
    using pipewrite_stores [OF sample_pipe_user, of "0x86000000" 3 0] m
    by (auto simp: sample_pipe_items sample_ubytes PIPESIZE_def map_eq_Cons_conv elim!: okK_mono)
qed

theorem pipewrite_waits_for_room_witness:
  "\<exists>t k. pipewrite 0x86000000 0 600 sample_pipe = Swtch t k \<and> pipe_full (pipes t 0x86000000) \<and>
    pstate (procs t ! 0) = SLEEPING"
proof -
  have m: "None \<notin> set (ubytes sample_user_ram sample_pt 0 510)" by (rule sample_mapped) simp_all
  show ?thesis
    using pipewrite_waits_for_room [OF sample_pipe_user, of "0x86000000" 510 600 0] m
    by (auto simp: sample_pipe_items PIPESIZE_def)
qed

text \<open>
  C16: The pipe is a first-in first-out queue of at most \<^verbatim>\<open>PIPESIZE\<close> bytes for any sequence of stores and
  removals and across the wrap-around of its 32-bit counters: what was in the pipe followed by what
  was accepted is what was delivered followed by what is in the pipe.
\<close>

theorem pipe_is_fifo:
  assumes "pipe_inv q" and "queue_run pipe_put pipe_next pipe_drop pipe_full pipe_empty ops q = (q', ins, outs)"
  shows "pipe_items q @ ins = outs @ pipe_items q' \<and> length (pipe_items q') \<le> PIPESIZE \<and> pipe_inv q'"
  using pipe_queue.run_fifo [OF assms] pipe_queue.items_le by blast

theorem pipe_is_fifo_witness:
  "\<exists>q' ins outs. queue_run pipe_put pipe_next pipe_drop pipe_full pipe_empty [Put 1, Get, Put 2, Get]
     \<lparr>pdata = replicate 512 0, nread = 0xFFFFFFFF, nwrite = 0xFFFFFFFF, readopen = True, writeopen = True\<rparr>
     = (q', ins, outs) \<and> outs @ pipe_items q' = ins \<and> ins = [1, 2]"
proof -
  let ?q = "\<lparr>pdata = replicate 512 0, nread = 0xFFFFFFFF, nwrite = 0xFFFFFFFF, readopen = True, writeopen = True\<rparr>"
  obtain q' ins outs where r: "queue_run pipe_put pipe_next pipe_drop pipe_full pipe_empty
      [Put 1, Get, Put 2, Get] ?q = (q', ins, outs)" by (metis prod_cases3)
  have "pipe_inv ?q" "pipe_items ?q = []" by (simp_all add: pipe_inv_def PIPESIZE_def pipe_items_def ring_items_def)
  then have "outs @ pipe_items q' = ins" using pipe_is_fifo [OF _ r] by simp
  moreover have "ins = [1, 2]"
    using r by (auto simp: pipe_full_def pipe_empty_def pipe_put_def pipe_drop_def PIPESIZE_def split: if_splits)
  ultimately show ?thesis using r by blast
qed

text \<open>
  C20: \<^verbatim>\<open>pipewrite\<close> to a pipe that nobody can read returns -1, stores nothing and holds no lock at the end.
\<close>

theorem pipewrite_no_reader:
  assumes "pipe_user s pi p pt fl" and "\<not> readopen (pipes s pi)" and "0 < n"
  shows "pipewrite pi addr n s = Ret (-1) s"
proof -
  note u = assms(1) [unfolded pipe_user_def at_pipe_def]
  have w: "pipewrite_wait pi p (s\<lparr>held := {L_pipe pi}\<rparr>) = Ret False s"
    unfolding pipewrite_wait_def by (rule whileK_leave) (use u assms(2) in \<open>simp add: kstate.equality\<close>)
  obtain m where m: "nat n = Suc m" using assms(3) by (cases "nat n") auto
  have "pipewrite_loop pi p addr 0 (nat n) (s\<lparr>held := {L_pipe pi}\<rparr>) = Ret None s"
    unfolding m pipewrite_loop.simps bindK_Ret [of "pipewrite_wait pi p", OF w] by simp
  then show ?thesis by (simp add: pipewrite_start(1) [OF assms(1)] pipewrite_end_def)
qed

theorem pipewrite_no_reader_witness:
  "pipewrite 1 0 5 (sample_pipe\<lparr>pipes := (\<lambda>_. (pipes sample_pipe 1)\<lparr>readopen := False\<rparr>)\<rparr>) =
     Ret (-1) (sample_pipe\<lparr>pipes := (\<lambda>_. (pipes sample_pipe 1)\<lparr>readopen := False\<rparr>)\<rparr>)"
proof (rule pipewrite_no_reader)
  let ?s = "sample_pipe\<lparr>pipes := (\<lambda>_. (pipes sample_pipe 1)\<lparr>readopen := False\<rparr>)\<rparr>"
  have "uspace ?s sample_pt sample_pages"
    using sample_pipe_user [of 1] unfolding pipe_user_def at_pipe_def by (auto intro: uspace_cong)
  then show "pipe_user ?s 1 0 sample_pt sample_pages"
    using sample_pipe_user [of 1] by (simp add: pipe_user_def at_pipe_def pipe_inv_def)
qed simp_all

end
