(* ===== verification/File.thy ===== *)
theory File
  imports Fs Console Pipe
begin

text \<open>
  Open files (\<^verbatim>\<open>kernel/file.c\<close>, and \<^verbatim>\<open>pipealloc\<close> of \<^verbatim>\<open>kernel/pipe.c\<close>): a table of reference counted files
  that are a pipe, an inode or a device. The device switch has one entry, the console.
\<close>

section \<open>Operations\<close>

definition CONSOLE :: int where "CONSOLE = 1"

definition getF :: "nat \<Rightarrow> (kfile \<Rightarrow> 'a) \<Rightarrow> 'a K" where
  "getF f g = getK (\<lambda>s. g (ftable s ! f))"

definition modF :: "nat \<Rightarrow> (kfile \<Rightarrow> kfile) \<Rightarrow> unit K" where
  "modF f g = modK (\<lambda>s. s\<lparr>ftable := (ftable s)[f := g (ftable s ! f)]\<rparr>)"

definition fileinit :: "unit K" where
  "fileinit = initlock L_ftable"

definition filealloc :: "nat option K" where
  "filealloc =
     thenK (acquire L_ftable)
    (bindK (loopK [0..<NFILE] (\<lambda>f.
       bindK (getF f fref) (\<lambda>r.
       if r = 0
       then thenK (modF f (\<lambda>q. q\<lparr>fref := 1\<rparr>)) (thenK (release L_ftable) (retK (Some f)))
       else retK None)))
     (\<lambda>r. case r of Some f \<Rightarrow> retK (Some f)
          | None \<Rightarrow> thenK (release L_ftable) (retK None)))"

definition filedup :: "nat \<Rightarrow> nat K" where
  "filedup f =
     thenK (acquire L_ftable)
    (bindK (getF f fref) (\<lambda>r.
     thenK (panic_if (r < 1) ''filedup'')
    (thenK (modF f (\<lambda>q. q\<lparr>fref := fref q + 1\<rparr>))
    (thenK (release L_ftable)
           (retK f)))))"

definition fileclose :: "nat \<Rightarrow> unit K" where
  "fileclose f =
     thenK (acquire L_ftable)
    (bindK (getF f fref) (\<lambda>r.
     thenK (panic_if (r < 1) ''fileclose'')
    (thenK (modF f (\<lambda>q. q\<lparr>fref := fref q - 1\<rparr>))
    (if r - 1 > 0 then release L_ftable
     else
       bindK (getF f (\<lambda>q. q)) (\<lambda>ff.
       thenK (modF f (\<lambda>q. q\<lparr>fref := 0, ftype := FD_NONE\<rparr>))
      (thenK (release L_ftable)
      (if ftype ff = FD_PIPE then pipeclose (fpipe ff) (writable ff \<noteq> 0)
       else if ftype ff = FD_INODE \<or> ftype ff = FD_DEVICE
       then
         (case fip ff of None \<Rightarrow> wildK
          | Some ip \<Rightarrow> thenK begin_op (thenK (iput ip) end_op))
       else retK ())))))))"

definition filestat :: "nat \<Rightarrow> u64 \<Rightarrow> int K" where
  "filestat f addr =
     bindK myproc (\<lambda>p.
     bindK (getF f (\<lambda>q. q)) (\<lambda>q.
     if ftype q = FD_INODE \<or> ftype q = FD_DEVICE
     then
       (case fip q of None \<Rightarrow> panicK ''ilock''
        | Some ip \<Rightarrow>
            thenK (ilock (Some ip))
           (bindK (stati ip) (\<lambda>st.
            thenK (iunlock (Some ip))
           (bindK (getP p ppagetable) (\<lambda>pt.
            bindK (copyout pt addr st) (\<lambda>r.
            retK (if r < 0 then -1 else 0)))))))
     else retK (-1)))"

text \<open>The device switch \<^verbatim>\<open>devsw\<close>: \<^verbatim>\<open>consoleinit\<close> is the only code that fills an entry.\<close>

definition devsw_read :: "int \<Rightarrow> (bool \<Rightarrow> u64 \<Rightarrow> int \<Rightarrow> int K) option" where
  "devsw_read major = (if major = CONSOLE then Some consoleread else None)"

definition devsw_write :: "int \<Rightarrow> (bool \<Rightarrow> u64 \<Rightarrow> int \<Rightarrow> int K) option" where
  "devsw_write major = (if major = CONSOLE then Some consolewrite else None)"

text \<open>
  \<^verbatim>\<open>fileread\<close> and \<^verbatim>\<open>kfileread\<close> differ in the kind of address that an inode is read to, and so do
  \<^verbatim>\<open>filewrite\<close> and \<^verbatim>\<open>kfilewrite\<close>: the common text takes it as an argument.
\<close>

definition fileread_to :: "(u64 \<Rightarrow> dst) \<Rightarrow> nat \<Rightarrow> u64 \<Rightarrow> int \<Rightarrow> int K" where
  "fileread_to D f addr n =
     bindK (getF f (\<lambda>q. q)) (\<lambda>q.
     if readable q = 0 then retK (-1)
     else
       case ftype q of
         FD_PIPE \<Rightarrow> piperead (fpipe q) addr n
       | FD_DEVICE \<Rightarrow>
           if fmajor q < 0 \<or> fmajor q \<ge> NDEV then retK (-1)
           else (case devsw_read (fmajor q) of None \<Rightarrow> retK (-1) | Some rd \<Rightarrow> rd True addr n)
       | FD_INODE \<Rightarrow>
           (case fip q of None \<Rightarrow> panicK ''ilock''
            | Some ip \<Rightarrow>
                thenK (ilock (Some ip))
               (bindK (getF f foff) (\<lambda>off.
                bindK (readi ip (D addr) off (unat (of_int n :: u32))) (\<lambda>(r, bs).
                thenK (whenK (r > 0) (modF f (\<lambda>q. q\<lparr>foff := foff q + nat r\<rparr>)))
               (thenK (iunlock (Some ip))
                      (retK r))))))
       | FD_NONE \<Rightarrow> panicK ''fileread'')"

definition fileread :: "nat \<Rightarrow> u64 \<Rightarrow> int \<Rightarrow> int K" where
  "fileread = fileread_to UDst"

definition kfileread :: "nat \<Rightarrow> u64 \<Rightarrow> int \<Rightarrow> int K" where
  "kfileread = fileread_to KDst"

definition write_max :: nat where
  "write_max = ((MAXOPBLOCKS - 1 - 1 - 2) div 2) * BSIZE"

lemma write_max_value: "write_max = 3072"
  by (simp add: write_max_def MAXOPBLOCKS_def BSIZE_def)

function (sequential) filewrite_loop :: "(u64 \<Rightarrow> src) \<Rightarrow> nat \<Rightarrow> nat \<Rightarrow> u64 \<Rightarrow> nat \<Rightarrow> nat \<Rightarrow> nat K" where
  "filewrite_loop S f ip addr n i =
     (if i < n
      then
        let n1 = min (n - i) write_max in
        thenK begin_op
       (thenK (ilock (Some ip))
       (bindK (getF f foff) (\<lambda>off.
        bindK (writei ip (S (addr + of_nat i)) off n1) (\<lambda>r.
        thenK (whenK (r > 0) (modF f (\<lambda>q. q\<lparr>foff := foff q + nat r\<rparr>)))
       (thenK (iunlock (Some ip))
       (thenK end_op
       (if r \<noteq> int n1 then retK i
        else filewrite_loop S f ip addr n (i + n1))))))))
      else retK i)"
  by pat_completeness auto
termination
  by (relation "measure (\<lambda>(S, f, ip, addr, n, i). n - i)") (auto simp: write_max_value)

declare filewrite_loop.simps [simp del]

definition filewrite_from :: "(u64 \<Rightarrow> src) \<Rightarrow> nat \<Rightarrow> u64 \<Rightarrow> int \<Rightarrow> int K" where
  "filewrite_from S f addr n =
     bindK (getF f (\<lambda>q. q)) (\<lambda>q.
     if writable q = 0 then retK (-1)
     else
       case ftype q of
         FD_PIPE \<Rightarrow> pipewrite (fpipe q) addr n
       | FD_DEVICE \<Rightarrow>
           if fmajor q < 0 \<or> fmajor q \<ge> NDEV then retK (-1)
           else (case devsw_write (fmajor q) of None \<Rightarrow> retK (-1) | Some wr \<Rightarrow> wr True addr n)
       | FD_INODE \<Rightarrow>
           if n \<le> 0 then retK (if n = 0 then 0 else -1)
           else
             (case fip q of None \<Rightarrow> thenK begin_op (panicK ''ilock'')
              | Some ip \<Rightarrow>
                  bindK (filewrite_loop S f ip addr (nat n) 0) (\<lambda>i.
                  retK (if int i = n then n else -1)))
       | FD_NONE \<Rightarrow> panicK ''filewrite'')"

definition filewrite :: "nat \<Rightarrow> u64 \<Rightarrow> int \<Rightarrow> int K" where
  "filewrite = filewrite_from USrc"

definition kfilewrite :: "nat \<Rightarrow> u64 \<Rightarrow> int \<Rightarrow> int K" where
  "kfilewrite = filewrite_from KSrc"

text \<open>\<^verbatim>\<open>pipealloc\<close>: the two ends of a new pipe, or \<open>None\<close>. \<^verbatim>\<open>kalloc\<close> has filled the page with fives.\<close>

definition pipealloc :: "(nat \<times> nat) option K" where
  "pipealloc =
     bindK filealloc (\<lambda>r0.
     case r0 of None \<Rightarrow> retK None
     | Some f0 \<Rightarrow>
         bindK filealloc (\<lambda>r1.
         case r1 of None \<Rightarrow> thenK (fileclose f0) (retK None)
         | Some f1 \<Rightarrow>
             bindK kalloc (\<lambda>pi.
             if pi = 0 then thenK (fileclose f0) (thenK (fileclose f1) (retK None))
             else
               thenK (modPipe pi (\<lambda>q. \<lparr>pdata = replicate PIPESIZE 5, nread = 0, nwrite = 0,
                                       readopen = True, writeopen = True\<rparr>))
              (thenK (initlock (L_pipe pi))
              (thenK (modF f0 (\<lambda>q. q\<lparr>ftype := FD_PIPE, readable := 1, writable := 0, fpipe := pi\<rparr>))
              (thenK (modF f1 (\<lambda>q. q\<lparr>ftype := FD_PIPE, readable := 0, writable := 1, fpipe := pi\<rparr>))
                     (retK (Some (f0, f1)))))))))"

end
