(* ===== verification/Sysfile.thy ===== *)
theory Sysfile
  imports File
begin

text \<open>
  Fetching system call arguments (\<^verbatim>\<open>kernel/syscall.c\<close>) and the file system calls
  (\<^verbatim>\<open>kernel/sysfile.c\<close>), with the part of \<^verbatim>\<open>sys_unlink\<close> that \<^verbatim>\<open>removeSwapFile\<close> repeats as one definition.
  \<^verbatim>\<open>sys_exec\<close> is in the theory Exec. A string argument is the list of bytes copied in, its NUL included.
\<close>

section \<open>System call arguments\<close>

definition fetchaddr :: "u64 \<Rightarrow> (int \<times> u64) K" where
  "fetchaddr addr =
     bindK myproc (\<lambda>p.
     bindK (getP p psz) (\<lambda>sz.
     if addr \<ge> sz \<or> addr + 8 > sz then retK (-1, 0)
     else
       bindK (getP p ppagetable) (\<lambda>pt.
       bindK (copyin pt addr 8) (\<lambda>(r, bs).
       retK (if r \<noteq> 0 then (-1, 0) else (0, le_word bs))))))"

definition fetchstr :: "u64 \<Rightarrow> nat \<Rightarrow> (int \<times> u8 list) K" where
  "fetchstr addr mx =
     bindK myproc (\<lambda>p.
     bindK (getP p ppagetable) (\<lambda>pt.
     bindK (copyinstr pt addr mx) (\<lambda>(err, buf).
     retK (if err < 0 then (err, buf) else (int (strlen buf), buf)))))"

definition argraw :: "nat \<Rightarrow> u64 K" where
  "argraw n =
     bindK myproc (\<lambda>p.
     bindK (getP p trapframe) (\<lambda>tf.
     if n < 6 then rd64 (tf + TF_a n) else panicK ''argraw''))"

definition argint :: "nat \<Rightarrow> int K" where
  "argint n = bindK (argraw n) (\<lambda>v. retK (sint (ucast v :: u32)))"

definition argaddr :: "nat \<Rightarrow> u64 K" where
  "argaddr n = argraw n"

definition argstr :: "nat \<Rightarrow> nat \<Rightarrow> (int \<times> u8 list) K" where
  "argstr n mx = bindK (argaddr n) (\<lambda>addr. fetchstr addr mx)"

section \<open>File descriptors\<close>

definition argfd :: "nat \<Rightarrow> (nat \<times> nat) option K" where
  "argfd n =
     bindK (argint n) (\<lambda>fd.
     if fd < 0 \<or> fd \<ge> int NOFILE then retK None
     else
       bindK myproc (\<lambda>p.
       bindK (getP p ofile) (\<lambda>fs.
       retK (case fs ! nat fd of None \<Rightarrow> None | Some f \<Rightarrow> Some (nat fd, f)))))"

definition fdalloc :: "nat \<Rightarrow> int K" where
  "fdalloc f =
     bindK myproc (\<lambda>p.
     bindK (loopK [0..<NOFILE] (\<lambda>fd.
       bindK (getP p ofile) (\<lambda>fs.
       if fs ! fd = None
       then thenK (modP p (\<lambda>q. q\<lparr>ofile := (ofile q)[fd := Some f]\<rparr>)) (retK (Some (int fd)))
       else retK None)))
     (\<lambda>r. retK (case r of Some fd \<Rightarrow> fd | None \<Rightarrow> -1)))"

definition clear_fd :: "nat \<Rightarrow> nat \<Rightarrow> unit K" where
  "clear_fd p fd = modP p (\<lambda>q. q\<lparr>ofile := (ofile q)[fd := None]\<rparr>)"

definition sys_dup :: "u64 K" where
  "sys_dup =
     bindK (argfd 0) (\<lambda>r.
     case r of None \<Rightarrow> retK (-1)
     | Some (_, f) \<Rightarrow>
         bindK (fdalloc f) (\<lambda>fd.
         if fd < 0 then retK (-1)
         else thenK (filedup f) (retK (of_int fd))))"

definition sys_read :: "u64 K" where
  "sys_read =
     bindK (argfd 0) (\<lambda>r.
     case r of None \<Rightarrow> retK (-1)
     | Some (_, f) \<Rightarrow>
         bindK (argint 2) (\<lambda>n.
         bindK (argaddr 1) (\<lambda>a.
         bindK (fileread f a n) (\<lambda>v. retK (of_int v)))))"

definition sys_write :: "u64 K" where
  "sys_write =
     bindK (argfd 0) (\<lambda>r.
     case r of None \<Rightarrow> retK (-1)
     | Some (_, f) \<Rightarrow>
         bindK (argint 2) (\<lambda>n.
         bindK (argaddr 1) (\<lambda>a.
         bindK (filewrite f a n) (\<lambda>v. retK (of_int v)))))"

definition sys_close :: "u64 K" where
  "sys_close =
     bindK (argfd 0) (\<lambda>r.
     case r of None \<Rightarrow> retK (-1)
     | Some (fd, f) \<Rightarrow>
         bindK myproc (\<lambda>p.
         thenK (clear_fd p fd)
        (thenK (fileclose f)
               (retK 0))))"

definition sys_fstat :: "u64 K" where
  "sys_fstat =
     bindK (argfd 0) (\<lambda>r.
     case r of None \<Rightarrow> retK (-1)
     | Some (_, f) \<Rightarrow>
         bindK (argaddr 1) (\<lambda>st.
         bindK (filestat f st) (\<lambda>v. retK (of_int v))))"

section \<open>Links\<close>

definition sys_link_bad :: "nat \<Rightarrow> u64 K" where
  "sys_link_bad ip =
     thenK (ilock (Some ip))
    (thenK (modI ip (\<lambda>q. q\<lparr>inlink := inlink q - 1\<rparr>))
    (thenK (iupdate ip)
    (thenK (iunlockput ip)
    (thenK end_op
           (retK (-1))))))"

definition sys_link :: "u64 K" where
  "sys_link =
     bindK (argstr 0 MAXPATH) (\<lambda>(r0, old).
     if r0 < 0 then retK (-1)
     else
     bindK (argstr 1 MAXPATH) (\<lambda>(r1, new).
     if r1 < 0 then retK (-1)
     else
       thenK begin_op
      (bindK (namei old) (\<lambda>oi.
       case oi of None \<Rightarrow> thenK end_op (retK (-1))
       | Some ip \<Rightarrow>
           thenK (ilock (Some ip))
          (bindK (getI ip itype) (\<lambda>ty.
           if ty = T_DIR then thenK (iunlockput ip) (thenK end_op (retK (-1)))
           else
             thenK (modI ip (\<lambda>q. q\<lparr>inlink := inlink q + 1\<rparr>))
            (thenK (iupdate ip)
            (thenK (iunlock (Some ip))
            (bindK (nameiparent new) (\<lambda>(di, name).
             case di of None \<Rightarrow> sys_link_bad ip
             | Some dp \<Rightarrow>
                 thenK (ilock (Some dp))
                (bindK (getI dp idev) (\<lambda>ddev.
                 bindK (getI ip (\<lambda>q. (idev q, inum q))) (\<lambda>(dev, ino).
                 bindK (if ddev \<noteq> dev then retK (-1) else dirlink dp name ino) (\<lambda>r.
                 if r < 0 then thenK (iunlockput dp) (sys_link_bad ip)
                 else
                   thenK (iunlockput dp)
                  (thenK (iput ip)
                  (thenK end_op
                         (retK 0)))))))))))))))))"

definition isdirempty :: "nat \<Rightarrow> bool K" where
  "isdirempty dp =
     bindK (getI dp isize) (\<lambda>sz.
     bindK (loopK (drop 2 (dirent_offsets sz)) (\<lambda>off.
       bindK (readi dp LDst off DIRENT_SIZE) (\<lambda>(r, de).
       thenK (panic_if (r \<noteq> int DIRENT_SIZE) ''isdirempty: readi'')
             (retK (if de_inum de \<noteq> 0 then Some False else None)))))
     (\<lambda>r. retK (case r of Some b \<Rightarrow> b | None \<Rightarrow> True)))"

text \<open>Lines 195-238 of \<^verbatim>\<open>sys_unlink\<close>, which are also lines 693-736 of \<^verbatim>\<open>removeSwapFile\<close>.\<close>

definition unlink_path :: "u8 list \<Rightarrow> int K" where
  "unlink_path path =
     thenK begin_op
    (bindK (nameiparent path) (\<lambda>(di, name).
     case di of None \<Rightarrow> thenK end_op (retK (-1))
     | Some dp \<Rightarrow>
         let bad = thenK (iunlockput dp) (thenK end_op (retK (-1))) in
         thenK (ilock (Some dp))
        (if namecmp name (str ''.'') = 0 \<or> namecmp name (str ''..'') = 0 then bad
         else
           bindK (dirlookup dp name) (\<lambda>e.
           case e of None \<Rightarrow> bad
           | Some (ip, off) \<Rightarrow>
               thenK (ilock (Some ip))
              (bindK (getI ip inlink) (\<lambda>nl.
               thenK (panic_if (nl < 1) ''unlink: nlink < 1'')
              (bindK (getI ip itype) (\<lambda>ty.
               bindK (if ty = T_DIR then isdirempty ip else retK True) (\<lambda>empty.
               if \<not> empty then thenK (iunlockput ip) bad
               else
                 bindK (writei dp (LSrc (replicate DIRENT_SIZE 0)) off DIRENT_SIZE) (\<lambda>w.
                 thenK (panic_if (w \<noteq> int DIRENT_SIZE) ''unlink: writei'')
                (thenK (whenK (ty = T_DIR)
                         (thenK (modI dp (\<lambda>q. q\<lparr>inlink := inlink q - 1\<rparr>)) (iupdate dp)))
                (thenK (iunlockput dp)
                (thenK (modI ip (\<lambda>q. q\<lparr>inlink := inlink q - 1\<rparr>))
                (thenK (iupdate ip)
                (thenK (iunlockput ip)
                (thenK end_op
                       (retK 0)))))))))))))))))"

definition sys_unlink :: "u64 K" where
  "sys_unlink =
     bindK (argstr 0 MAXPATH) (\<lambda>(r, path).
     if r < 0 then retK (-1)
     else bindK (unlink_path path) (\<lambda>v. retK (of_int v)))"

section \<open>Creating and opening\<close>

text \<open>Conversion to \<^verbatim>\<open>short\<close>.\<close>

definition short :: "int \<Rightarrow> int" where
  "short i = sint (of_int i :: u16)"

definition create :: "u8 list \<Rightarrow> int \<Rightarrow> int \<Rightarrow> int \<Rightarrow> nat option K" where
  "create path type major minor =
     bindK (nameiparent path) (\<lambda>(di, name).
     case di of None \<Rightarrow> retK None
     | Some dp \<Rightarrow>
         thenK (ilock (Some dp))
        (bindK (dirlookup dp name) (\<lambda>e.
         case e of
           Some (ip, off) \<Rightarrow>
             thenK (iunlockput dp)
            (thenK (ilock (Some ip))
            (bindK (getI ip itype) (\<lambda>ty.
             if type = T_FILE \<and> (ty = T_FILE \<or> ty = T_DEVICE) then retK (Some ip)
             else thenK (iunlockput ip) (retK None))))
         | None \<Rightarrow>
             bindK (getI dp idev) (\<lambda>dev.
             bindK (ialloc dev type) (\<lambda>ip.
             thenK (ilock (Some ip))
            (thenK (modI ip (\<lambda>q. q\<lparr>imajor := short major, iminor := short minor, inlink := 1\<rparr>))
            (thenK (iupdate ip)
            (bindK (getI ip inum) (\<lambda>ino.
             thenK (whenK (type = T_DIR)
                (thenK (modI dp (\<lambda>q. q\<lparr>inlink := inlink q + 1\<rparr>))
                (thenK (iupdate dp)
                (bindK (dirlink ip (str ''.'') ino) (\<lambda>r.
                 thenK (panic_if (r < 0) ''create dots'')
                (bindK (getI dp inum) (\<lambda>dino.
                 bindK (dirlink ip (str ''..'') dino) (\<lambda>r.
                 panic_if (r < 0) ''create dots''))))))))
            (bindK (dirlink dp name ino) (\<lambda>r.
             thenK (panic_if (r < 0) ''create: dirlink'')
            (thenK (iunlockput dp)
                   (retK (Some ip))))))))))))))"

definition O_RDONLY :: int where "O_RDONLY = 0"

text \<open>The mode bits \<^verbatim>\<open>O_WRONLY\<close>, \<^verbatim>\<open>O_RDWR\<close>, \<^verbatim>\<open>O_CREATE\<close>, \<^verbatim>\<open>O_TRUNC\<close> by their position.\<close>

definition omode_bit :: "int \<Rightarrow> nat \<Rightarrow> bool" where
  "omode_bit omode k = bit (of_int omode :: u32) k"

definition B_WRONLY :: nat where "B_WRONLY = 0"
definition B_RDWR :: nat where "B_RDWR = 1"
definition B_CREATE :: nat where "B_CREATE = 9"
definition B_TRUNC :: nat where "B_TRUNC = 10"

definition sys_open_inode :: "u8 list \<Rightarrow> int \<Rightarrow> nat option K" where
  "sys_open_inode path omode =
     (if omode_bit omode B_CREATE then create path T_FILE 0 0
      else
        bindK (namei path) (\<lambda>oi.
        case oi of None \<Rightarrow> retK None
        | Some ip \<Rightarrow>
            thenK (ilock (Some ip))
           (bindK (getI ip itype) (\<lambda>ty.
            if ty = T_DIR \<and> omode \<noteq> O_RDONLY then thenK (iunlockput ip) (retK None)
            else retK (Some ip)))))"

definition sys_open :: "u64 K" where
  "sys_open =
     bindK (argstr 0 MAXPATH) (\<lambda>(n, path).
     if n < 0 then retK (-1)
     else
     bindK (argint 1) (\<lambda>omode.
     thenK begin_op
    (bindK (sys_open_inode path omode) (\<lambda>oi.
     case oi of None \<Rightarrow> thenK end_op (retK (-1))
     | Some ip \<Rightarrow>
         bindK (getI ip (\<lambda>q. (itype q, imajor q))) (\<lambda>(ty, major).
         let bad = thenK (iunlockput ip) (thenK end_op (retK (-1))) in
         if ty = T_DEVICE \<and> (major < 0 \<or> major \<ge> NDEV) then bad
         else
           bindK filealloc (\<lambda>fo.
           case fo of None \<Rightarrow> bad
           | Some f \<Rightarrow>
               bindK (fdalloc f) (\<lambda>fd.
               if fd < 0 then thenK (fileclose f) bad
               else
                 thenK (modF f (\<lambda>q.
                   (if ty = T_DEVICE then q\<lparr>ftype := FD_DEVICE, fmajor := major\<rparr>
                    else q\<lparr>ftype := FD_INODE, foff := 0\<rparr>)
                   \<lparr>fip := Some ip,
                    readable := of_bool (\<not> omode_bit omode B_WRONLY),
                    writable := of_bool (omode_bit omode B_WRONLY \<or> omode_bit omode B_RDWR)\<rparr>))
                (thenK (whenK (omode_bit omode B_TRUNC \<and> ty = T_FILE) (itrunc ip))
                (thenK (iunlock (Some ip))
                (thenK end_op
                       (retK (of_int fd))))))))))))"

definition sys_mkdir :: "u64 K" where
  "sys_mkdir =
     thenK begin_op
    (bindK (argstr 0 MAXPATH) (\<lambda>(r, path).
     bindK (if r < 0 then retK None else create path T_DIR 0 0) (\<lambda>oi.
     case oi of None \<Rightarrow> thenK end_op (retK (-1))
     | Some ip \<Rightarrow> thenK (iunlockput ip) (thenK end_op (retK 0)))))"

definition sys_mknod :: "u64 K" where
  "sys_mknod =
     thenK begin_op
    (bindK (argstr 0 MAXPATH) (\<lambda>(r, path).
     bindK (if r < 0 then retK None
            else bindK (argint 1) (\<lambda>major. bindK (argint 2) (\<lambda>minor.
                 create path T_DEVICE major minor))) (\<lambda>oi.
     case oi of None \<Rightarrow> thenK end_op (retK (-1))
     | Some ip \<Rightarrow> thenK (iunlockput ip) (thenK end_op (retK 0)))))"

definition sys_chdir :: "u64 K" where
  "sys_chdir =
     bindK myproc (\<lambda>p.
     thenK begin_op
    (bindK (argstr 0 MAXPATH) (\<lambda>(r, path).
     bindK (if r < 0 then retK None else namei path) (\<lambda>oi.
     case oi of None \<Rightarrow> thenK end_op (retK (-1))
     | Some ip \<Rightarrow>
         thenK (ilock (Some ip))
        (bindK (getI ip itype) (\<lambda>ty.
         if ty \<noteq> T_DIR then thenK (iunlockput ip) (thenK end_op (retK (-1)))
         else
           thenK (iunlock (Some ip))
          (bindK (getP p cwd) (\<lambda>c.
           thenK (case c of None \<Rightarrow> wildK | Some i \<Rightarrow> iput i)
          (thenK end_op
          (thenK (modP p (\<lambda>q. q\<lparr>cwd := Some ip\<rparr>))
                 (retK 0)))))))))))"

definition int_bytes :: "int \<Rightarrow> u8 list" where
  "int_bytes i = le_bytes 4 (of_int i :: u32)"

definition sys_pipe :: "u64 K" where
  "sys_pipe =
     bindK myproc (\<lambda>p.
     bindK (argaddr 0) (\<lambda>fdarray.
     bindK pipealloc (\<lambda>r.
     case r of None \<Rightarrow> retK (-1)
     | Some (rf, wfile) \<Rightarrow>
         let bad = thenK (fileclose rf) (thenK (fileclose wfile) (retK (-1))) in
         bindK (fdalloc rf) (\<lambda>fd0.
         if fd0 < 0 then bad
         else
           bindK (fdalloc wfile) (\<lambda>fd1.
           if fd1 < 0 then thenK (clear_fd p (nat fd0)) bad
           else
             bindK (getP p ppagetable) (\<lambda>pt.
             bindK (copyout pt fdarray (int_bytes fd0)) (\<lambda>c0.
             bindK (if c0 < 0 then retK (-1) else copyout pt (fdarray + 4) (int_bytes fd1)) (\<lambda>c1.
             if c1 < 0
             then thenK (clear_fd p (nat fd0)) (thenK (clear_fd p (nat fd1)) bad)
             else retK 0))))))))"

end
