(* ===== verification/SwapFile.thy ===== *)
theory SwapFile
  imports Sysfile
begin

text \<open>
  The swap file of a process (end of \<^verbatim>\<open>kernel/fs.c\<close>): the file \<^verbatim>\<open>/.swap<pid>\<close>, in which page slot \<open>i\<close>
  occupies the bytes from \<open>PGSIZE * i\<close>, and the metadata \<open>file_pages\<close> that says which page is in
  which slot.
\<close>

section \<open>Operations\<close>

definition FILE_PAGES :: nat where
  "FILE_PAGES = MAX_TOTAL_PAGES - MAX_PYSC_PAGES"

text \<open>
  The local array \<^verbatim>\<open>path[DIGITS]\<close> has room for \<^verbatim>\<open>"/.swap"\<close>, the number and its NUL; a longer number
  is stored past its end.
\<close>

definition swap_path :: "int \<Rightarrow> u8 list K" where
  "swap_path pd =
     (let path = str ''/.swap'' @ itoa pd @ [0] in
      if length path > DIGITS then wildK else retK path)"

definition removeSwapFile :: "nat \<Rightarrow> int K" where
  "removeSwapFile p =
     bindK (getP p pid) (\<lambda>pd.
     bindK (swap_path pd) (\<lambda>path.
     bindK (getP p swapFile) (\<lambda>sf.
     case sf of None \<Rightarrow> retK (-1)
     | Some f \<Rightarrow> thenK (fileclose f) (unlink_path path))))"

definition createSwapFile :: "nat \<Rightarrow> int K" where
  "createSwapFile p =
     bindK (getP p pid) (\<lambda>pd.
     bindK (swap_path pd) (\<lambda>path.
     thenK begin_op
    (bindK (create path T_FILE 0 0) (\<lambda>oi.
     thenK (iunlock oi)
    (bindK filealloc (\<lambda>fo.
     thenK (modP p (\<lambda>q. q\<lparr>swapFile := fo\<rparr>))
    (case fo of None \<Rightarrow> panicK ''no slot for files on /store''
     | Some f \<Rightarrow>
         thenK (modF f (\<lambda>q. q\<lparr>fip := oi, ftype := FD_INODE, foff := 0, readable := 1, writable := 2\<rparr>))
        (thenK end_op
               (retK 0)))))))))"

definition writeToSwapFile :: "nat \<Rightarrow> u64 \<Rightarrow> nat \<Rightarrow> nat \<Rightarrow> int K" where
  "writeToSwapFile p buffer placeOnFile size_b =
     bindK (getP p swapFile) (\<lambda>sf.
     case sf of None \<Rightarrow> wildK
     | Some f \<Rightarrow> thenK (modF f (\<lambda>q. q\<lparr>foff := placeOnFile\<rparr>)) (kfilewrite f buffer (int size_b)))"

definition readFromSwapFile :: "nat \<Rightarrow> u64 \<Rightarrow> nat \<Rightarrow> nat \<Rightarrow> int K" where
  "readFromSwapFile p buffer placeOnFile size_b =
     bindK (getP p swapFile) (\<lambda>sf.
     case sf of None \<Rightarrow> wildK
     | Some f \<Rightarrow> thenK (modF f (\<lambda>q. q\<lparr>foff := placeOnFile\<rparr>)) (kfileread f buffer (int size_b)))"

definition PGSIZE_n :: nat where "PGSIZE_n = unat PGSIZE"

definition copy_swap_slot :: "nat \<Rightarrow> nat \<Rightarrow> u64 \<Rightarrow> nat \<Rightarrow> unit K" where
  "copy_swap_slot p_source p_target buffer i =
     bindK (getP p_source (\<lambda>q. pm_state (file_pages q ! i))) (\<lambda>st.
     whenK (st = P_USED)
      (bindK (readFromSwapFile p_source buffer (PGSIZE_n * i) PGSIZE_n) (\<lambda>r.
       thenK (whenK (r \<noteq> int PGSIZE_n)
         (kprintf ''CopySwapFile readFromSwapFile error, read: %d bits\<newline>'' [VWord (of_int r)]))
      (bindK (writeToSwapFile p_target buffer (PGSIZE_n * i) PGSIZE_n) (\<lambda>r.
       whenK (r \<noteq> int PGSIZE_n)
         (kprintf ''CopySwapFile writeToSwapFile error, write: %d bits\<newline>'' [VWord (of_int r)]))))))"

definition copy_swap_file :: "nat \<Rightarrow> nat \<Rightarrow> unit K" where
  "copy_swap_file p_source p_target =
     bindK (getP p_source pid) (\<lambda>pd.
     if pd < 3 then retK ()
     else
       bindK kalloc (\<lambda>buffer.
       thenK (forK [0..<FILE_PAGES] (copy_swap_slot p_source p_target buffer))
             (kfree buffer)))"

text \<open>\<open>None\<close> is the result -1.\<close>

fun first_unused :: "page_metadata list \<Rightarrow> nat option" where
  "first_unused [] = None"
| "first_unused (m # ms) = (if pm_state m = P_UNUSED then Some 0 else map_option Suc (first_unused ms))"

definition get_free_file_index :: "nat \<Rightarrow> nat option K" where
  "get_free_file_index p = getP p (\<lambda>q. first_unused (take FILE_PAGES (file_pages q)))"

text \<open>
  With a full table the index is -1: the offset \<^verbatim>\<open>PGSIZE * -1\<close> is refused by \<^verbatim>\<open>writei\<close>, so the metadata at
  index -1 is not reached.
\<close>

definition write_page_to_file :: "nat \<Rightarrow> u64 \<Rightarrow> u64 \<Rightarrow> int K" where
  "write_page_to_file p va pt =
     bindK (get_free_file_index p) (\<lambda>fi.
     bindK (walk pt va False) (\<lambda>pte.
     if pte = 0 then wildK
     else
       bindK (rd64 pte) (\<lambda>e.
       let off = (case fi of Some i \<Rightarrow> PGSIZE_n * i | None \<Rightarrow> unat (- ucast PGSIZE :: u32)) in
       bindK (writeToSwapFile p (PTE2PA e) off PGSIZE_n) (\<lambda>r.
       if r = -1 then retK (-1)
       else
         (case fi of None \<Rightarrow> wildK
          | Some i \<Rightarrow>
              thenK (modP p (\<lambda>q. q\<lparr>
                file_pages := (file_pages q)[i := (file_pages q ! i)
                   \<lparr>pm_state := P_USED, user_page_VA := va, page_order := 0\<rparr>],
                pages_in_file_counter := pages_in_file_counter q + 1,
                pages_in_memory_counter := pages_in_memory_counter q - 1\<rparr>))
              (retK r))))))"

text \<open>The slot that \<^verbatim>\<open>read_page_from_file\<close> takes is the first with the address, used or not.\<close>

definition read_page_from_file :: "nat \<Rightarrow> nat \<Rightarrow> u64 \<Rightarrow> u64 \<Rightarrow> int K" where
  "read_page_from_file p memory_index va buff =
     bindK (loopK [0..<FILE_PAGES] (\<lambda>i.
       bindK (getP p (\<lambda>q. user_page_VA (file_pages q ! i))) (\<lambda>v.
       if v = va
       then
         bindK (readFromSwapFile p buff (i * PGSIZE_n) PGSIZE_n) (\<lambda>r.
         if r = -1 then retK (Some (-1))
         else
           thenK (modP p (\<lambda>q. q\<lparr>
             memory_pages := (memory_pages q)[memory_index :=
               (file_pages q ! i)\<lparr>page_order := ucast (page_order_counter q)\<rparr>],
             page_order_counter := page_order_counter q + 1,
             file_pages := (file_pages q)[i := (file_pages q ! i)\<lparr>pm_state := P_UNUSED\<rparr>],
             pages_in_file_counter := pages_in_file_counter q - 1,
             pages_in_memory_counter := pages_in_memory_counter q + 1\<rparr>))
           (retK (Some r)))
       else retK None)))
     (\<lambda>r. retK (case r of Some v \<Rightarrow> v | None \<Rightarrow> -1))"

end
