(* ===== verification/Paging.thy ===== *)
theory Paging
  imports SwapFile "HOL-Library.Multiset"
begin

text \<open>
  Demand paging (\<^verbatim>\<open>kernel/vm.c\<close>): the metadata of the resident pages, the replacement policies, the
  page fault handler's \<^verbatim>\<open>get_page_from_file\<close>, and the operations on user address spaces, which swap pages
  out when a process grows beyond \<^verbatim>\<open>MAX_PYSC_PAGES\<close> resident pages. An index of -1 into the
  metadata is a wild access.
\<close>

section \<open>Metadata of resident pages\<close>

definition modM :: "nat \<Rightarrow> nat \<Rightarrow> (page_metadata \<Rightarrow> page_metadata) \<Rightarrow> unit K" where
  "modM p i f = modP p (\<lambda>q. q\<lparr>memory_pages := (memory_pages q)[i := f (memory_pages q ! i)]\<rparr>)"

definition get_free_memory_page_index :: "nat option K" where
  "get_free_memory_page_index =
     bindK (getK cur) (\<lambda>c.
     case c of None \<Rightarrow> retK None
     | Some p \<Rightarrow> getP p (\<lambda>q. first_unused (take MAX_PYSC_PAGES (memory_pages q))))"

definition pte_page_out :: "u64 \<Rightarrow> u64" where
  "pte_page_out e = ((e AND PTE_FLAGS e) OR PTE_PG) AND NOT PTE_V"

definition update_page_out_pte :: "u64 \<Rightarrow> u64 \<Rightarrow> unit K" where
  "update_page_out_pte pt va =
     bindK (walk pt va False) (\<lambda>pte.
     thenK (panic_if (pte = 0) ''PTE of swapped out page is missing\<newline>'')
    (bindK (rd64 pte) (\<lambda>e. wr64 pte (pte_page_out e))))"

definition pte_page_in :: "u64 \<Rightarrow> u64 \<Rightarrow> u64" where
  "pte_page_in e pa =
     (e OR PA2PTE pa OR (PTE_W OR PTE_X OR PTE_R OR PTE_U OR PTE_V)) AND NOT PTE_PG"

text \<open>The value that a policy gives to the access counter of a page that comes into memory.\<close>

definition fresh_count :: "policy \<Rightarrow> u32 \<Rightarrow> u32" where
  "fresh_count sel old = (if sel = NFUA then 0 else if sel = LAPA then 0xFFFFFFFF else old)"

definition update_page_in_pte :: "u64 \<Rightarrow> u64 \<Rightarrow> u64 \<Rightarrow> nat \<Rightarrow> unit K" where
  "update_page_in_pte pt va pa index =
     bindK (walk pt va False) (\<lambda>pte.
     thenK (panic_if (pte = 0) ''PTE of swapped in page is missing\<newline>'')
    (bindK (rd64 pte) (\<lambda>e.
     thenK (panic_if (e AND PTE_V \<noteq> 0) ''in update_paged_in_flags page is Valid!\<newline>'')
    (thenK (wr64 pte (pte_page_in e pa))
    (bindK (getK selection) (\<lambda>sel.
     whenK (sel = NFUA \<or> sel = LAPA)
       (bindK myproc (\<lambda>p.
        modM p index (\<lambda>q. q\<lparr>access_count := fresh_count sel (access_count q)\<rparr>)))))))))"

definition add_to_memory_page_metadata :: "u64 \<Rightarrow> u64 \<Rightarrow> unit K" where
  "add_to_memory_page_metadata pt va =
     bindK myproc (\<lambda>p.
     bindK get_free_memory_page_index (\<lambda>fi.
     case fi of None \<Rightarrow> wildK
     | Some i \<Rightarrow>
         bindK (getK selection) (\<lambda>sel.
         modP p (\<lambda>q. q\<lparr>
           memory_pages := (memory_pages q)[i := (memory_pages q ! i)
             \<lparr>pm_state := P_USED, user_page_VA := va, page_order := ucast (page_order_counter q),
              access_count := fresh_count sel (access_count (memory_pages q ! i))\<rparr>],
           page_order_counter := page_order_counter q + 1,
           pages_in_memory_counter := pages_in_memory_counter q + 1\<rparr>))))"

definition page_in_file :: "u64 \<Rightarrow> u64 \<Rightarrow> bool K" where
  "page_in_file va pt =
     bindK (walk pt va False) (\<lambda>pte.
     if pte = 0 then wildK
     else bindK (rd64 pte) (\<lambda>e. retK (e AND PTE_PG \<noteq> 0)))"

definition clear_meta :: "page_metadata \<Rightarrow> page_metadata" where
  "clear_meta m = m\<lparr>access_count := 0, page_order := 0, pm_state := P_UNUSED\<rparr>"

text \<open>The position of the used entry for an address, as the two removal loops look for it.\<close>

fun find_meta :: "u64 \<Rightarrow> page_metadata list \<Rightarrow> nat option" where
  "find_meta va [] = None"
| "find_meta va (m # ms) =
     (if pm_state m = P_USED \<and> user_page_VA m = va then Some 0 else map_option Suc (find_meta va ms))"

definition remove_from_memory_meta_data :: "u64 \<Rightarrow> u64 \<Rightarrow> unit K" where
  "remove_from_memory_meta_data va pt =
     bindK myproc (\<lambda>p.
     bindK (getP p (\<lambda>q. q)) (\<lambda>q.
     case find_meta va (take MAX_PYSC_PAGES (memory_pages q)) of
       None \<Rightarrow> retK ()
     | Some i \<Rightarrow>
         whenK (ppagetable q = pt)
           (modP p (\<lambda>q. q\<lparr>memory_pages := (memory_pages q)[i := clear_meta (memory_pages q ! i)],
                          pages_in_memory_counter := pages_in_memory_counter q - 1\<rparr>))))"

definition remove_from_file_meta_data :: "u64 \<Rightarrow> u64 \<Rightarrow> unit K" where
  "remove_from_file_meta_data va pt =
     bindK myproc (\<lambda>p.
     bindK (getP p (\<lambda>q. q)) (\<lambda>q.
     case find_meta va (take FILE_PAGES (file_pages q)) of
       None \<Rightarrow> retK ()
     | Some i \<Rightarrow>
         whenK (ppagetable q = pt)
           (modP p (\<lambda>q. q\<lparr>file_pages := (file_pages q)[i := clear_meta (file_pages q ! i)],
                          pages_in_file_counter := pages_in_file_counter q - 1\<rparr>))))"

section \<open>Replacement policies\<close>

definition age_hit :: u32 where "age_hit = 0x80000000"

text \<open>One turn of the loop of \<^verbatim>\<open>update_access_counter\<close>.\<close>

definition age_page :: "nat \<Rightarrow> nat \<Rightarrow> unit K" where
  "age_page p i =
     bindK (getP p (\<lambda>q. (ppagetable q, memory_pages q ! i))) (\<lambda>(pt, m).
     whenK (pm_state m = P_USED)
       (thenK (modM p i (\<lambda>q. q\<lparr>access_count := drop_bit 1 (access_count q)\<rparr>))
       (bindK (walk pt (user_page_VA m) False) (\<lambda>pte.
        if pte = 0 then wildK
        else
          bindK (rd64 pte) (\<lambda>e.
          whenK (e AND PTE_A \<noteq> 0)
            (thenK (modM p i (\<lambda>q. q\<lparr>access_count := access_count q OR age_hit\<rparr>))
                   (wr64 pte (e AND NOT PTE_A))))))))"

definition update_access_counter :: "nat \<Rightarrow> unit K" where
  "update_access_counter p = forK [0..<MAX_PYSC_PAGES] (age_page p)"

function num_of_ones :: "u32 \<Rightarrow> nat" where
  "num_of_ones w =
     (if w = 0 then 0 else (if w mod 2 \<noteq> 0 then 1 else 0) + num_of_ones (w div 2))"
  by pat_completeness auto
termination
proof (relation "measure unat")
  fix w :: u32
  assume "w \<noteq> 0"
  then have "0 < unat w" by (simp add: unat_gt_0)
  then show "(w div 2, w) \<in> measure unat" by (simp add: unat_div)
qed simp

declare num_of_ones.simps [simp del]

text \<open>One turn of the loop of \<^verbatim>\<open>SCFIFO_algorithm\<close>: the index and the order found so far.\<close>

definition scfifo_scan :: "page_metadata list \<Rightarrow> nat option \<times> u64" where
  "scfifo_scan ms =
     fold (\<lambda>(i, m) (best, order).
       if pm_state m = P_USED \<and> ucast (page_order m) \<le> order then (Some i, ucast (page_order m))
       else (best, order)) (enumerate 0 ms) (None, 0xffffffff)"

text \<open>
  The \<^verbatim>\<open>goto recheck\<close> as fuel. Each turn but the last clears the accessed bit of one resident page, so
  one turn more than there are pages is enough; running out of fuel is the value \<open>panicK ''fuel''\<close>.
\<close>

primrec scfifo_loop :: "nat \<Rightarrow> nat \<Rightarrow> nat K" where
  "scfifo_loop p 0 = panicK ''fuel''"
| "scfifo_loop p (Suc k) =
     bindK (getP p (\<lambda>q. q)) (\<lambda>q.
     case fst (scfifo_scan (take MAX_PYSC_PAGES (memory_pages q))) of
       None \<Rightarrow> wildK
     | Some i \<Rightarrow>
         bindK (walk (ppagetable q) (user_page_VA (memory_pages q ! i)) False) (\<lambda>pte.
         if pte = 0 then wildK
         else
           bindK (rd64 pte) (\<lambda>e.
           if e AND PTE_A \<noteq> 0
           then
             thenK (wr64 pte (e AND NOT PTE_A))
            (thenK (modP p (\<lambda>q. q\<lparr>
                memory_pages := (memory_pages q)[i := (memory_pages q ! i)
                  \<lparr>page_order := ucast (page_order_counter q)\<rparr>],
                page_order_counter := page_order_counter q + 1\<rparr>))
                   (scfifo_loop p k))
           else retK i)))"

definition SCFIFO_algorithm :: "nat K" where
  "SCFIFO_algorithm = bindK myproc (\<lambda>p. scfifo_loop p (Suc MAX_PYSC_PAGES))"

definition nfua_scan :: "page_metadata list \<Rightarrow> nat option \<times> u32" where
  "nfua_scan ms =
     fold (\<lambda>(i, m) (page_index, best).
       if pm_state m = P_USED \<and> access_count m < best then (Some i, access_count m)
       else (page_index, best)) (enumerate 0 ms) (None, 0xFFFFFFFF)"

definition NFUA_algorithm :: "nat option K" where
  "NFUA_algorithm =
     bindK myproc (\<lambda>p. getP p (\<lambda>q. fst (nfua_scan (take MAX_PYSC_PAGES (memory_pages q)))))"

definition lapa_scan :: "page_metadata list \<Rightarrow> nat option \<times> nat" where
  "lapa_scan ms =
     fold (\<lambda>(i, m) (page_index, best).
       let curr = num_of_ones (access_count m) in
       if pm_state m = P_USED \<and>
          (curr < best \<or>
           curr = best \<and> (case page_index of None \<Rightarrow> False
                          | Some j \<Rightarrow> access_count m < access_count (ms ! j)))
       then (Some i, curr) else (page_index, best)) (enumerate 0 ms) (None, 0xFFFFFFFF)"

definition LAPA_algorithm :: "nat option K" where
  "LAPA_algorithm =
     bindK myproc (\<lambda>p. getP p (\<lambda>q. fst (lapa_scan (take MAX_PYSC_PAGES (memory_pages q)))))"

definition first_only_algorithm :: "nat K" where
  "first_only_algorithm = retK 0"

definition some_index :: "nat option \<Rightarrow> nat K" where
  "some_index r = (case r of None \<Rightarrow> wildK | Some i \<Rightarrow> retK i)"

text \<open>The conditional compilation, one branch per policy; -1 is used as an index by every caller.\<close>

definition get_swap_out_page_index :: "nat K" where
  "get_swap_out_page_index =
     bindK (getK selection) (\<lambda>sel.
     case sel of
       SCFIFO \<Rightarrow> SCFIFO_algorithm
     | LAPA \<Rightarrow> bindK myproc (\<lambda>p. thenK (update_access_counter p) (bindK LAPA_algorithm some_index))
     | NFUA \<Rightarrow> bindK myproc (\<lambda>p. thenK (update_access_counter p) (bindK NFUA_algorithm some_index))
     | DEBUG \<Rightarrow> first_only_algorithm
     | NONE \<Rightarrow> panicK ''Unrecognized paging machanism''
     | OTHER_SELECTION \<Rightarrow> panicK ''Unrecognized paging machanism'')"

definition is_none_policy :: "bool K" where
  "is_none_policy = getK (\<lambda>s. selection s = NONE)"

section \<open>Swapping\<close>

definition swap :: "u64 \<Rightarrow> u64 \<Rightarrow> unit K" where
  "swap pt va =
     bindK myproc (\<lambda>p.
     bindK get_swap_out_page_index (\<lambda>out_index.
     bindK (getP p (\<lambda>q. (ppagetable q, user_page_VA (memory_pages q ! out_index)))) (\<lambda>(ppt, out_va).
     bindK (walk ppt out_va False) (\<lambda>pte.
     if pte = 0 then wildK
     else
       bindK (rd64 pte) (\<lambda>e.
       bindK (write_page_to_file p out_va ppt) (\<lambda>_.
       thenK (kfree (PTE2PA e))
      (thenK (modM p out_index (\<lambda>m. m\<lparr>pm_state := P_UNUSED\<rparr>))
      (thenK (update_page_out_pte ppt out_va)
             (add_to_memory_page_metadata pt va)))))))))"

definition get_page_from_file :: "u64 \<Rightarrow> int K" where
  "get_page_from_file stval =
     bindK myproc (\<lambda>p.
     thenK (modP p (\<lambda>q. q\<lparr>page_fault_counter := page_fault_counter q + 1\<rparr>))
    (let va = PGROUNDDOWN stval in
     bindK kalloc (\<lambda>new_page.
     if new_page = 0 then retK 0
     else
       thenK (memsetK new_page 0 4096)
      (bindK get_free_memory_page_index (\<lambda>fi.
       bindK (getP p ppagetable) (\<lambda>pt.
       case fi of
         Some free_index \<Rightarrow>
           thenK (update_page_in_pte pt va new_page free_index)
          (bindK (read_page_from_file p free_index va new_page) (\<lambda>_.
           retK 1))
       | None \<Rightarrow>
           bindK get_swap_out_page_index (\<lambda>out_index.
           bindK (getP p (\<lambda>q. user_page_VA (memory_pages q ! out_index))) (\<lambda>out_va.
           thenK (update_page_in_pte pt va new_page out_index)
          (bindK (read_page_from_file p out_index va new_page) (\<lambda>_.
           bindK (write_page_to_file p out_va pt) (\<lambda>_.
           thenK (update_page_out_pte pt out_va)
          (bindK (walk pt out_va False) (\<lambda>pte.
           if pte = 0 then wildK
           else
             bindK (rd64 pte) (\<lambda>e.
             thenK (whenK (PTE2PA e \<noteq> 0) (kfree (PTE2PA e)))
                   (retK 1)))))))))))))))"

section \<open>User address spaces\<close>

text \<open>The addresses that a loop \<^verbatim>\<open>for (a = lo; a < hi; a += PGSIZE)\<close> visits.\<close>

definition page_range :: "u64 \<Rightarrow> u64 \<Rightarrow> u64 list" where
  "page_range lo hi =
     map (\<lambda>k. lo + of_nat k * PGSIZE) [0..<(if lo < hi then (unat (hi - lo) + 4095) div 4096 else 0)]"

definition unmap_one :: "u64 \<Rightarrow> bool \<Rightarrow> u64 \<Rightarrow> unit K" where
  "unmap_one pt do_free a =
     bindK (walk pt a False) (\<lambda>pte.
     thenK (panic_if (pte = 0) ''uvmunmap: walk'')
    (bindK (rd64 pte) (\<lambda>e.
     thenK (panic_if (e AND PTE_V = 0 \<and> e AND PTE_PG = 0) ''uvmunmap: not mapped'')
    (thenK (panic_if (PTE_FLAGS e = PTE_V) ''uvmunmap: not a leaf'')
    (thenK (whenK (do_free \<and> e AND PTE_V = 0 \<and> PTE2PA e \<noteq> 0) (kfree (PTE2PA e)))
    (bindK is_none_policy (\<lambda>none.
     thenK (whenK (\<not> none \<and> e AND PTE_V \<noteq> 0) (remove_from_memory_meta_data a pt))
           (wr64 pte 0))))))))"

definition uvmunmap :: "u64 \<Rightarrow> u64 \<Rightarrow> u64 \<Rightarrow> bool \<Rightarrow> unit K" where
  "uvmunmap pt va np do_free =
     thenK (panic_if (va mod PGSIZE \<noteq> 0) ''uvmunmap: not aligned'')
           (forK (page_range va (va + np * PGSIZE)) (unmap_one pt do_free))"

definition uvminit :: "u64 \<Rightarrow> u8 list \<Rightarrow> unit K" where
  "uvminit pt src =
     thenK (panic_if (length src \<ge> unat PGSIZE) ''inituvm: more than a page'')
    (bindK kalloc (\<lambda>m.
     thenK (memsetK m 0 4096)
    (bindK (mappages pt 0 PGSIZE m (PTE_W OR PTE_R OR PTE_X OR PTE_U)) (\<lambda>_.
     modK (\<lambda>s. s\<lparr>mem := wr_bytes (mem s) m src\<rparr>)))))"

text \<open>The conversion of the page count to \<^verbatim>\<open>int\<close> and back.\<close>

definition uvmdealloc :: "u64 \<Rightarrow> u64 \<Rightarrow> u64 \<Rightarrow> u64 K" where
  "uvmdealloc pt oldsz newsz =
     (if newsz \<ge> oldsz then retK oldsz
      else
        thenK (whenK (PGROUNDUP newsz < PGROUNDUP oldsz)
          (uvmunmap pt (PGROUNDUP newsz)
            (scast (ucast ((PGROUNDUP oldsz - PGROUNDUP newsz) div PGSIZE) :: u32)) True))
        (retK newsz))"

definition uvmalloc_page :: "nat \<Rightarrow> u64 \<Rightarrow> u64 \<Rightarrow> int \<Rightarrow> u64 \<Rightarrow> int \<Rightarrow> u64 option K" where
  "uvmalloc_page p pt oldsz old_in_mem a num_new =
     bindK kalloc (\<lambda>m.
     if m = 0 then bindK (uvmdealloc pt a oldsz) (\<lambda>_. retK (Some 0))
     else
       thenK (memsetK m 0 4096)
      (bindK (mappages pt a PGSIZE m (PTE_W OR PTE_X OR PTE_R OR PTE_U)) (\<lambda>r.
       if r \<noteq> 0 then thenK (kfree m) (bindK (uvmdealloc pt a oldsz) (\<lambda>_. retK (Some 0)))
       else
         bindK (getP p (\<lambda>q. q)) (\<lambda>q.
         bindK is_none_policy (\<lambda>none.
         if pid q > 2 \<and> \<not> none
         then
           if pages_in_memory_counter q + pages_in_file_counter q = of_nat MAX_TOTAL_PAGES
           then
             thenK (kprintf ''PID: %d inisde uvmalloc(): try to kalloc more then 32 pages\<newline>''
                      [VWord (of_int (pid q))])
            (thenK (kfree m)
            (bindK (uvmdealloc pt a oldsz) (\<lambda>_.
             panicK ''uvmalloc(): Proc is too big\<newline>'')))
           else if old_in_mem + num_new > int MAX_PYSC_PAGES then thenK (swap pt a) (retK None)
           else thenK (add_to_memory_page_metadata pt a) (retK None)
         else retK None)))))"

definition uvmalloc :: "u64 \<Rightarrow> u64 \<Rightarrow> u64 \<Rightarrow> u64 K" where
  "uvmalloc pt oldsz newsz =
     bindK myproc (\<lambda>p.
     if newsz < oldsz then retK oldsz
     else
       bindK (getP p (\<lambda>q. sint (ucast (pages_in_memory_counter q) :: u32))) (\<lambda>old_in_mem.
       bindK (loopK (enumerate 0 (page_range (PGROUNDUP oldsz) newsz)) (\<lambda>(k, a).
         uvmalloc_page p pt (PGROUNDUP oldsz) old_in_mem a (int k + 1)))
      (\<lambda>r. retK (case r of Some v \<Rightarrow> v | None \<Rightarrow> newsz))))"

text \<open>
  \<^verbatim>\<open>freewalk\<close> by the number of levels below: a page table of the kernel has three, and a table at a
  deeper level is no page table.
\<close>

primrec freewalk_level :: "nat \<Rightarrow> u64 \<Rightarrow> unit K" where
  "freewalk_level 0 pt = wildK"
| "freewalk_level (Suc l) pt =
     thenK (forK [0..<512] (\<lambda>i.
       bindK (rd64 (pt + 8 * of_nat i)) (\<lambda>e.
       if e AND PTE_V \<noteq> 0 \<and> e AND (PTE_R OR PTE_W OR PTE_X) = 0
       then thenK (freewalk_level l (PTE2PA e)) (wr64 (pt + 8 * of_nat i) 0)
       else panic_if (e AND PTE_V \<noteq> 0) ''freewalk: leaf'')))
     (kfree pt)"

definition freewalk :: "u64 \<Rightarrow> unit K" where
  "freewalk pt = freewalk_level 3 pt"

definition uvmfree :: "u64 \<Rightarrow> u64 \<Rightarrow> unit K" where
  "uvmfree pt sz =
     thenK (whenK (sz > 0) (uvmunmap pt 0 (PGROUNDUP sz div PGSIZE) True)) (freewalk pt)"

definition uvmcopy_page :: "u64 \<Rightarrow> u64 \<Rightarrow> u64 \<Rightarrow> int option K" where
  "uvmcopy_page old new i =
     bindK (walk old i False) (\<lambda>pte.
     thenK (panic_if (pte = 0) ''uvmcopy: pte should exist'')
    (bindK (rd64 pte) (\<lambda>e.
     if e AND PTE_PG \<noteq> 0 then thenK (update_page_out_pte new i) (retK None)
     else
       thenK (panic_if (e AND PTE_V = 0) ''uvmcopy: page not present'')
      (bindK kalloc (\<lambda>m.
       if m = 0 then thenK (uvmunmap new 0 (i div PGSIZE) True) (retK (Some (-1)))
       else
         thenK (memmoveK m (PTE2PA e) 4096)
        (bindK (mappages new i PGSIZE m (PTE_FLAGS e)) (\<lambda>r.
         if r \<noteq> 0
         then thenK (kfree m) (thenK (uvmunmap new 0 (i div PGSIZE) True) (retK (Some (-1))))
         else retK None)))))))"

definition uvmcopy :: "u64 \<Rightarrow> u64 \<Rightarrow> u64 \<Rightarrow> int K" where
  "uvmcopy old new sz =
     bindK (loopK (page_range 0 sz) (uvmcopy_page old new))
     (\<lambda>r. retK (case r of Some v \<Rightarrow> v | None \<Rightarrow> 0))"

definition print_metadata :: "string \<Rightarrow> string \<Rightarrow> page_metadata list \<Rightarrow> unit K" where
  "print_metadata line fmt ms =
     forK (enumerate 0 ms) (\<lambda>(i, m).
       whenK (pm_state m = P_USED)
         (thenK (kprintf line [VWord (of_nat i)])
                (kprintf fmt
                   [VWord (user_page_VA m), VWord (ucast (access_count m)),
                    VWord (ucast (page_order m))])))"

definition print_memory_metadata_state :: "nat \<Rightarrow> unit K" where
  "print_memory_metadata_state p =
     bindK (getP p (\<lambda>q. q)) (\<lambda>q.
     whenK (pid q > 2)
       (thenK (kprintf ''PID: %d num of pages in MEM: %d\<newline>''
                 [VWord (of_int (pid q)), VWord (pages_in_memory_counter q)])
       (thenK (kprintf ''PID: %d num of pages in FILE: %d\<newline>''
                 [VWord (of_int (pid q)), VWord (pages_in_file_counter q)])
       (thenK (kprintf ''########### memory PAGES ###########\<newline>'' [])
       (thenK (print_metadata ''memory page num: %d, state is P_USED\<newline>''
                 ''user_page_VA: %p, access_count: %u page_order: %d \<newline>''
                 (take 16 (memory_pages q)))
       (thenK (kprintf ''########### file PAGES ###########\<newline>'' [])
              (print_metadata ''FILE page num: %d, state is P_USED\<newline>''
                 ''user_page_VA: %p, access_count: %u, page_order: %d \<newline>''
                 (take 16 (file_pages q)))))))))"

section \<open>Second chance\<close>

lemma unat_u32_u64 [simp]: "unat (ucast (x :: u32) :: u64) = unat x"
  using unsigned_less [of x, where ?'a = nat] by (simp add: unsigned_ucast_eq take_bit_nat_eq_self)

lemma filter_eq_single: "distinct xs \<Longrightarrow> k \<in> set xs \<Longrightarrow> filter (\<lambda>x. x = k) xs = [k]"
  by (induction xs) (auto simp: filter_empty_conv)

text \<open>
  The reference: a queue of pages with their accessed bits. A page at the head that was accessed
  loses the bit and goes to the end; the first page found without the bit is the victim.
\<close>

function (sequential) second_chance :: "(nat \<times> bool) list \<Rightarrow> (nat \<times> bool) list" where
  "second_chance ((i, True) # q) = second_chance (q @ [(i, False)])"
| "second_chance q = q"
  by pat_completeness auto
termination
  by (relation "measure (\<lambda>q. length (filter snd q))") auto

text \<open>The entries in use, in the order of their numbers.\<close>

definition used_entries :: "page_metadata list \<Rightarrow> nat list" where
  "used_entries ms = filter (\<lambda>i. pm_state (ms ! i) = P_USED) [0..<length ms]"

definition order_of :: "page_metadata list \<Rightarrow> nat \<Rightarrow> nat" where
  "order_of ms i = unat (page_order (ms ! i))"

definition fifo :: "page_metadata list \<Rightarrow> nat list" where
  "fifo ms = sort_key (order_of ms) (used_entries ms)"

lemma set_used_entries: "set (used_entries ms) = {i. i < length ms \<and> pm_state (ms ! i) = P_USED}"
  by (auto simp: used_entries_def)

lemma distinct_used_entries [simp]: "distinct (used_entries ms)"
  by (simp add: used_entries_def)

lemma set_fifo [simp]: "set (fifo ms) = set (used_entries ms)"
  by (simp add: fifo_def)

lemma distinct_fifo [simp]: "distinct (fifo ms)"
  by (simp add: fifo_def)

text \<open>The scan of the metadata finds an entry in use with the least number.\<close>

lemma scfifo_scan_snoc:
  "scfifo_scan (ms @ [m]) =
    (case scfifo_scan ms of (best, order) \<Rightarrow>
       if pm_state m = P_USED \<and> ucast (page_order m) \<le> order then (Some (length ms), ucast (page_order m))
       else (best, order))"
  by (simp add: scfifo_scan_def enumerate_append_eq split: prod.splits)

lemma scfifo_scan_min:
  assumes "scfifo_scan ms = (best, order)"
  shows "(best = None \<longrightarrow> used_entries ms = [] \<and> unat order = 4294967295) \<and>
    (\<forall>i. best = Some i \<longrightarrow> i \<in> set (used_entries ms) \<and> unat order = order_of ms i \<and>
       (\<forall>j\<in>set (used_entries ms). order_of ms i \<le> order_of ms j))"
  using assms
proof (induction ms arbitrary: best order rule: rev_induct)
  case Nil
  then show ?case by (auto simp: scfifo_scan_def used_entries_def)
next
  case (snoc m ms)
  let ?po = "page_order m" and ?n = "length ms"
  have max: "unat ?po \<le> 4294967295" using unsigned_less [of ?po, where ?'a = nat] by simp
  have used: "set (used_entries (ms @ [m])) =
      (if pm_state m = P_USED then insert ?n (set (used_entries ms)) else set (used_entries ms))"
    by (auto simp: set_used_entries nth_append less_Suc_eq)
  have oo: "order_of (ms @ [m]) j = order_of ms j" if "j \<in> set (used_entries ms)" for j
    using that by (simp add: order_of_def nth_append set_used_entries)
  have om: "order_of (ms @ [m]) ?n = unat ?po" by (simp add: order_of_def)
  have emp: "used_entries xs = [] \<longleftrightarrow> set (used_entries xs) = {}" for xs by simp
  obtain best0 order0 where sc: "scfifo_scan ms = (best0, order0)" by (cases "scfifo_scan ms")
  note IH = snoc.IH [OF sc]
  show ?case
  proof (cases "pm_state m = P_USED \<and> unat ?po \<le> unat order0")
    case True
    then have r: "best = Some ?n" "order = ucast ?po"
      using snoc.prems sc by (auto simp: scfifo_scan_snoc word_le_nat_alt)
    have "unat ?po \<le> order_of ms j" if "j \<in> set (used_entries ms)" for j
      using IH True that by (cases best0) auto
    moreover have "set (used_entries (ms @ [m])) = insert ?n (set (used_entries ms))" using used True by simp
    ultimately show ?thesis by (simp add: r om oo)
  next
    case False
    then have r: "best = best0" "order = order0"
      using snoc.prems sc by (auto simp: scfifo_scan_snoc word_le_nat_alt split: if_splits)
    show ?thesis
    proof (cases "pm_state m = P_USED")
      case u: True
      then have lt: "unat order0 < unat ?po" using False by simp
      then obtain i where i: "best0 = Some i" using IH max by (cases best0) auto
      moreover have "set (used_entries (ms @ [m])) = insert ?n (set (used_entries ms))" using used u by simp
      ultimately show ?thesis using IH lt by (simp add: r om oo)
    next
      case nu: False
      then have "set (used_entries (ms @ [m])) = set (used_entries ms)" using used by simp
      then show ?thesis using IH by (simp add: r oo emp del: set_empty)
    qed
  qed
qed

lemma scfifo_scan_hd:
  assumes "inj_on (order_of ms) (set (used_entries ms))" and "used_entries ms \<noteq> []"
  shows "fst (scfifo_scan ms) = Some (hd (fifo ms))"
proof -
  obtain best order where sc0: "scfifo_scan ms = (best, order)" by (cases "scfifo_scan ms")
  then obtain i where sc: "scfifo_scan ms = (Some i, order)"
    using scfifo_scan_min [OF sc0] assms(2) by (cases best) auto
  then have i: "i \<in> set (used_entries ms)" "\<forall>j\<in>set (used_entries ms). order_of ms i \<le> order_of ms j"
    using scfifo_scan_min [OF sc] by auto
  have ne: "fifo ms \<noteq> []" using assms(2) by (metis set_empty set_fifo)
  then have h: "hd (fifo ms) \<in> set (used_entries ms)" by (metis hd_in_set set_fifo)
  have "order_of ms (hd (fifo ms)) \<le> order_of ms i"
  proof -
    have s: "sorted (map (order_of ms) (fifo ms))" by (simp add: fifo_def)
    have "i \<in> set (fifo ms)" using i by simp
    then show ?thesis using s ne by (cases "fifo ms") auto
  qed
  then have "order_of ms (hd (fifo ms)) = order_of ms i" using i(2) h by (simp add: le_antisym)
  then show ?thesis using inj_onD [OF assms(1) _ h i(1)] sc by simp
qed

text \<open>Giving the head of the queue a number above all others moves it to the end.\<close>

lemma fifo_requeue:
  assumes "inj_on (order_of ms) (set (used_entries ms))" and "fifo ms = i # q"
    and "\<forall>j\<in>set (used_entries ms). order_of ms j < unat n" and "ms' = ms[i := (ms ! i)\<lparr>page_order := n\<rparr>]"
  shows "fifo ms' = q @ [i]" "used_entries ms' = used_entries ms"
    "inj_on (order_of ms') (set (used_entries ms'))"
proof -
  have i: "i \<in> set (used_entries ms)" using assms(2) set_fifo [of ms] by (metis list.set_intros(1))
  then have il: "i < length ms" by (simp add: set_used_entries)
  have st: "pm_state (ms' ! j) = pm_state (ms ! j)" for j
    using assms(4) il by (cases "j = i") auto
  then show ue: "used_entries ms' = used_entries ms" using assms(4) by (simp add: used_entries_def)
  have o: "order_of ms' j = (if j = i then unat n else order_of ms j)" for j
    using assms(4) il by (simp add: order_of_def)
  show inj: "inj_on (order_of ms') (set (used_entries ms'))"
  proof (rule inj_onI)
    fix a b assume ab: "a \<in> set (used_entries ms')" "b \<in> set (used_entries ms')"
      and eq: "order_of ms' a = order_of ms' b"
    then have "order_of ms a < unat n" "order_of ms b < unat n" using assms(3) ue by simp_all
    then show "a = b" using inj_onD [OF assms(1), of a b] ab eq ue by (simp add: o split: if_splits)
  qed
  have d: "distinct (i # q)" using distinct_fifo [of ms] assms(2) by simp
  have sq: "set (i # q) = set (used_entries ms)" using set_fifo [of ms] assms(2) by simp
  have sorted: "sorted (map (order_of ms) (i # q))" using assms(2) by (metis fifo_def sorted_sort_key)
  have "sorted (map (order_of ms') (q @ [i]))"
  proof -
    have m: "map (order_of ms') q = map (order_of ms) q" using d o by auto
    have "sorted (map (order_of ms) q)" using sorted by simp
    then have "sorted (map (order_of ms') q)" unfolding m .
    moreover have "\<forall>x\<in>set (map (order_of ms') q). x \<le> unat n"
      unfolding m using assms(3) sq by (auto intro: less_imp_le)
    ultimately show ?thesis by (simp add: sorted_append o [of i])
  qed
  moreover have "mset (q @ [i]) = mset (used_entries ms')"
    using assms(2) ue by (metis fifo_def mset_sort mset_append mset.simps(2) add.commute add_mset_add_single
        mset.simps(1))
  moreover have "filter (\<lambda>x. order_of ms' k = order_of ms' x) (q @ [i]) =
      filter (\<lambda>x. order_of ms' k = order_of ms' x) (used_entries ms')" if "k \<in> set (q @ [i])" for k
  proof -
    have k: "k \<in> set (used_entries ms')" using that ue sq by auto
    have one: "filter (\<lambda>x. order_of ms' k = order_of ms' x) xs = [k]"
      if "distinct xs" "set xs = set (used_entries ms')" for xs
    proof -
      have "filter (\<lambda>x. order_of ms' k = order_of ms' x) xs = filter (\<lambda>x. x = k) xs"
        by (rule filter_cong [OF refl]) (use that k inj in \<open>auto simp: inj_on_def\<close>)
      also have "\<dots> = [k]" using that k by (simp add: filter_eq_single)
      finally show ?thesis .
    qed
    show ?thesis using one [of "q @ [i]"] one [of "used_entries ms'"] d sq ue by auto
  qed
  ultimately show "fifo ms' = q @ [i]"
    unfolding fifo_def by (intro properties_for_sort_key) auto
qed

text \<open>
  The resident pages of a process: each entry in use names a page that has an entry in the page
  table, and no two name the same page.
\<close>

definition resident :: "kstate \<Rightarrow> nat \<Rightarrow> u64 list \<Rightarrow> bool" where
  "resident s p fl \<longleftrightarrow>
     (let q = procs s ! p; ms = memory_pages q; pt = ppagetable q in
      cur s = Some p \<and> p < length (procs s) \<and> pt_inv s pt fl \<and> length ms = MAX_PYSC_PAGES \<and>
      (\<forall>i\<in>set (used_entries ms). user_page_VA (ms ! i) < MAXVA \<and> leaf 2 (mem s) pt (user_page_VA (ms ! i)) \<noteq> None) \<and>
      (\<forall>i\<in>set (used_entries ms). \<forall>j\<in>set (used_entries ms).
         PGROUNDDOWN (user_page_VA (ms ! i)) = PGROUNDDOWN (user_page_VA (ms ! j)) \<longrightarrow> i = j))"

text \<open>The entries in use have different numbers below the counter, which is not about to wrap.\<close>

definition numbered :: "proc \<Rightarrow> nat \<Rightarrow> bool" where
  "numbered q k \<longleftrightarrow> inj_on (order_of (memory_pages q)) (set (used_entries (memory_pages q))) \<and>
     (\<forall>i\<in>set (used_entries (memory_pages q)). order_of (memory_pages q) i < unat (page_order_counter q)) \<and>
     unat (page_order_counter q) + k < 2 ^ 32"

definition accessed :: "kstate \<Rightarrow> nat \<Rightarrow> nat \<Rightarrow> bool" where
  "accessed s p i = bit (pte_of 2 (mem s) (ppagetable (procs s ! p)) (user_page_VA (memory_pages (procs s ! p) ! i))) 6"

definition page_queue :: "kstate \<Rightarrow> nat \<Rightarrow> (nat \<times> bool) list" where
  "page_queue s p = map (\<lambda>i. (i, accessed s p i)) (fifo (memory_pages (procs s ! p)))"

lemma page_queue_hd:
  assumes "page_queue s p = (i, b) # q"
  shows "fifo (memory_pages (procs s ! p)) = i # map fst q" "b = accessed s p i"
    "q = map (\<lambda>i. (i, accessed s p i)) (map fst q)"
  using assms by (auto simp: page_queue_def comp_def)

lemma bit_PTE_A: "bit PTE_A 6"
  by (simp add: PTE_A_def bit_numeral_rec)

text \<open>Changing the entry of one resident page, and metadata other than which page is where.\<close>

lemma resident_write:
  assumes "resident s p fl" and "i \<in> set (used_entries (memory_pages (procs s ! p)))"
    and "leaf 2 (mem s) (ppagetable (procs s ! p)) (user_page_VA (memory_pages (procs s ! p) ! i)) = Some a"
    and "ppagetable q' = ppagetable (procs s ! p)"
    and "length (memory_pages q') = MAX_PYSC_PAGES"
    and "used_entries (memory_pages q') = used_entries (memory_pages (procs s ! p))"
    and "\<And>j. user_page_VA (memory_pages q' ! j) = user_page_VA (memory_pages (procs s ! p) ! j)"
    and "t = s\<lparr>mem := write64 (mem s) a v, procs := (procs s)[p := q']\<rparr>"
  shows "resident t p fl" "procs t ! p = q'"
    "\<And>j. j \<in> set (used_entries (memory_pages (procs s ! p))) \<Longrightarrow>
       accessed t p j = (if j = i then bit v 6 else accessed s p j)"
proof -
  let ?q = "procs s ! p" let ?ms = "memory_pages ?q" and ?pt = "ppagetable ?q"
  let ?va = "user_page_VA (?ms ! i)"
  note R = assms(1) [unfolded resident_def Let_def]
  have va: "?va < MAXVA" and inv: "pt_inv s ?pt fl" using R assms(2) by blast+
  show pl: "procs t ! p = q'" using R assms(8) by simp
  note W = pt_write_inv [OF inv assms(3) va, where v = v]
  have inv': "pt_inv t ?pt fl"
    using pt_inv_cong [of t "s\<lparr>mem := write64 (mem s) a v\<rparr>"] W(1) by (simp add: assms(8))
  have wf: "pt_wf 2 (mem s) ?pt" using inv by (simp add: pt_inv_def)
  have lf: "leaf 2 (mem t) ?pt vb = leaf 2 (mem s) ?pt vb" for vb
    using pt_write_leaf(3) [OF wf assms(3)] by (simp add: assms(8))
  have c: "cur t = cur s" "length (procs t) = length (procs s)" by (simp_all add: assms(8))
  show "resident t p fl"
    unfolding resident_def Let_def pl assms(4,6,7) lf c using R inv' assms(5) by simp
  fix j assume j: "j \<in> set (used_entries ?ms)"
  let ?vb = "user_page_VA (?ms ! j)"
  have vb: "?vb < MAXVA" using R j by blast
  have "PGROUNDDOWN ?vb = PGROUNDDOWN ?va \<longleftrightarrow> j = i" using R j assms(2) by blast
  moreover have "accessed t p j = bit (pte_of 2 (write64 (mem s) a v) ?pt ?vb) 6"
    unfolding accessed_def pl assms(4,7) by (simp add: assms(8))
  ultimately show "accessed t p j = (if j = i then bit v 6 else accessed s p j)"
    using W(4) [OF vb] by (auto simp: accessed_def)
qed

lemma scfifo_turn:
  assumes "resident s p fl" and "numbered (procs s ! p) k0" and "page_queue s p = (i, b) # q"
  shows "\<not> b \<Longrightarrow> scfifo_loop p (Suc n) s = Ret i s"
    "b \<Longrightarrow> k0 = Suc k \<Longrightarrow> \<exists>m q'. let t = s\<lparr>mem := m, procs := (procs s)[p := q']\<rparr> in
       scfifo_loop p (Suc n) s = scfifo_loop p n t \<and> resident t p fl \<and> numbered q' k \<and>
       page_queue t p = q @ [(i, False)] \<and> ppagetable q' = ppagetable (procs s ! p) \<and>
       used_entries (memory_pages q') = used_entries (memory_pages (procs s ! p)) \<and>
       (\<forall>j. user_page_VA (memory_pages q' ! j) = user_page_VA (memory_pages (procs s ! p) ! j))"
proof -
  let ?q = "procs s ! p" let ?ms = "memory_pages ?q" and ?pt = "ppagetable ?q"
  note R = assms(1) [unfolded resident_def Let_def] and N = assms(2) [unfolded numbered_def]
  note H = page_queue_hd [OF assms(3)]
  have iu: "i \<in> set (used_entries ?ms)" using H(1) set_fifo [of ?ms] by (metis list.set_intros(1))
  then have i16: "i < 16" "i < length ?ms" using R by (auto simp: set_used_entries MAX_PYSC_PAGES_def)
  have tk: "take MAX_PYSC_PAGES ?ms = ?ms" using R by simp
  let ?va = "user_page_VA (?ms ! i)"
  have va: "?va < MAXVA" using R iu by blast
  obtain a where a: "leaf 2 (mem s) ?pt ?va = Some a" using R iu by blast
  have inv: "pt_inv s ?pt fl" using R by blast
  have ne: "used_entries ?ms \<noteq> []" using iu by (metis empty_iff list.set(1))
  have sc: "fst (scfifo_scan ?ms) = Some i"
    using scfifo_scan_hd [of ?ms] N ne H(1) by simp
  have w: "walk ?pt ?va False s = Ret a s" "a \<noteq> 0"
    using walk_existing [OF a va] walk_noalloc(2) [OF inv va a] by auto
  define e where "e = read64 (mem s) a"
  have b: "b \<longleftrightarrow> bit e 6" using H(2) a by (simp add: accessed_def pte_of_def e_def)
  have A: "e AND PTE_A \<noteq> 0 \<longleftrightarrow> bit e 6" by simp
  show "scfifo_loop p (Suc n) s = Ret i s" if "\<not> b"
    using that b A w by (simp add: tk sc e_def [symmetric])
  assume bt: b and k0: "k0 = Suc k"
  define m where "m = write64 (mem s) a (e AND NOT PTE_A)"
  define q' where "q' = ?q\<lparr>memory_pages := ?ms[i := (?ms ! i)\<lparr>page_order := ucast (page_order_counter ?q)\<rparr>],
      page_order_counter := page_order_counter ?q + 1\<rparr>"
  let ?t = "s\<lparr>mem := m, procs := (procs s)[p := q']\<rparr>"
  have run: "scfifo_loop p (Suc n) s = scfifo_loop p n ?t"
    using bt b A w by (simp add: tk sc e_def [symmetric] m_def q'_def)
  have cnt: "unat (ucast (page_order_counter ?q) :: u32) = unat (page_order_counter ?q)"
    using N k0 by (simp add: unsigned_ucast_eq take_bit_nat_eq_self)
  have ms': "memory_pages q' = ?ms[i := (?ms ! i)\<lparr>page_order := ucast (page_order_counter ?q)\<rparr>]"
    by (simp add: q'_def)
  note RQ = fifo_requeue [OF conjunct1 [OF N] H(1) _ ms', unfolded cnt]
  have RQ1: "fifo (memory_pages q') = map fst q @ [i]" "used_entries (memory_pages q') = used_entries ?ms"
    "inj_on (order_of (memory_pages q')) (set (used_entries (memory_pages q')))"
    using RQ N by auto
  have VA: "user_page_VA (memory_pages q' ! j) = user_page_VA (?ms ! j)" for j
    using i16 by (cases "j = i") (auto simp: ms')
  have ptq: "ppagetable q' = ?pt" and len': "length (memory_pages q') = MAX_PYSC_PAGES"
    using R by (simp_all add: q'_def)
  have teq: "?t = s\<lparr>mem := write64 (mem s) a (e AND NOT PTE_A), procs := (procs s)[p := q']\<rparr>"
    by (simp add: m_def)
  note RW = resident_write [OF assms(1) iu a ptq len' RQ1(2) VA teq]
  have res: "resident ?t p fl" and pl: "procs ?t ! p = q'" by (rule RW)+
  have numb: "numbered q' k"
  proof -
    have c1: "page_order_counter q' = page_order_counter ?q + 1" by (simp add: q'_def)
    have u1: "unat (page_order_counter ?q + 1) = unat (page_order_counter ?q) + 1"
      using N by (simp add: unat_word_ariths)
    have "order_of (memory_pages q') j < unat (page_order_counter q')"
      if "j \<in> set (used_entries (memory_pages q'))" for j
      using that N i16 cnt RQ1(2) unfolding c1 u1
      by (cases "j = i") (auto simp: order_of_def ms' less_SucI)
    then show ?thesis using RQ1(3) N k0 unfolding numbered_def c1 u1 by simp
  qed
  have "\<not> bit (e AND NOT PTE_A) 6" unfolding bit_and_iff bit_not_iff using bit_PTE_A by simp
  then have acc: "accessed ?t p j = (if j = i then False else accessed s p j)"
    if "j \<in> set (used_entries ?ms)" for j using RW(3) [OF that] by simp
  have "page_queue ?t p = q @ [(i, False)]"
  proof -
    have d: "i \<notin> set (map fst q)" using distinct_fifo [of ?ms] H(1) by simp
    have sub: "set (map fst q) \<subseteq> set (used_entries ?ms)" using H(1) set_fifo [of ?ms] by auto
    have "accessed ?t p j = accessed s p j" if "j \<in> set (map fst q)" for j
      using acc [of j] sub d that by (metis subsetD)
    then have "map (\<lambda>j. (j, accessed ?t p j)) (map fst q) = map (\<lambda>j. (j, accessed s p j)) (map fst q)"
      by (intro map_cong) auto
    also have "\<dots> = q" using H(3) by simp
    finally have "map (\<lambda>j. (j, accessed ?t p j)) (map fst q) = q" .
    then show ?thesis using acc [OF iu] unfolding page_queue_def pl RQ1(1) by (simp del: map_map)
  qed
  then show "\<exists>m q'. let t = s\<lparr>mem := m, procs := (procs s)[p := q']\<rparr> in
       scfifo_loop p (Suc n) s = scfifo_loop p n t \<and> resident t p fl \<and> numbered q' k \<and>
       page_queue t p = q @ [(i, False)] \<and> ppagetable q' = ppagetable (procs s ! p) \<and>
       used_entries (memory_pages q') = used_entries (memory_pages (procs s ! p)) \<and>
       (\<forall>j. user_page_VA (memory_pages q' ! j) = user_page_VA (memory_pages (procs s ! p) ! j))"
    using run res numb ptq RQ1(2) VA unfolding Let_def by (intro exI [of _ m] exI [of _ q'] conjI) auto
qed

lemma scfifo_loop_correct:
  assumes "resident s p fl" and "numbered (procs s ! p) n" and "page_queue s p \<noteq> []"
    and "n = length (filter snd (page_queue s p))" and "n < k"
  shows "\<exists>m q'. let t = s\<lparr>mem := m, procs := (procs s)[p := q']\<rparr> in
       scfifo_loop p k s = Ret (fst (hd (page_queue t p))) t \<and> resident t p fl \<and>
       page_queue t p = second_chance (page_queue s p) \<and> \<not> snd (hd (page_queue t p)) \<and>
       used_entries (memory_pages q') = used_entries (memory_pages (procs s ! p)) \<and>
       (\<forall>j. user_page_VA (memory_pages q' ! j) = user_page_VA (memory_pages (procs s ! p) ! j))"
  using assms
proof (induction k arbitrary: s n)
  case (Suc k)
  obtain i b q where pq: "page_queue s p = (i, b) # q" using Suc.prems(3) by (cases "page_queue s p") auto
  note turn = scfifo_turn [OF Suc.prems(1,2) pq, where n = k]
  have pl: "p < length (procs s)" using Suc.prems(1) by (simp add: resident_def Let_def)
  show ?case
  proof (cases b)
    case False
    have e: "s\<lparr>mem := mem s, procs := (procs s)[p := procs s ! p]\<rparr> = s" by simp
    show ?thesis
      using turn(1) False pq Suc.prems(1)
      by (intro exI [of _ "mem s"] exI [of _ "procs s ! p"]) (simp add: e del: scfifo_loop.simps)
  next
    case True
    obtain n' where n: "n = Suc n'" using Suc.prems(4) pq True by simp
    obtain m q1 where t: "scfifo_loop p (Suc k) s = scfifo_loop p k (s\<lparr>mem := m, procs := (procs s)[p := q1]\<rparr>)"
        "resident (s\<lparr>mem := m, procs := (procs s)[p := q1]\<rparr>) p fl" "numbered q1 n'"
        "page_queue (s\<lparr>mem := m, procs := (procs s)[p := q1]\<rparr>) p = q @ [(i, False)]"
        "used_entries (memory_pages q1) = used_entries (memory_pages (procs s ! p))"
        "\<forall>j. user_page_VA (memory_pages q1 ! j) = user_page_VA (memory_pages (procs s ! p) ! j)"
      using turn(2) [OF True n] unfolding Let_def by blast
    let ?t = "s\<lparr>mem := m, procs := (procs s)[p := q1]\<rparr>"
    have q1: "procs ?t ! p = q1" using pl by simp
    have "n' = length (filter snd (page_queue ?t p))" using t(4) n Suc.prems(4) pq True by simp
    moreover have "n' < k" using n Suc.prems(5) by simp
    ultimately obtain m' q2 where u: "let u = ?t\<lparr>mem := m', procs := (procs ?t)[p := q2]\<rparr> in
       scfifo_loop p k ?t = Ret (fst (hd (page_queue u p))) u \<and> resident u p fl \<and>
       page_queue u p = second_chance (page_queue ?t p) \<and> \<not> snd (hd (page_queue u p)) \<and>
       used_entries (memory_pages q2) = used_entries (memory_pages (procs ?t ! p)) \<and>
       (\<forall>j. user_page_VA (memory_pages q2 ! j) = user_page_VA (memory_pages (procs ?t ! p) ! j))"
      using Suc.IH [OF t(2), of n'] t(3,4) q1 by auto
    have e: "?t\<lparr>mem := m', procs := (procs ?t)[p := q2]\<rparr> = s\<lparr>mem := m', procs := (procs s)[p := q2]\<rparr>"
      by (rule kstate.equality) simp_all
    have sc: "second_chance (page_queue ?t p) = second_chance (page_queue s p)" using t(4) pq True by simp
    show ?thesis
      using u unfolding Let_def e t(1) q1 sc t(5) spec [OF t(6)] by blast
  qed
qed simp

text \<open>
  C11: \<^verbatim>\<open>SCFIFO_algorithm\<close> always ends and is the second-chance algorithm: the resident pages in the order
  of their numbers are a queue; pages at its head that were accessed lose their accessed bit and go
  to its end, and the first page found that was not accessed is the victim. The queue that results,
  bits included, is the one the reference \<open>second_chance\<close> computes, and the page table stays proper.
\<close>

theorem SCFIFO_is_second_chance:
  assumes "resident s p fl" and "numbered (procs s ! p) MAX_PYSC_PAGES" and "page_queue s p \<noteq> []"
  shows "okK SCFIFO_algorithm s (\<lambda>i t. page_queue t p = second_chance (page_queue s p) \<and>
    page_queue t p = (i, False) # tl (page_queue t p) \<and> resident t p fl \<and>
    used_entries (memory_pages (procs t ! p)) = used_entries (memory_pages (procs s ! p)))"
proof -
  let ?n = "length (filter snd (page_queue s p))"
  have pl: "p < length (procs s)" and c: "cur s = Some p" and l: "length (memory_pages (procs s ! p)) = 16"
    using assms(1) by (simp_all add: resident_def Let_def MAX_PYSC_PAGES_def)
  have "?n \<le> length (page_queue s p)" by simp
  also have "\<dots> = length (used_entries (memory_pages (procs s ! p)))" by (simp add: page_queue_def fifo_def)
  also have "\<dots> \<le> 16" using l length_filter_le [of _ "[0..<length (memory_pages (procs s ! p))]"]
    by (simp add: used_entries_def)
  finally have n: "?n \<le> MAX_PYSC_PAGES" by (simp add: MAX_PYSC_PAGES_def)
  then have "numbered (procs s ! p) ?n" using assms(2) by (auto simp: numbered_def)
  then obtain m q' where t: "let t = s\<lparr>mem := m, procs := (procs s)[p := q']\<rparr> in
       scfifo_loop p (Suc MAX_PYSC_PAGES) s = Ret (fst (hd (page_queue t p))) t \<and> resident t p fl \<and>
       page_queue t p = second_chance (page_queue s p) \<and> \<not> snd (hd (page_queue t p)) \<and>
       used_entries (memory_pages q') = used_entries (memory_pages (procs s ! p)) \<and>
       (\<forall>j. user_page_VA (memory_pages q' ! j) = user_page_VA (memory_pages (procs s ! p) ! j))"
    using scfifo_loop_correct [OF assms(1) _ assms(3) refl, of "Suc MAX_PYSC_PAGES"] n by auto
  let ?t = "s\<lparr>mem := m, procs := (procs s)[p := q']\<rparr>"
  have run: "SCFIFO_algorithm s = Ret (fst (hd (page_queue ?t p))) ?t"
    using t c unfolding Let_def SCFIFO_algorithm_def by (simp del: scfifo_loop.simps)
  have "page_queue ?t p \<noteq> []"
  proof -
    have "used_entries (memory_pages (procs ?t ! p)) = used_entries (memory_pages (procs s ! p))"
      using t pl by (simp add: Let_def)
    then have "length (page_queue ?t p) = length (page_queue s p)" by (simp add: page_queue_def fifo_def)
    then show ?thesis using assms(3) by auto
  qed
  moreover have "\<not> snd (hd (page_queue ?t p))" using t unfolding Let_def by blast
  moreover have "xs \<noteq> [] \<Longrightarrow> \<not> snd (hd xs) \<Longrightarrow> xs = (fst (hd xs), False) # tl xs" for xs :: "(nat \<times> bool) list"
    by (cases xs) auto
  ultimately have hd: "page_queue ?t p = (fst (hd (page_queue ?t p)), False) # tl (page_queue ?t p)" by blast
  have q': "procs ?t ! p = q'" using pl by simp
  have post: "page_queue ?t p = second_chance (page_queue s p)" "resident ?t p fl"
    "used_entries (memory_pages (procs ?t ! p)) = used_entries (memory_pages (procs s ! p))"
    unfolding q' using t unfolding Let_def by blast+
  show ?thesis
    using run by (rule okK_I [where x = "fst (hd (page_queue ?t p))" and t = ?t]) (intro conjI; fact post hd)
qed

section \<open>Aging\<close>

lemma set_used_snoc: "set (used_entries (ms @ [m])) =
  (if pm_state m = P_USED then insert (length ms) (set (used_entries ms)) else set (used_entries ms))"
  by (auto simp: set_used_entries nth_append less_Suc_eq)

lemma used_lt: "j \<in> set (used_entries ms) \<Longrightarrow> j < length ms"
  by (simp add: set_used_entries)

lemma u32_max: "(w :: u32) \<le> 0xFFFFFFFF"
  using unsigned_less [of w, where ?'a = nat] by (simp add: word_le_nat_alt)

lemma nfua_scan_snoc:
  "nfua_scan (ms @ [m]) =
    (case nfua_scan ms of (page_index, best) \<Rightarrow>
       if pm_state m = P_USED \<and> access_count m < best then (Some (length ms), access_count m)
       else (page_index, best))"
  by (simp add: nfua_scan_def enumerate_append_eq split: prod.splits)

lemma nfua_scan_min:
  assumes "nfua_scan ms = (r, best)"
  shows "(\<forall>j\<in>set (used_entries ms). best \<le> access_count (ms ! j)) \<and> (r = None \<longrightarrow> best = 0xFFFFFFFF) \<and>
    (\<forall>i. r = Some i \<longrightarrow> i \<in> set (used_entries ms) \<and> best = access_count (ms ! i) \<and> best < 0xFFFFFFFF \<and>
       (\<forall>j\<in>set (used_entries ms). access_count (ms ! j) = best \<longrightarrow> i \<le> j))"
  using assms
proof (induction ms arbitrary: r best rule: rev_induct)
  case Nil
  then show ?case by (auto simp: nfua_scan_def used_entries_def)
next
  case (snoc m ms)
  obtain r0 best0 where sc: "nfua_scan ms = (r0, best0)" by (cases "nfua_scan ms")
  note IH = snoc.IH [OF sc]
  have old: "(ms @ [m]) ! j = ms ! j" if "j \<in> set (used_entries ms)" for j
    using used_lt [OF that] by (simp add: nth_append)
  show ?case
  proof (cases "pm_state m = P_USED \<and> access_count m < best0")
    case True
    then have r: "r = Some (length ms)" "best = access_count m"
      using snoc.prems sc by (auto simp: nfua_scan_snoc)
    have top: "best0 \<le> 0xFFFFFFFF" by (rule u32_max)
    have lt: "access_count m < access_count (ms ! j)" if "j \<in> set (used_entries ms)" for j
      using IH True that by (meson less_le_trans)
    have "set (used_entries (ms @ [m])) = insert (length ms) (set (used_entries ms))"
      using True by (simp add: set_used_snoc)
    then show ?thesis
      using True lt top by (auto simp: r old less_imp_le intro: less_le_trans) (metis less_irrefl)
  next
    case False
    then have r: "r = r0" "best = best0"
      using snoc.prems sc by (auto simp: nfua_scan_snoc split: if_splits)
    show ?thesis
    proof (cases "pm_state m = P_USED")
      case u: True
      then have le: "best0 \<le> access_count m" using False by simp
      have "set (used_entries (ms @ [m])) = insert (length ms) (set (used_entries ms))"
        using u by (simp add: set_used_snoc)
      then show ?thesis using IH le by (auto simp: r old nth_append dest!: used_lt)
    next
      case nu: False
      then have "set (used_entries (ms @ [m])) = set (used_entries ms)" by (simp add: set_used_snoc)
      then show ?thesis using IH by (auto simp: r old nth_append dest!: used_lt)
    qed
  qed
qed

text \<open>
  C12: \<^verbatim>\<open>NFUA_algorithm\<close> picks a resident page whose access counter is least, the first such page in the
  table; it has no page to offer exactly when every resident page has the counter \<^verbatim>\<open>0xFFFFFFFF\<close>.
\<close>

theorem NFUA_picks_least_counter:
  assumes "cur s = Some p" and "ms = memory_pages (procs s ! p)" and "length ms = MAX_PYSC_PAGES"
  shows "okK NFUA_algorithm s (\<lambda>r t. t = s \<and>
    (case r of None \<Rightarrow> \<forall>j\<in>set (used_entries ms). access_count (ms ! j) = 0xFFFFFFFF
     | Some i \<Rightarrow> i \<in> set (used_entries ms) \<and>
         (\<forall>j\<in>set (used_entries ms). access_count (ms ! i) < access_count (ms ! j) \<or>
            access_count (ms ! i) = access_count (ms ! j) \<and> i \<le> j)))"
proof -
  obtain r best where sc: "nfua_scan ms = (r, best)" by (cases "nfua_scan ms")
  have tk: "take MAX_PYSC_PAGES (memory_pages (procs s ! p)) = ms" using assms(2,3) by simp
  have run: "NFUA_algorithm s = Ret r s" using assms(1) by (simp add: NFUA_algorithm_def tk sc)
  have top: "w = 0xFFFFFFFF" if "0xFFFFFFFF \<le> w" for w :: u32
    using that u32_max [of w] by (rule antisym [rotated])
  show ?thesis
  proof (cases r)
    case None
    then show ?thesis using nfua_scan_min [OF sc] top by (auto simp: okK_def run)
  next
    case (Some i)
    then have i: "i \<in> set (used_entries ms)"
      and le: "\<And>j. j \<in> set (used_entries ms) \<Longrightarrow> access_count (ms ! i) \<le> access_count (ms ! j)"
      and fst: "\<And>j. j \<in> set (used_entries ms) \<Longrightarrow> access_count (ms ! j) = access_count (ms ! i) \<Longrightarrow> i \<le> j"
      using nfua_scan_min [OF sc] by auto
    show ?thesis
      using i le fst Some by (auto simp: okK_def run) (metis order.not_eq_order_implies_strict)+
  qed
qed

text \<open>\<^verbatim>\<open>num_of_ones\<close> counts the bits that are set.\<close>

lemma num_of_ones_card: "num_of_ones w = card {n. bit w n}"
proof (induction w rule: num_of_ones.induct)
  case (1 w)
  have fin: "finite {n. bit v n}" for v :: u32
    by (rule finite_subset [of _ "{..<32}"]) (auto dest: bit_imp_le_length)
  show ?case
  proof (cases "w = 0")
    case True
    then show ?thesis by (simp add: num_of_ones.simps)
  next
    case False
    have split: "{n. bit w n} = (if bit w 0 then {0} else {}) \<union> Suc ` {n. bit (w div 2) n}"
    proof (rule set_eqI)
      fix n show "n \<in> {n. bit w n} \<longleftrightarrow> n \<in> (if bit w 0 then {0} else {}) \<union> Suc ` {n. bit (w div 2) n}"
        by (cases n) (auto simp: bit_Suc)
    qed
    have "card (Suc ` {n. bit (w div 2) n}) = num_of_ones (w div 2)"
      using 1 False by (simp add: card_image)
    moreover have "card {n. bit w n} = (if bit w 0 then 1 else 0) + card (Suc ` {n. bit (w div 2) n})"
      unfolding split by (subst card_Un_disjoint) (auto simp: fin)
    moreover have "w mod 2 \<noteq> 0 \<longleftrightarrow> bit w 0" by (simp add: bit_0 odd_iff_mod_2_eq_one)
    ultimately show ?thesis using False by (simp add: num_of_ones.simps [of w])
  qed
qed

lemma num_of_ones_le: "num_of_ones w \<le> 32"
proof -
  have "card {n. bit w n} \<le> card {..<32 :: nat}"
    by (rule card_mono) (auto dest: bit_imp_le_length)
  then show ?thesis by (simp add: num_of_ones_card)
qed

text \<open>The order in which LAPA prefers pages: fewer ones, then the smaller counter, then the earlier entry.\<close>

definition lapa_before :: "page_metadata list \<Rightarrow> nat \<Rightarrow> nat \<Rightarrow> bool" where
  "lapa_before ms i j \<longleftrightarrow>
     (let a = access_count (ms ! i); b = access_count (ms ! j) in
      num_of_ones a < num_of_ones b \<or>
      num_of_ones a = num_of_ones b \<and> (a < b \<or> a = b \<and> i \<le> j))"

lemma lapa_before_trans: "lapa_before ms i j \<Longrightarrow> lapa_before ms j k \<Longrightarrow> lapa_before ms i k"
  by (auto simp: lapa_before_def Let_def)

definition lapa_step :: "page_metadata list \<Rightarrow> nat \<times> page_metadata \<Rightarrow> nat option \<times> nat \<Rightarrow> nat option \<times> nat" where
  "lapa_step ms = (\<lambda>(i, m) (page_index, best).
       let curr = num_of_ones (access_count m) in
       if pm_state m = P_USED \<and>
          (curr < best \<or>
           curr = best \<and> (case page_index of None \<Rightarrow> False
                          | Some j \<Rightarrow> access_count m < access_count (ms ! j)))
       then (Some i, curr) else (page_index, best))"

lemma lapa_prefix:
  assumes "k \<le> length ms" and "fold (lapa_step ms) (enumerate 0 (take k ms)) (None, 0xFFFFFFFF) = (r, best)"
  shows "(r = None \<longrightarrow> best = 0xFFFFFFFF \<and> (\<forall>j<k. pm_state (ms ! j) \<noteq> P_USED)) \<and>
    (\<forall>i. r = Some i \<longrightarrow> i < k \<and> pm_state (ms ! i) = P_USED \<and> best = num_of_ones (access_count (ms ! i)) \<and>
       (\<forall>j<k. pm_state (ms ! j) = P_USED \<longrightarrow> lapa_before ms i j))"
  using assms
proof (induction k arbitrary: r best)
  case 0
  then show ?case by auto
next
  case (Suc k)
  obtain r0 best0 where sc: "fold (lapa_step ms) (enumerate 0 (take k ms)) (None, 0xFFFFFFFF) = (r0, best0)"
    by (metis surj_pair)
  have k: "k < length ms" "k \<le> length ms" using Suc.prems(1) by auto
  note IH = Suc.IH [OF k(2) sc]
  have st: "lapa_step ms (k, ms ! k) (r0, best0) = (r, best)"
    using Suc.prems(2) sc k by (simp add: take_Suc_conv_app_nth enumerate_append_eq)
  let ?m = "ms ! k" let ?c = "num_of_ones (access_count ?m)"
  have c32: "?c \<le> 32" by (rule num_of_ones_le)
  show ?case
  proof (cases "pm_state ?m = P_USED")
    case False
    then have r: "r = r0" "best = best0" using st by (auto simp: lapa_step_def Let_def)
    have sk: "\<And>j. j < Suc k \<Longrightarrow> pm_state (ms ! j) = P_USED \<Longrightarrow> j < k" using False less_Suc_eq by auto
    show ?thesis
    proof (cases r0)
      case None
      then have "best0 = 0xFFFFFFFF" "\<forall>j<Suc k. pm_state (ms ! j) \<noteq> P_USED" using IH sk by blast+
      then show ?thesis by (simp add: r None)
    next
      case (Some i)
      then have "i < k" "pm_state (ms ! i) = P_USED" "best0 = num_of_ones (access_count (ms ! i))"
        "\<forall>j<Suc k. pm_state (ms ! j) = P_USED \<longrightarrow> lapa_before ms i j"
        using IH sk by blast+
      then show ?thesis by (simp add: r Some)
    qed
  next
    case u: True
    show ?thesis
    proof (cases r0)
      case None
      then have r: "r = Some k" "best = ?c" using st u IH c32 by (auto simp: lapa_step_def Let_def)
      show ?thesis using None IH u r by (auto simp: less_Suc_eq lapa_before_def Let_def)
    next
      case (Some i)
      then have I: "i < k" "pm_state (ms ! i) = P_USED" "best0 = num_of_ones (access_count (ms ! i))"
        "\<And>j. j < k \<Longrightarrow> pm_state (ms ! j) = P_USED \<Longrightarrow> lapa_before ms i j"
        using IH by auto
      show ?thesis
      proof (cases "?c < best0 \<or> ?c = best0 \<and> access_count ?m < access_count (ms ! i)")
        case True
        then have r: "r = Some k" "best = ?c" using st u Some by (auto simp: lapa_step_def Let_def)
        have "lapa_before ms k i" using True I(3) by (auto simp: lapa_before_def Let_def)
        then have "lapa_before ms k j" if "j < Suc k" "pm_state (ms ! j) = P_USED" for j
          using that I(4) lapa_before_trans
          by (cases "j = k") (auto simp: lapa_before_def [of ms k k] less_Suc_eq)
        then show ?thesis using r u by auto
      next
        case False
        then have r: "r = Some i" "best = best0" using st u Some by (auto simp: lapa_step_def Let_def)
        have "lapa_before ms i k" using False I(1,3) by (auto simp: lapa_before_def Let_def)
        then have "lapa_before ms i j" if "j < Suc k" "pm_state (ms ! j) = P_USED" for j
          using that I(4) by (cases "j = k") (auto simp: less_Suc_eq)
        then show ?thesis using r I by auto
      qed
    qed
  qed
qed

text \<open>
  C13: \<^verbatim>\<open>LAPA_algorithm\<close> picks the resident page whose access counter has the fewest bits set, among
  those the one with the least counter, and among those the first in the table; it always finds
  one when a page is resident.
\<close>

theorem LAPA_picks_fewest_ones:
  assumes "cur s = Some p" and "ms = memory_pages (procs s ! p)" and "length ms = MAX_PYSC_PAGES"
    and "used_entries ms \<noteq> []"
  shows "okK LAPA_algorithm s (\<lambda>r t. t = s \<and> (\<exists>i. r = Some i \<and> i \<in> set (used_entries ms) \<and>
    (\<forall>j\<in>set (used_entries ms).
       (let ones = \<lambda>k. card {n. bit (access_count (ms ! k)) n}; cnt = \<lambda>k. access_count (ms ! k) in
        ones i < ones j \<or> ones i = ones j \<and> (cnt i < cnt j \<or> cnt i = cnt j \<and> i \<le> j)))))"
proof -
  have tk: "take MAX_PYSC_PAGES (memory_pages (procs s ! p)) = ms" using assms(2,3) by simp
  obtain r best where sc: "lapa_scan ms = (r, best)" by (cases "lapa_scan ms")
  then have f: "fold (lapa_step ms) (enumerate 0 (take (length ms) ms)) (None, 0xFFFFFFFF) = (r, best)"
    by (simp add: lapa_scan_def lapa_step_def)
  note L = lapa_prefix [OF order.refl f]
  have run: "LAPA_algorithm s = Ret r s" using assms(1) by (simp add: LAPA_algorithm_def tk sc)
  obtain j where j: "j \<in> set (used_entries ms)" using assms(4) by (meson list.set_sel(1))
  then obtain i where i: "r = Some i" using L by (cases r) (auto simp: set_used_entries)
  then show ?thesis
    using L unfolding okK_def run by (auto simp: set_used_entries lapa_before_def num_of_ones_card Let_def)
qed

section \<open>Access counters\<close>

definition aged :: "kstate \<Rightarrow> nat \<Rightarrow> nat \<Rightarrow> u32" where
  "aged s p i = drop_bit 1 (access_count (memory_pages (procs s ! p) ! i)) OR (if accessed s p i then age_hit else 0)"

lemma unat_aged:
  "unat (aged s p i) = (if accessed s p i then 2 ^ 31 else 0) + unat (access_count (memory_pages (procs s ! p) ! i)) div 2"
proof -
  let ?c = "access_count (memory_pages (procs s ! p) ! i)"
  have d: "unat (drop_bit 1 ?c) = unat ?c div 2" by (simp add: drop_bit_eq_div unat_div)
  have "unat ?c div 2 < 2 ^ 31" using unsigned_less [of ?c, where ?'a = nat] by simp
  moreover have "drop_bit 1 ?c AND age_hit = 0"
  proof (rule bit_eqI)
    fix n assume "possible_bit TYPE(u32) n"
    have a: "age_hit = push_bit 31 1" by (simp add: age_hit_def push_bit_eq_mult)
    have "k = 31" if "bit age_hit k" for k using that unfolding a bit_push_bit_iff by simp
    then show "bit (drop_bit 1 ?c AND age_hit) n = bit 0 n"
      by (auto simp: bit_and_iff bit_drop_bit_eq dest: bit_imp_le_length)
  qed
  then have "drop_bit 1 ?c OR age_hit = drop_bit 1 ?c + age_hit"
    by (simp add: disjunctive_add_eq_or)
  ultimately show ?thesis
    using d by (simp add: aged_def unat_word_ariths age_hit_def)
qed

lemma age_page_used:
  assumes "resident s p fl" and "i \<in> set (used_entries (memory_pages (procs s ! p)))"
  shows "okK (age_page p i) s
    (\<lambda>_ t. \<exists>a v. leaf 2 (mem s) (ppagetable (procs s ! p)) (user_page_VA (memory_pages (procs s ! p) ! i)) = Some a \<and>
       \<not> bit v 6 \<and>
       t = s\<lparr>mem := write64 (mem s) a v, procs := (procs s)[p := (procs s ! p)\<lparr>memory_pages :=
         (memory_pages (procs s ! p))[i := (memory_pages (procs s ! p) ! i)\<lparr>access_count := aged s p i\<rparr>]\<rparr>]\<rparr>)"
proof -
  let ?q = "procs s ! p" let ?ms = "memory_pages ?q" and ?pt = "ppagetable ?q"
  note R = assms(1) [unfolded resident_def Let_def]
  let ?va = "user_page_VA (?ms ! i)"
  have va: "?va < MAXVA" and inv: "pt_inv s ?pt fl" and pl: "p < length (procs s)" and il: "i < length ?ms"
    and st: "pm_state (?ms ! i) = P_USED"
    using R assms(2) by (blast, blast, blast, simp_all add: set_used_entries)
  obtain a where a: "leaf 2 (mem s) ?pt ?va = Some a" using R assms(2) by blast
  have w: "walk ?pt ?va False t = Ret a t" if "mem t = mem s" for t
    using walk_existing [of t ?pt ?va a] a va that by simp
  have a0: "a \<noteq> 0" using walk_noalloc(2) [OF inv va a] .
  define e where "e = read64 (mem s) a"
  have b: "accessed s p i \<longleftrightarrow> bit e 6" using a by (simp add: accessed_def pte_of_def e_def)
  have nb: "\<not> bit (e AND NOT PTE_A) 6" unfolding bit_and_iff bit_not_iff using bit_PTE_A by simp
  show ?thesis
  proof (cases "bit e 6")
    case True
    show ?thesis
      by (rule okK_I, simp add: age_page_def w st a0 modM_def e_def [symmetric] True pl il,
          intro exI [of _ a] exI [of _ "e AND NOT PTE_A"])
        (use True a nb pl in \<open>simp add: aged_def b\<close>)
  next
    case False
    show ?thesis
      by (rule okK_I, simp add: age_page_def w st a0 modM_def e_def [symmetric] False pl il,
          intro exI [of _ a] exI [of _ e])
        (use False a in \<open>simp add: aged_def b e_def [symmetric] write64_read64 [of "mem s" a, folded e_def]\<close>)
  qed
qed

definition aging_inv :: "kstate \<Rightarrow> nat \<Rightarrow> u64 list \<Rightarrow> nat list \<Rightarrow> kstate \<Rightarrow> bool" where
  "aging_inv s p fl ys t \<longleftrightarrow>
     (let ms = memory_pages (procs s ! p); ms' = memory_pages (procs t ! p) in
      resident t p fl \<and> used_entries ms' = used_entries ms \<and>
      (\<forall>j\<in>set (used_entries ms).
         access_count (ms' ! j) = (if j \<in> set ys then aged s p j else access_count (ms ! j)) \<and>
         accessed t p j = (accessed s p j \<and> j \<notin> set ys)))"

lemma aging_turn:
  assumes "aging_inv s p fl ys t" and "i \<notin> set ys" and "i < MAX_PYSC_PAGES"
  shows "okK (age_page p i) t (\<lambda>_ u. aging_inv s p fl (ys @ [i]) u)"
proof (cases "i \<in> set (used_entries (memory_pages (procs t ! p)))")
  case False
  have A: "aging_inv s p fl (ys @ [i]) t"
    using assms(1) False by (auto simp: aging_inv_def Let_def)
  have "length (memory_pages (procs t ! p)) = MAX_PYSC_PAGES"
    using assms(1) by (simp add: aging_inv_def resident_def Let_def)
  then have "pm_state (memory_pages (procs t ! p) ! i) \<noteq> P_USED" using False assms(3) by (simp add: set_used_entries)
  then show ?thesis by (simp add: age_page_def A)
next
  case True
  let ?ms = "memory_pages (procs t ! p)"
  have res: "resident t p fl" and ue: "used_entries ?ms = used_entries (memory_pages (procs s ! p))"
    using assms(1) by (simp_all add: aging_inv_def Let_def)
  have old: "access_count (?ms ! j) = (if j \<in> set ys then aged s p j else access_count (memory_pages (procs s ! p) ! j))"
    "accessed t p j = (accessed s p j \<and> j \<notin> set ys)" if "j \<in> set (used_entries ?ms)" for j
    using assms(1) that by (simp_all add: aging_inv_def Let_def)
  have same: "aged t p i = aged s p i" using old [OF True] assms(2) by (simp add: aged_def)
  have len: "length ?ms = MAX_PYSC_PAGES" using res by (simp add: resident_def Let_def)
  then have i: "i < length ?ms" using assms(3) by simp
  let ?q' = "(procs t ! p)\<lparr>memory_pages := ?ms[i := (?ms ! i)\<lparr>access_count := aged t p i\<rparr>]\<rparr>"
  have q': "ppagetable ?q' = ppagetable (procs t ! p)" "length (memory_pages ?q') = MAX_PYSC_PAGES"
    using len by simp_all
  have st: "pm_state (memory_pages ?q' ! j) = pm_state (?ms ! j)"
    and va: "user_page_VA (memory_pages ?q' ! j) = user_page_VA (?ms ! j)" for j
    using i by (cases "j = i"; simp)+
  have u': "used_entries (memory_pages ?q') = used_entries ?ms"
    unfolding used_entries_def unfolding st by simp
  show ?thesis
  proof (rule okK_mono [OF age_page_used [OF res True]])
    fix r u
    assume "\<exists>a v. leaf 2 (mem t) (ppagetable (procs t ! p)) (user_page_VA (?ms ! i)) = Some a \<and> \<not> bit v 6 \<and>
       u = t\<lparr>mem := write64 (mem t) a v, procs := (procs t)[p := ?q']\<rparr>"
    then obtain a v where a: "leaf 2 (mem t) (ppagetable (procs t ! p)) (user_page_VA (?ms ! i)) = Some a"
      and v: "\<not> bit v 6" and u: "u = t\<lparr>mem := write64 (mem t) a v, procs := (procs t)[p := ?q']\<rparr>" by blast
    note W = resident_write [OF res True a q' u' va u]
    have ac: "access_count (memory_pages (procs u ! p) ! j) = (if j = i then aged t p i else access_count (?ms ! j))" for j
      unfolding W(2) using i by simp
    show "aging_inv s p fl (ys @ [i]) u"
      unfolding aging_inv_def Let_def using W(1,3) v ac old same u' ue [symmetric] unfolding W(2) by auto
  qed
qed

text \<open>
  C14: \<^verbatim>\<open>update_access_counter\<close> ages the counter of every resident page: the counter is halved and \<open>2 ^ 31\<close>
  added when the page was accessed since the last time, and every accessed bit is clear afterwards.
  The set of resident pages and the page table's shape do not change.
\<close>

theorem update_access_counter_ages:
  assumes "resident s p fl"
  shows "okK (update_access_counter p) s (\<lambda>_ t.
    let ms = memory_pages (procs s ! p); ms' = memory_pages (procs t ! p) in
    resident t p fl \<and> used_entries ms' = used_entries ms \<and>
    (\<forall>i\<in>set (used_entries ms).
       unat (access_count (ms' ! i)) = (if accessed s p i then 2 ^ 31 else 0) + unat (access_count (ms ! i)) div 2 \<and>
       \<not> accessed t p i))"
proof -
  have len: "length (memory_pages (procs s ! p)) = MAX_PYSC_PAGES" using assms by (simp add: resident_def Let_def)
  have "okK (update_access_counter p) s (\<lambda>_ t. aging_inv s p fl [0..<MAX_PYSC_PAGES] t)"
    unfolding update_access_counter_def
  proof (rule okK_for)
    show "aging_inv s p fl [] s" using assms by (simp add: aging_inv_def Let_def)
    fix ys x zs t assume xs: "[0..<MAX_PYSC_PAGES] = ys @ x # zs" and I: "aging_inv s p fl ys t"
    have "distinct (ys @ x # zs)" unfolding xs [symmetric] by simp
    then have new: "x \<notin> set ys" by simp
    have "x \<in> set [0..<MAX_PYSC_PAGES]" unfolding xs by simp
    then have "x < MAX_PYSC_PAGES" by simp
    then show "okK (age_page p x) t (\<lambda>_ u. aging_inv s p fl (ys @ [x]) u)" by (rule aging_turn [OF I new])
  qed
  then show ?thesis
    by (rule okK_mono) (use len in \<open>auto simp: aging_inv_def Let_def set_used_entries unat_aged\<close>)
qed

section \<open>A process with two resident pages\<close>

text \<open>Page 0 was accessed and came first, page 1 was not; the counters are 6 and 5.\<close>

definition sample_meta :: "page_metadata list" where
  "sample_meta =
     [\<lparr>pm_state = P_USED, user_page_VA = 0, page_order = 0, access_count = 6\<rparr>,
      \<lparr>pm_state = P_USED, user_page_VA = 0x1000, page_order = 1, access_count = 5\<rparr>] @
     replicate 14 page_metadata_zero"

lemma sample_meta_facts [simp]:
  "length sample_meta = 16" "used_entries sample_meta = [0, 1]"
  "sample_meta ! 0 = \<lparr>pm_state = P_USED, user_page_VA = 0, page_order = 0, access_count = 6\<rparr>"
  "sample_meta ! 1 = \<lparr>pm_state = P_USED, user_page_VA = 0x1000, page_order = 1, access_count = 5\<rparr>"
  "sample_meta ! Suc 0 = \<lparr>pm_state = P_USED, user_page_VA = 0x1000, page_order = 1, access_count = 5\<rparr>"
  by (simp_all add: sample_meta_def used_entries_def upt_rec page_metadata_zero_def)

definition sample_paged :: kstate where
  "sample_paged = sample_run\<lparr>
     mem := write64 (write64 sample_user_ram (slot 0x87ffa000 0) 0x21c0005f) (slot 0x87ffa000 1) 0x21c0041f,
     procs := (procs sample_run)[0 := (procs sample_run ! 0)\<lparr>
       memory_pages := sample_meta,
       page_order_counter := 2, pages_in_memory_counter := 2\<rparr>]\<rparr>"

lemma sample_user_leaf:
  "leaf 2 sample_user_ram sample_pt 0 = Some (slot 0x87ffa000 0)"
  "leaf 2 sample_user_ram sample_pt 0x1000 = Some (slot 0x87ffa000 1)"
proof -
  have two: "2 = Suc (Suc 0)" by simp
  have px: "PX 2 0 = 0" "PX 1 0 = 0" "PX 0 0 = 0" "PX 2 0x1000 = 0" "PX 1 0x1000 = 0" "PX 0 0x1000 = 1"
    by (simp_all add: PX_def drop_bit_eq_div)
  show "leaf 2 sample_user_ram sample_pt 0 = Some (slot 0x87ffa000 0)"
    "leaf 2 sample_user_ram sample_pt 0x1000 = Some (slot 0x87ffa000 1)"
    using px unfolding two sample_pt_def leaf.simps One_nat_def by (simp_all add: sample_user_child)
qed

lemma sample_paged_fields [simp]:
  "cur sample_paged = Some 0" "length (procs sample_paged) = NPROC"
  "mem sample_paged = write64 (write64 sample_user_ram (slot 0x87ffa000 0) 0x21c0005f) (slot 0x87ffa000 1) 0x21c0041f"
  "ppagetable (procs sample_paged ! 0) = sample_pt" "page_order_counter (procs sample_paged ! 0) = 2"
  "memory_pages (procs sample_paged ! 0) = sample_meta"
  by (simp_all add: sample_paged_def NPROC_def)

lemma sample_paged_facts:
  "resident sample_paged 0 sample_pages" "accessed sample_paged 0 0" "\<not> accessed sample_paged 0 1"
proof -
  have r: "pt_inv sample_run sample_pt sample_pages" using sample_run_uspace by (simp add: uspace_def)
  have mx: "(0 :: u64) < MAXVA" "(0x1000 :: u64) < MAXVA" by (simp_all add: MAXVA_val)
  have l: "leaf 2 (mem sample_run) sample_pt 0 = Some (slot 0x87ffa000 0)" by (simp add: sample_user_leaf)
  let ?s1 = "sample_run\<lparr>mem := write64 (mem sample_run) (slot 0x87ffa000 0) 0x21c0005f\<rparr>"
  note W1 = pt_write_inv [OF r l mx(1), where v = "0x21c0005f"]
  have wf: "pt_wf 2 (mem sample_run) sample_pt" using r by (simp add: pt_inv_def)
  have lf1: "leaf 2 (mem ?s1) sample_pt v = leaf 2 sample_user_ram sample_pt v" for v
    using pt_write_leaf(3) [OF wf l] by simp
  have l2: "leaf 2 (mem ?s1) sample_pt 0x1000 = Some (slot 0x87ffa000 1)" unfolding lf1 by (rule sample_user_leaf)
  note W2 = pt_write_inv [OF W1(1) l2 mx(2), where v = "0x21c0041f"]
  have wf2: "pt_wf 2 (mem ?s1) sample_pt" using W1(1) by (simp add: pt_inv_def)
  have lf2: "leaf 2 (mem sample_paged) sample_pt v = leaf 2 sample_user_ram sample_pt v" for v
    using pt_write_leaf(3) [OF wf2 l2] lf1 by simp
  have "pt_inv sample_paged sample_pt sample_pages"
    by (rule pt_inv_cong [THEN iffD2, OF _ _ _ W2(1)]) (simp_all add: sample_paged_def)
  then show "resident sample_paged 0 sample_pages"
    using mx lf2 sample_user_leaf
    by (simp add: resident_def MAX_PYSC_PAGES_def NPROC_def PGROUNDDOWN_aligned page_aligned_unat)
  show "accessed sample_paged 0 0" "\<not> accessed sample_paged 0 1"
    using W2(4) [OF mx(1)] W2(4) [OF mx(2)] W1(4) [OF mx(1)]
    by (simp_all add: accessed_def PGROUNDDOWN_aligned page_aligned_unat bit_numeral_rec)
qed

lemma sample_paged_queue: "page_queue sample_paged 0 = [(0, True), (1, False)]"
  using sample_paged_facts
  by (simp add: page_queue_def fifo_def order_of_def)

lemma sample_paged_numbered: "numbered (procs sample_paged ! 0) MAX_PYSC_PAGES"
  by (simp add: numbered_def order_of_def MAX_PYSC_PAGES_def)

theorem SCFIFO_is_second_chance_witness:
  "okK SCFIFO_algorithm sample_paged (\<lambda>i t. i = 1 \<and> page_queue t 0 = [(1, False), (0, False)])"
  by (rule okK_mono [OF SCFIFO_is_second_chance [OF sample_paged_facts(1) sample_paged_numbered]])
    (auto simp: sample_paged_queue)

theorem NFUA_picks_least_counter_witness:
  "okK NFUA_algorithm sample_paged (\<lambda>r t. r = Some 1)"
  by (rule okK_mono [OF NFUA_picks_least_counter [of sample_paged 0 sample_meta]])
    (auto simp: MAX_PYSC_PAGES_def split: option.splits)

theorem LAPA_picks_fewest_ones_witness:
  "okK LAPA_algorithm sample_paged (\<lambda>r t. r = Some 1)"
proof -
  have c: "card {n. bit (6 :: u32) n} = 2" "card {n. bit (5 :: u32) n} = 2"
    unfolding num_of_ones_card [symmetric] by (simp_all add: num_of_ones.simps)
  show ?thesis
    by (rule okK_mono [OF LAPA_picks_fewest_ones [of sample_paged 0 sample_meta]])
      (auto simp: MAX_PYSC_PAGES_def Let_def c)
qed

theorem update_access_counter_ages_witness:
  "okK (update_access_counter 0) sample_paged (\<lambda>_ t.
     unat (access_count (memory_pages (procs t ! 0) ! 0)) = 2 ^ 31 + 3 \<and>
     unat (access_count (memory_pages (procs t ! 0) ! 1)) = 2 \<and> \<not> accessed t 0 0)"
  by (rule okK_mono [OF update_access_counter_ages [OF sample_paged_facts(1)]])
    (use sample_paged_facts(2,3) in \<open>simp add: Let_def\<close>)

end
