(* ===== verification/Proc.thy ===== *)
theory Proc
  imports Paging
begin

text \<open>
  Processes (\<^verbatim>\<open>kernel/proc.c\<close>): allocation and release of process slots, user page tables, fork, exit,
  wait and the turns of the scheduler. \<^verbatim>\<open>sched\<close>, \<^verbatim>\<open>sleep\<close> and \<^verbatim>\<open>wakeup\<close> are in the theory Sched. The kernel
  page table is built here too, since it maps the kernel stacks.
\<close>

section \<open>Kernel page table\<close>

definition proc_mapstacks :: "u64 \<Rightarrow> unit K" where
  "proc_mapstacks kpgtbl =
     forK [0..<NPROC] (\<lambda>p.
       bindK kalloc (\<lambda>pa.
       thenK (panic_if (pa = 0) ''kalloc'')
             (kvmmap kpgtbl (KSTACK p) pa PGSIZE (PTE_R OR PTE_W))))"

definition kvmmake :: "u64 K" where
  "kvmmake =
     bindK kalloc (\<lambda>kpgtbl.
     thenK (memsetK kpgtbl 0 4096)
    (thenK (kvmmap kpgtbl UART0 UART0 PGSIZE (PTE_R OR PTE_W))
    (thenK (kvmmap kpgtbl VIRTIO0 VIRTIO0 PGSIZE (PTE_R OR PTE_W))
    (thenK (kvmmap kpgtbl PLIC PLIC 0x400000 (PTE_R OR PTE_W))
    (bindK (getK (\<lambda>s. (sym_etext s, sym_trampoline s))) (\<lambda>(etext, tramp).
     thenK (kvmmap kpgtbl KERNBASE KERNBASE (etext - KERNBASE) (PTE_R OR PTE_X))
    (thenK (kvmmap kpgtbl etext etext (PHYSTOP - etext) (PTE_R OR PTE_W))
    (thenK (kvmmap kpgtbl TRAMPOLINE tramp PGSIZE (PTE_R OR PTE_X))
    (thenK (proc_mapstacks kpgtbl)
           (retK kpgtbl))))))))))"

definition kvminit :: "unit K" where
  "kvminit = bindK kvmmake (\<lambda>pt. modK (\<lambda>s. s\<lparr>kernel_pagetable := pt\<rparr>))"

section \<open>Process slots\<close>

definition procinit :: "unit K" where
  "procinit =
     thenK (initlock L_pid)
    (thenK (initlock L_wait)
    (forK [0..<NPROC] (\<lambda>p.
       thenK (initlock (L_proc p)) (modP p (\<lambda>q. q\<lparr>kstack := KSTACK p\<rparr>)))))"

definition allocpid :: "int K" where
  "allocpid =
     thenK (acquire L_pid)
    (bindK (getK nextpid) (\<lambda>pd.
     thenK (modK (\<lambda>s. s\<lparr>nextpid := nextpid s + 1\<rparr>))
    (thenK (release L_pid)
           (retK pd))))"

definition proc_pagetable :: "nat \<Rightarrow> u64 K" where
  "proc_pagetable p =
     bindK uvmcreate (\<lambda>pt.
     if pt = 0 then retK 0
     else
       bindK (getK sym_trampoline) (\<lambda>tramp.
       bindK (mappages pt TRAMPOLINE PGSIZE tramp (PTE_R OR PTE_X)) (\<lambda>r.
       if r < 0 then thenK (uvmfree pt 0) (retK 0)
       else
         bindK (getP p trapframe) (\<lambda>tf.
         bindK (mappages pt TRAPFRAME PGSIZE tf (PTE_R OR PTE_W)) (\<lambda>r.
         if r < 0
         then thenK (uvmunmap pt TRAMPOLINE 1 False) (thenK (uvmfree pt 0) (retK 0))
         else retK pt)))))"

definition proc_freepagetable :: "u64 \<Rightarrow> u64 \<Rightarrow> unit K" where
  "proc_freepagetable pt sz =
     thenK (uvmunmap pt TRAMPOLINE 1 False)
    (thenK (uvmunmap pt TRAPFRAME 1 False)
           (uvmfree pt sz))"

definition freeproc :: "nat \<Rightarrow> unit K" where
  "freeproc p =
     bindK (getP p trapframe) (\<lambda>tf.
     thenK (whenK (tf \<noteq> 0) (kfree tf))
    (thenK (modP p (\<lambda>q. q\<lparr>trapframe := 0\<rparr>))
    (bindK (getP p (\<lambda>q. (ppagetable q, psz q))) (\<lambda>(pt, sz).
     thenK (whenK (pt \<noteq> 0) (proc_freepagetable pt sz))
           (modP p (\<lambda>q. q\<lparr>ppagetable := 0, psz := 0, pid := 0, parent := None,
              pname := (pname q)[0 := 0], pchan := None, killed := False, xstate := 0,
              pstate := UNUSED\<rparr>))))))"

text \<open>The address of \<^verbatim>\<open>forkret\<close>, at which a new process starts, is a parameter.\<close>

definition allocproc_found :: "u64 \<Rightarrow> nat \<Rightarrow> nat option K" where
  "allocproc_found forkret_addr p =
     bindK allocpid (\<lambda>pd.
     thenK (modP p (\<lambda>q. q\<lparr>pid := pd, pstate := USED\<rparr>))
    (bindK kalloc (\<lambda>tf.
     thenK (modP p (\<lambda>q. q\<lparr>trapframe := tf\<rparr>))
    (if tf = 0 then thenK (freeproc p) (thenK (release (L_proc p)) (retK None))
     else
       bindK (proc_pagetable p) (\<lambda>pt.
       thenK (modP p (\<lambda>q. q\<lparr>ppagetable := pt\<rparr>))
      (if pt = 0 then thenK (freeproc p) (thenK (release (L_proc p)) (retK None))
       else
         bindK is_none_policy (\<lambda>none.
         thenK (whenK (pd > 2 \<and> \<not> none)
           (thenK (release (L_proc p))
           (bindK (createSwapFile p) (\<lambda>_.
            acquire (L_proc p)))))
        (thenK (modP p (\<lambda>q. q\<lparr>pcontext := context_zero
                  \<lparr>ctx_ra := forkret_addr, ctx_sp := kstack q + PGSIZE\<rparr>\<rparr>))
               (retK (Some p))))))))))"

definition allocproc :: "u64 \<Rightarrow> nat option K" where
  "allocproc forkret_addr =
     bindK (loopK [0..<NPROC] (\<lambda>p.
       thenK (acquire (L_proc p))
      (bindK (getP p pstate) (\<lambda>st.
       if st = UNUSED then retK (Some p)
       else thenK (release (L_proc p)) (retK None)))))
     (\<lambda>r. case r of None \<Rightarrow> retK None | Some p \<Rightarrow> allocproc_found forkret_addr p)"

definition initcode :: "u8 list" where
  "initcode =
     [0x17, 0x05, 0x00, 0x00, 0x13, 0x05, 0x45, 0x02,
      0x97, 0x05, 0x00, 0x00, 0x93, 0x85, 0x35, 0x02,
      0x93, 0x08, 0x70, 0x00, 0x73, 0x00, 0x00, 0x00,
      0x93, 0x08, 0x20, 0x00, 0x73, 0x00, 0x00, 0x00,
      0xef, 0xf0, 0x9f, 0xff, 0x2f, 0x69, 0x6e, 0x69,
      0x74, 0x00, 0x00, 0x24, 0x00, 0x00, 0x00, 0x00,
      0x00, 0x00, 0x00, 0x00]"

definition userinit :: "u64 \<Rightarrow> unit K" where
  "userinit forkret_addr =
     bindK (allocproc forkret_addr) (\<lambda>po.
     thenK (modK (\<lambda>s. s\<lparr>initproc := po\<rparr>))
    (case po of None \<Rightarrow> wildK
     | Some p \<Rightarrow>
         bindK (getP p (\<lambda>q. (ppagetable q, trapframe q))) (\<lambda>(pt, tf).
         thenK (uvminit pt initcode)
        (thenK (modP p (\<lambda>q. q\<lparr>psz := PGSIZE\<rparr>))
        (thenK (wr64 (tf + TF_epc) 0)
        (thenK (wr64 (tf + TF_sp) PGSIZE)
        (thenK (modP p (\<lambda>q. q\<lparr>pname := safestrcpy (pname q) (str ''initcode'' @ [0]) 16\<rparr>))
        (bindK (namei (str ''/'' @ [0])) (\<lambda>ci.
         thenK (modP p (\<lambda>q. q\<lparr>cwd := ci, pstate := RUNNABLE\<rparr>))
               (release (L_proc p)))))))))))"

definition growproc :: "int \<Rightarrow> int K" where
  "growproc n =
     bindK myproc (\<lambda>p.
     bindK (getP p (\<lambda>q. (ppagetable q, ucast (psz q) :: u32))) (\<lambda>(pt, sz).
     if n > 0
     then
       bindK (uvmalloc pt (ucast sz) (ucast (sz + of_int n))) (\<lambda>sz'.
       if (ucast sz' :: u32) = 0 then retK (-1)
       else thenK (modP p (\<lambda>q. q\<lparr>psz := ucast (ucast sz' :: u32)\<rparr>)) (retK 0))
     else if n < 0
     then
       bindK (uvmdealloc pt (ucast sz) (ucast (sz + of_int n))) (\<lambda>sz'.
       thenK (modP p (\<lambda>q. q\<lparr>psz := ucast (ucast sz' :: u32)\<rparr>)) (retK 0))
     else thenK (modP p (\<lambda>q. q\<lparr>psz := ucast sz\<rparr>)) (retK 0)))"

section \<open>Fork, exit and wait\<close>

definition copy_page_metadata :: "nat \<Rightarrow> nat \<Rightarrow> unit K" where
  "copy_page_metadata p np =
     bindK (getP p (\<lambda>q. q)) (\<lambda>q.
     modP np (\<lambda>r. r\<lparr>page_fault_counter := 0, page_order_counter := page_order_counter q,
       pages_in_file_counter := pages_in_file_counter q,
       pages_in_memory_counter := pages_in_memory_counter q,
       memory_pages := memory_pages q, file_pages := file_pages q\<rparr>))"

definition fork :: "u64 \<Rightarrow> int K" where
  "fork forkret_addr =
     bindK myproc (\<lambda>p.
     bindK (allocproc forkret_addr) (\<lambda>no.
     case no of None \<Rightarrow> retK (-1)
     | Some np \<Rightarrow>
         bindK (getP p (\<lambda>q. (ppagetable q, psz q, pid q, trapframe q))) (\<lambda>(pt, sz, ppid, tf).
         bindK (getP np (\<lambda>q. (ppagetable q, trapframe q))) (\<lambda>(npt, ntf).
         bindK (uvmcopy pt npt sz) (\<lambda>r.
         if r < 0 then thenK (freeproc np) (thenK (release (L_proc np)) (retK (-1)))
         else
           thenK (modP np (\<lambda>q. q\<lparr>psz := sz\<rparr>))
          (thenK (whenK (ppid > 2)
             (thenK (release (L_proc np))
             (thenK (copy_swap_file p np)
             (thenK (acquire (L_proc np))
                    (copy_page_metadata p np)))))
          (thenK (memmoveK ntf tf TF_SIZE)
          (thenK (wr64 (ntf + TF_a 0) 0)
          (thenK (forK [0..<NOFILE] (\<lambda>i.
             bindK (getP p (\<lambda>q. ofile q ! i)) (\<lambda>fo.
             case fo of None \<Rightarrow> retK ()
             | Some f \<Rightarrow> bindK (filedup f) (\<lambda>f'.
                          modP np (\<lambda>q. q\<lparr>ofile := (ofile q)[i := Some f']\<rparr>)))))
          (bindK (getP p cwd) (\<lambda>c.
           bindK (case c of None \<Rightarrow> wildK | Some i \<Rightarrow> idup i) (\<lambda>i'.
           bindK (getP p pname) (\<lambda>nm.
           thenK (modP np (\<lambda>q. q\<lparr>cwd := Some i', pname := safestrcpy (pname q) nm 16\<rparr>))
          (bindK (getP np pid) (\<lambda>npid.
           thenK (release (L_proc np))
          (thenK (acquire L_wait)
          (thenK (modP np (\<lambda>q. q\<lparr>parent := Some p\<rparr>))
          (thenK (release L_wait)
          (thenK (acquire (L_proc np))
          (thenK (modP np (\<lambda>q. q\<lparr>pstate := RUNNABLE\<rparr>))
          (thenK (release (L_proc np))
                 (retK npid))))))))))))))))))))))"

definition proc_chan :: "nat option \<Rightarrow> chan option" where
  "proc_chan po = map_option Ch_proc po"

definition reparent :: "nat \<Rightarrow> unit K" where
  "reparent p =
     forK [0..<NPROC] (\<lambda>pp.
       bindK (getP pp parent) (\<lambda>par.
       whenK (par = Some p)
         (bindK (getK initproc) (\<lambda>ip.
          thenK (modP pp (\<lambda>q. q\<lparr>parent := ip\<rparr>))
                (wakeup (proc_chan ip))))))"

definition clear_memory_metadata :: "unit K" where
  "clear_memory_metadata =
     bindK myproc (\<lambda>p.
     modP p (\<lambda>q. q\<lparr>page_order_counter := 0, pages_in_file_counter := 0, pages_in_memory_counter := 0,
       page_fault_counter := 0,
       memory_pages := replicate MAX_PYSC_PAGES page_metadata_zero,
       file_pages := replicate FILE_PAGES page_metadata_zero\<rparr>))"

definition exit :: "int \<Rightarrow> unit K" where
  "exit status =
     bindK myproc (\<lambda>p.
     bindK (getK initproc) (\<lambda>ip.
     thenK (panic_if (Some p = ip) ''init exiting'')
    (thenK (forK [0..<NOFILE] (\<lambda>fd.
       bindK (getP p (\<lambda>q. ofile q ! fd)) (\<lambda>fo.
       case fo of None \<Rightarrow> retK ()
       | Some f \<Rightarrow> thenK (fileclose f) (modP p (\<lambda>q. q\<lparr>ofile := (ofile q)[fd := None]\<rparr>)))))
    (bindK (getP p pid) (\<lambda>pd.
     bindK is_none_policy (\<lambda>none.
     thenK (whenK (pd > 2 \<and> \<not> none) (bindK (removeSwapFile p) (\<lambda>_. clear_memory_metadata)))
    (thenK begin_op
    (bindK (getP p cwd) (\<lambda>c.
     thenK (case c of None \<Rightarrow> wildK | Some i \<Rightarrow> iput i)
    (thenK end_op
    (thenK (modP p (\<lambda>q. q\<lparr>cwd := None\<rparr>))
    (thenK (acquire L_wait)
    (thenK (reparent p)
    (bindK (getP p parent) (\<lambda>par.
     thenK (wakeup (proc_chan par))
    (thenK (acquire (L_proc p))
    (thenK (modP p (\<lambda>q. q\<lparr>xstate := status, pstate := ZOMBIE\<rparr>))
    (thenK (release L_wait)
    (thenK sched
           (panicK ''zombie exit''))))))))))))))))))))"

text \<open>One scan of the process table in \<^verbatim>\<open>wait\<close>: a result to return, or whether there are children.\<close>

primrec wait_scan :: "nat \<Rightarrow> u64 \<Rightarrow> nat list \<Rightarrow> bool \<Rightarrow> (int option \<times> bool) K" where
  "wait_scan p addr [] havekids = retK (None, havekids)"
| "wait_scan p addr (np # nps) havekids =
     bindK (getP np parent) (\<lambda>par.
     if par = Some p
     then
       thenK (acquire (L_proc np))
      (bindK (getP np (\<lambda>q. (pstate q, pid q, xstate q))) (\<lambda>(st, pd, xs).
       if st = ZOMBIE
       then
         bindK (getP p ppagetable) (\<lambda>pt.
         bindK (if addr \<noteq> 0 then copyout pt addr (int_bytes xs) else retK 0) (\<lambda>r.
         if r < 0
         then thenK (release (L_proc np)) (thenK (release L_wait) (retK (Some (-1), True)))
         else
           thenK (freeproc np)
          (thenK (release (L_proc np))
          (thenK (release L_wait)
                 (retK (Some pd, True))))))
       else thenK (release (L_proc np)) (wait_scan p addr nps True)))
     else wait_scan p addr nps havekids)"

definition wait :: "u64 \<Rightarrow> int K" where
  "wait addr =
     bindK myproc (\<lambda>p.
     thenK (acquire L_wait)
     (whileK (bindK (wait_scan p addr [0..<NPROC] False) (\<lambda>(r, havekids).
        case r of Some v \<Rightarrow> retK (Some v)
        | None \<Rightarrow>
            bindK (getP p killed) (\<lambda>k.
            if \<not> havekids \<or> k then thenK (release L_wait) (retK (Some (-1)))
            else thenK (sleep (Ch_proc p) L_wait) (retK None))))))"

section \<open>The scheduler\<close>

text \<open>
  A turn of the scheduler's loop for process \<open>p\<close> up to the switch to it, and what the scheduler does
  when the process has switched back.
\<close>

definition sched_enter :: "nat \<Rightarrow> bool K" where
  "sched_enter p =
     thenK (acquire (L_proc p))
    (bindK (getP p pstate) (\<lambda>st.
     if st = RUNNABLE
     then thenK (modP p (\<lambda>q. q\<lparr>pstate := RUNNING\<rparr>))
         (thenK (modK (\<lambda>s. s\<lparr>cur := Some p\<rparr>))
                (retK True))
     else thenK (release (L_proc p)) (retK False)))"

definition sched_leave :: "nat \<Rightarrow> unit K" where
  "sched_leave p =
     bindK (getK selection) (\<lambda>sel.
     thenK (whenK (sel = NFUA \<or> sel = LAPA) (update_access_counter p))
    (thenK (modK (\<lambda>s. s\<lparr>cur := None\<rparr>))
           (release (L_proc p))))"

end
