(* ===== verification/Exec.thy ===== *)
theory Exec
  imports Proc
begin

text \<open>
  Replacing the image of a process (\<^verbatim>\<open>kernel/exec.c\<close>) and the system call \<^verbatim>\<open>sys_exec\<close> that prepares
  its arguments (\<^verbatim>\<open>kernel/sysfile.c\<close>). The headers of \<^verbatim>\<open>kernel/elf.h\<close> are read field by field.
\<close>

section \<open>ELF headers\<close>

record elfhdr =
  elf_magic :: u32
  elf_entry :: u64
  elf_phoff :: u64
  elf_phnum :: nat

record proghdr =
  ph_type :: u32
  ph_off :: u64
  ph_vaddr :: u64
  ph_filesz :: u64
  ph_memsz :: u64

definition ELF_MAGIC :: u32 where "ELF_MAGIC = 0x464C457F"
definition ELF_PROG_LOAD :: u32 where "ELF_PROG_LOAD = 1"
definition ELFHDR_SIZE :: nat where "ELFHDR_SIZE = 64"
definition PROGHDR_SIZE :: nat where "PROGHDR_SIZE = 56"

definition field :: "nat \<Rightarrow> u8 list \<Rightarrow> nat \<Rightarrow> u8 list" where
  "field n bs off = take n (drop off bs)"

definition elf_load :: "u8 list \<Rightarrow> elfhdr" where
  "elf_load bs = \<lparr>elf_magic = le_word (field 4 bs 0), elf_entry = le_word (field 8 bs 24),
     elf_phoff = le_word (field 8 bs 32), elf_phnum = unat (le_word (field 2 bs 56) :: u16)\<rparr>"

definition ph_load :: "u8 list \<Rightarrow> proghdr" where
  "ph_load bs = \<lparr>ph_type = le_word (field 4 bs 0), ph_off = le_word (field 8 bs 8),
     ph_vaddr = le_word (field 8 bs 16), ph_filesz = le_word (field 8 bs 32),
     ph_memsz = le_word (field 8 bs 40)\<rparr>"

section \<open>Loading\<close>

text \<open>The offset and the size are converted to \<^verbatim>\<open>uint\<close> by the call.\<close>

definition loadseg :: "u64 \<Rightarrow> u64 \<Rightarrow> nat \<Rightarrow> u32 \<Rightarrow> u32 \<Rightarrow> int K" where
  "loadseg pt va ip offset sz =
     thenK (panic_if (va mod PGSIZE \<noteq> 0) ''loadseg: va must be page aligned'')
    (bindK (loopK [0..<(unat sz + 4095) div 4096] (\<lambda>k.
       let i = k * 4096; n = min (unat sz - i) 4096 in
       bindK (walkaddr pt (va + of_nat i)) (\<lambda>pa.
       thenK (panic_if (pa = 0) ''loadseg: address should exist'')
      (bindK (readi ip (KDst pa) (unat (offset + of_nat i)) n) (\<lambda>(r, bs).
       retK (if r \<noteq> int n then Some (-1) else None))))))
     (\<lambda>r. retK (case r of Some v \<Rightarrow> v | None \<Rightarrow> 0)))"

text \<open>The loop over the program headers: whether it went through, and the size reached.\<close>

primrec exec_load :: "u64 \<Rightarrow> nat \<Rightarrow> nat \<Rightarrow> u32 \<Rightarrow> u64 \<Rightarrow> (bool \<times> u64) K" where
  "exec_load pt ip 0 off sz = retK (True, sz)"
| "exec_load pt ip (Suc k) off sz =
     bindK (readi ip LDst (unat off) PROGHDR_SIZE) (\<lambda>(r, bs).
     if r \<noteq> int PROGHDR_SIZE then retK (False, sz)
     else
       let ph = ph_load bs in
       if ph_type ph \<noteq> ELF_PROG_LOAD then exec_load pt ip k (off + of_nat PROGHDR_SIZE) sz
       else if ph_memsz ph < ph_filesz ph then retK (False, sz)
       else if ph_vaddr ph + ph_memsz ph < ph_vaddr ph then retK (False, sz)
       else
         bindK (uvmalloc pt sz (ph_vaddr ph + ph_memsz ph)) (\<lambda>sz1.
         if sz1 = 0 then retK (False, sz)
         else if ph_vaddr ph mod PGSIZE \<noteq> 0 then retK (False, sz1)
         else
           bindK (loadseg pt (ph_vaddr ph) ip (ucast (ph_off ph)) (ucast (ph_filesz ph))) (\<lambda>r.
           if r < 0 then retK (False, sz1)
           else exec_load pt ip k (off + of_nat PROGHDR_SIZE) sz1)))"

text \<open>A string of the kernel's memory; \<^verbatim>\<open>sys_exec\<close> stores each in a page of its own.\<close>

definition kstring :: "u64 \<Rightarrow> u8 list K" where
  "kstring a = getK (\<lambda>s. takeWhile (\<lambda>c. c \<noteq> 0) (rd_bytes (mem s) a 4096))"

text \<open>Pushing the argument strings: \<open>None\<close> for \<^verbatim>\<open>goto bad\<close>, else the stack pointer and \<^verbatim>\<open>ustack\<close>.\<close>

primrec exec_push :: "u64 \<Rightarrow> u64 \<Rightarrow> u64 list \<Rightarrow> u64 \<Rightarrow> u64 list \<Rightarrow> (u64 \<times> u64 list) option K" where
  "exec_push pt stackbase [] sp ustack = retK (Some (sp, ustack))"
| "exec_push pt stackbase (a # argv) sp ustack =
     (if length ustack \<ge> MAXARG then retK None
      else
        bindK (kstring a) (\<lambda>arg.
        let sp1 = sp - of_nat (length arg + 1); sp2 = sp1 - sp1 mod 16 in
        if sp2 < stackbase then retK None
        else
          bindK (copyout pt sp2 (arg @ [0])) (\<lambda>r.
          if r < 0 then retK None
          else exec_push pt stackbase argv sp2 (ustack @ [sp2]))))"

fun path_last :: "u8 list \<Rightarrow> u8 list \<Rightarrow> u8 list" where
  "path_last [] best = best"
| "path_last (c # s) best =
     (if c = 0 then best else path_last s (if c = SLASH then s else best))"

text \<open>The label \<^verbatim>\<open>bad\<close>: the new page table and the inode are given up if there are any.\<close>

definition exec_bad :: "u64 \<Rightarrow> u64 \<Rightarrow> nat option \<Rightarrow> int K" where
  "exec_bad pt sz ipo =
     thenK (whenK (pt \<noteq> 0) (proc_freepagetable pt sz))
    (thenK (case ipo of None \<Rightarrow> retK () | Some ip \<Rightarrow> thenK (iunlockput ip) end_op)
    (bindK myproc (\<lambda>p.
     bindK (getP p swapFile) (\<lambda>sf.
     thenK (whenK (sf \<noteq> None) (bindK (removeSwapFile p) (\<lambda>_. retK ())))
           (retK (-1))))))"

text \<open>Before the program is loaded, the process gets new metadata and a new swap file.\<close>

definition exec_new_swap :: "nat \<Rightarrow> unit K" where
  "exec_new_swap p =
     bindK is_none_policy (\<lambda>none.
     bindK (getP p pid) (\<lambda>pd.
     whenK (\<not> none \<and> pd > 2)
       (thenK clear_memory_metadata
       (bindK (getP p swapFile) (\<lambda>sf.
        thenK (whenK (sf \<noteq> None) (bindK (removeSwapFile p) (\<lambda>_. retK ())))
              (bindK (createSwapFile p) (\<lambda>_. retK ())))))))"

text \<open>The stack and the commit, lines 73-128.\<close>

definition exec_stack :: "nat \<Rightarrow> u8 list \<Rightarrow> u64 list \<Rightarrow> u64 \<Rightarrow> u64 \<Rightarrow> u64 \<Rightarrow> int K" where
  "exec_stack p path argv entry pt sz0 =
     bindK (getP p psz) (\<lambda>oldsz.
     let sz = PGROUNDUP sz0 in
     bindK (uvmalloc pt sz (sz + 2 * PGSIZE)) (\<lambda>sz1.
     if sz1 = 0 then exec_bad pt sz None
     else
       thenK (uvmclear pt (sz1 - 2 * PGSIZE))
      (let stackbase = sz1 - PGSIZE in
       bindK (exec_push pt stackbase argv sz1 []) (\<lambda>pushed.
       case pushed of None \<Rightarrow> exec_bad pt sz1 None
       | Some (sp, ustack) \<Rightarrow>
           let argc = length ustack; sp1 = sp - of_nat ((argc + 1) * 8); sp2 = sp1 - sp1 mod 16 in
           if sp2 < stackbase then exec_bad pt sz1 None
           else
             bindK (copyout pt sp2 (concat (map (le_bytes 8) (ustack @ [0])))) (\<lambda>r.
             if r < 0 then exec_bad pt sz1 None
             else
               bindK (getP p (\<lambda>q. (trapframe q, ppagetable q))) (\<lambda>(tf, oldpt).
               thenK (wr64 (tf + TF_a 1) sp2)
              (thenK (modP p (\<lambda>q. q\<lparr>pname := safestrcpy (pname q) (path_last path path) 16,
                                    ppagetable := pt, psz := sz1\<rparr>))
              (thenK (wr64 (tf + TF_epc) entry)
              (thenK (wr64 (tf + TF_sp) sp2)
              (thenK (proc_freepagetable oldpt oldsz)
                     (retK (int argc))))))))))))"

definition exec :: "u8 list \<Rightarrow> u64 list \<Rightarrow> int K" where
  "exec path argv =
     bindK myproc (\<lambda>p.
     thenK begin_op
    (bindK (namei path) (\<lambda>ipo.
     case ipo of None \<Rightarrow> thenK end_op (retK (-1))
     | Some ip \<Rightarrow>
         thenK (ilock (Some ip))
        (bindK (readi ip LDst 0 ELFHDR_SIZE) (\<lambda>(r, bs).
         if r \<noteq> int ELFHDR_SIZE then exec_bad 0 0 (Some ip)
         else
           let elf = elf_load bs in
           if elf_magic elf \<noteq> ELF_MAGIC then exec_bad 0 0 (Some ip)
           else
             bindK (proc_pagetable p) (\<lambda>pt.
             if pt = 0 then exec_bad 0 0 (Some ip)
             else
               thenK (exec_new_swap p)
              (bindK (exec_load pt ip (elf_phnum elf) (ucast (elf_phoff elf)) 0) (\<lambda>(ok, sz).
               if \<not> ok then exec_bad pt sz (Some ip)
               else
                 thenK (iunlockput ip)
                (thenK end_op
                       (exec_stack p path argv (elf_entry elf) pt sz))))))))))"

section \<open>The system call\<close>

primrec fetch_argv :: "u64 \<Rightarrow> nat \<Rightarrow> u64 list \<Rightarrow> (bool \<times> u64 list) K" where
  "fetch_argv uargv 0 argv = retK (False, argv)"
| "fetch_argv uargv (Suc k) argv =
     bindK (fetchaddr (uargv + 8 * of_nat (length argv))) (\<lambda>(r, uarg).
     if r < 0 then retK (False, argv)
     else if uarg = 0 then retK (True, argv)
     else
       bindK kalloc (\<lambda>a.
       if a = 0 then retK (False, argv)
       else
         bindK (fetchstr uarg 4096) (\<lambda>(r, bs).
         thenK (modK (\<lambda>s. s\<lparr>mem := wr_bytes (mem s) a bs\<rparr>))
        (if r < 0 then retK (False, argv @ [a])
         else fetch_argv uargv k (argv @ [a])))))"

definition sys_exec :: "u64 K" where
  "sys_exec =
     bindK (argstr 0 MAXPATH) (\<lambda>(r, path).
     if r < 0 then retK (-1)
     else
       bindK (argaddr 1) (\<lambda>uargv.
       bindK (fetch_argv uargv MAXARG []) (\<lambda>(ok, argv).
       bindK (if ok then exec path argv else retK (-1)) (\<lambda>ret.
       thenK (forK argv kfree) (retK (of_int ret))))))"

end
