(* ===== verification/Trap.thy ===== *)
theory Trap
  imports Exec
begin

text \<open>
  System calls that concern processes (\<^verbatim>\<open>kernel/sysproc.c\<close>), the system call table
  (\<^verbatim>\<open>kernel/syscall.c\<close>), traps (\<^verbatim>\<open>kernel/trap.c\<close>) and the order in which \<^verbatim>\<open>kernel/main.c\<close> starts the
  kernel. The control registers that a trap handler reads are a record of inputs.
\<close>

section \<open>System calls on processes\<close>

definition sys_exit :: "u64 K" where
  "sys_exit = bindK (argint 0) (\<lambda>n. thenK (exit n) (retK 0))"

definition sys_getpid :: "u64 K" where
  "sys_getpid = bindK myproc (\<lambda>p. getP p (\<lambda>q. of_int (pid q)))"

definition sys_fork :: "u64 \<Rightarrow> u64 K" where
  "sys_fork forkret_addr = bindK (fork forkret_addr) (\<lambda>v. retK (of_int v))"

definition sys_wait :: "u64 K" where
  "sys_wait = bindK (argaddr 0) (\<lambda>a. bindK (wait a) (\<lambda>v. retK (of_int v)))"

definition sys_sbrk :: "u64 K" where
  "sys_sbrk =
     bindK (argint 0) (\<lambda>n.
     bindK myproc (\<lambda>p.
     bindK (getP p (\<lambda>q. scast (ucast (psz q) :: u32))) (\<lambda>addr.
     bindK (growproc n) (\<lambda>r.
     retK (if r < 0 then -1 else addr)))))"

definition sys_sleep :: "u64 K" where
  "sys_sleep =
     bindK (argint 0) (\<lambda>n.
     thenK (acquire L_ticks)
    (bindK (getK ticks) (\<lambda>ticks0.
     whileK (bindK (getK ticks) (\<lambda>t.
       if t - ticks0 < of_int n
       then
         bindK myproc (\<lambda>p. bindK (getP p killed) (\<lambda>k.
         if k then thenK (release L_ticks) (retK (Some (-1)))
         else thenK (sleep Ch_ticks L_ticks) (retK None)))
       else thenK (release L_ticks) (retK (Some 0)))))))"

definition sys_kill :: "u64 K" where
  "sys_kill = bindK (argint 0) (\<lambda>pd. bindK (kill pd) (\<lambda>v. retK (of_int v)))"

definition sys_uptime :: "u64 K" where
  "sys_uptime =
     thenK (acquire L_ticks)
    (bindK (getK ticks) (\<lambda>xticks.
     thenK (release L_ticks)
           (retK (ucast xticks))))"

definition sys_page_fault_num :: "u64 K" where
  "sys_page_fault_num = bindK myproc (\<lambda>p. getP p (\<lambda>q. of_int (page_fault_counter q)))"

section \<open>The system call table\<close>

text \<open>The numbers of \<^verbatim>\<open>kernel/syscall.h\<close>.\<close>

definition syscalls :: "u64 \<Rightarrow> int \<Rightarrow> u64 K option" where
  "syscalls forkret_addr num =
     (if num < 1 \<or> num > 22 then None
      else Some ([sys_fork forkret_addr, sys_exit, sys_wait, sys_pipe, sys_read, sys_kill, sys_exec,
        sys_fstat, sys_chdir, sys_dup, sys_getpid, sys_sbrk, sys_sleep, sys_uptime, sys_open,
        sys_write, sys_mknod, sys_unlink, sys_link, sys_mkdir, sys_close, sys_page_fault_num]
        ! nat (num - 1)))"

definition syscall :: "u64 \<Rightarrow> unit K" where
  "syscall forkret_addr =
     bindK myproc (\<lambda>p.
     bindK (getP p trapframe) (\<lambda>tf.
     bindK (rd64 (tf + TF_a 7)) (\<lambda>a7.
     let num = sint (ucast a7 :: u32) in
     case syscalls forkret_addr num of
       Some call \<Rightarrow> bindK call (\<lambda>v. wr64 (tf + TF_a 0) v)
     | None \<Rightarrow>
         bindK (getP p (\<lambda>q. q)) (\<lambda>q.
         thenK (kprintf ''%d %s: unknown sys call %d\<newline>''
                  [VWord (of_int (pid q)), VStr (Some (takeWhile (\<lambda>c. c \<noteq> 0) (pname q))),
                   VWord (of_int num)])
               (wr64 (tf + TF_a 0) (-1))))))"

section \<open>Traps\<close>

text \<open>
  What a trap handler reads: the control registers, the interrupt that the interrupt controller
  hands out, and the addresses of kernel routines that it stores.
\<close>

record trapenv =
  r_sstatus :: u64
  r_sepc :: u64
  r_scause :: u64
  r_stval :: u64
  r_satp :: u64
  r_tp :: u64
  plic_irq :: int
  usertrap_addr :: u64
  forkret_at :: u64

definition UART0_IRQ :: int where "UART0_IRQ = 10"
definition VIRTIO0_IRQ :: int where "VIRTIO0_IRQ = 1"
definition SSTATUS_SPP :: u64 where "SSTATUS_SPP = push_bit 8 1"

definition trapinit :: "unit K" where
  "trapinit = initlock L_ticks"

definition clockintr :: "unit K" where
  "clockintr =
     thenK (acquire L_ticks)
    (thenK (modK (\<lambda>s. s\<lparr>ticks := ticks s + 1\<rparr>))
    (thenK (wakeup (Some Ch_ticks))
           (release L_ticks)))"

text \<open>
  The disk answers within \<^verbatim>\<open>virtio_disk_rw\<close> in this model, so its interrupt finds nothing to do;
  the handler itself is in the theory Virtio.
\<close>

definition devintr :: "trapenv \<Rightarrow> int K" where
  "devintr e =
     (if r_scause e AND 0x8000000000000000 \<noteq> 0 \<and> r_scause e AND 0xff = 9
      then
        thenK (if plic_irq e = UART0_IRQ then uartintr
               else if plic_irq e = VIRTIO0_IRQ then retK ()
               else whenK (plic_irq e \<noteq> 0)
                      (kprintf ''unexpected interrupt irq=%d\<newline>'' [VWord (of_int (plic_irq e))]))
              (retK 1)
      else if r_scause e = 0x8000000000000001
      then thenK (whenK (r_tp e = 0) clockintr) (retK 2)
      else retK 0)"

text \<open>\<^verbatim>\<open>usertrapret\<close> ends in user mode: its result is the program counter and the page table there.\<close>

definition usertrapret :: "trapenv \<Rightarrow> (u64 \<times> u64) K" where
  "usertrapret e =
     bindK myproc (\<lambda>p.
     bindK (getP p (\<lambda>q. (trapframe q, kstack q, ppagetable q))) (\<lambda>(tf, ks, pt).
     thenK (wr64 (tf + TF_kernel_satp) (r_satp e))
    (thenK (wr64 (tf + TF_kernel_sp) (ks + PGSIZE))
    (thenK (wr64 (tf + TF_kernel_trap) (usertrap_addr e))
    (thenK (wr64 (tf + TF_kernel_hartid) (r_tp e))
    (bindK (rd64 (tf + TF_epc)) (\<lambda>pc.
     retK (pc, pt))))))))"

definition unexpected_trap :: "trapenv \<Rightarrow> nat \<Rightarrow> unit K" where
  "unexpected_trap e p =
     bindK (getP p pid) (\<lambda>pd.
     thenK (kprintf ''usertrap(): unexpected scause %d pid=%d\<newline>'' [VWord (r_scause e), VWord (of_int pd)])
           (kprintf ''            sepc=%p stval=%p\<newline>'' [VWord (r_sepc e), VWord (r_stval e)]))"

definition set_killed :: "nat \<Rightarrow> unit K" where
  "set_killed p = modP p (\<lambda>q. q\<lparr>killed := True\<rparr>)"

definition usertrap_fault :: "trapenv \<Rightarrow> nat \<Rightarrow> unit K" where
  "usertrap_fault e p =
     bindK (getP p ppagetable) (\<lambda>pt.
     bindK (page_in_file (r_stval e) pt) (\<lambda>found.
     if found then bindK (get_page_from_file (r_stval e)) (\<lambda>_. retK ())
     else
       bindK (getP p pid) (\<lambda>pd.
       thenK (kprintf ''PID: %d inside usertrap(): page: %p is not in file\<newline>''
                [VWord (of_int pd), VWord (r_stval e)])
      (thenK (unexpected_trap e p)
      (thenK (print_memory_metadata_state p)
             (set_killed p))))))"

definition usertrap :: "trapenv \<Rightarrow> (u64 \<times> u64) K" where
  "usertrap e =
     thenK (panic_if (r_sstatus e AND SSTATUS_SPP \<noteq> 0) ''usertrap: not from user mode'')
    (bindK myproc (\<lambda>p.
     bindK (getP p trapframe) (\<lambda>tf.
     thenK (wr64 (tf + TF_epc) (r_sepc e))
    (bindK
       (if r_scause e = 8
        then
          bindK (getP p killed) (\<lambda>k.
          thenK (whenK k (exit (-1)))
         (bindK (rd64 (tf + TF_epc)) (\<lambda>pc.
          thenK (wr64 (tf + TF_epc) (pc + 4))
         (thenK (syscall (forkret_at e))
                (retK 0)))))
        else
          bindK (devintr e) (\<lambda>which_dev.
          if which_dev \<noteq> 0 then retK which_dev
          else
            bindK is_none_policy (\<lambda>none.
            bindK (getP p pid) (\<lambda>pd.
            if \<not> none \<and> pd > 2 \<and> r_scause e \<in> {13, 15, 12}
            then thenK (usertrap_fault e p) (retK 0)
            else thenK (unexpected_trap e p) (thenK (set_killed p) (retK 0))))))
       (\<lambda>which_dev.
     bindK (getP p killed) (\<lambda>k.
     thenK (whenK k (exit (-1)))
    (thenK (whenK (which_dev = 2) yield)
           (usertrapret e))))))))"

definition kerneltrap :: "trapenv \<Rightarrow> unit K" where
  "kerneltrap e =
     thenK (panic_if (r_sstatus e AND SSTATUS_SPP = 0) ''kerneltrap: not from supervisor mode'')
    (bindK (devintr e) (\<lambda>which_dev.
     if which_dev = 0
     then
       bindK myproc (\<lambda>p.
       bindK (getP p pid) (\<lambda>pd.
       thenK (kprintf ''scause %d PID: %d\<newline>'' [VWord (r_scause e), VWord (of_int pd)])
      (thenK (kprintf ''sepc=%p stval=%p\<newline>'' [VWord (r_sepc e), VWord (r_stval e)])
             (panicK ''kerneltrap''))))
     else
       bindK (getK (\<lambda>s. case cur s of None \<Rightarrow> False | Some p \<Rightarrow> pstate (procs s ! p) = RUNNING))
         (\<lambda>running. whenK (which_dev = 2 \<and> running) yield)))"

definition forkret :: "trapenv \<Rightarrow> (u64 \<times> u64) K" where
  "forkret e =
     bindK myproc (\<lambda>p.
     thenK (release (L_proc p))
    (bindK (getK forkret_first) (\<lambda>fst_time.
     thenK (whenK fst_time
       (thenK (modK (\<lambda>s. s\<lparr>forkret_first := False\<rparr>)) (fsinit ROOTDEV)))
           (usertrapret e))))"

section \<open>Starting the kernel\<close>

text \<open>\<^verbatim>\<open>main\<close> on the first CPU, up to the scheduler; the device set-up that only writes registers is left out.\<close>

definition main :: "u64 \<Rightarrow> unit K" where
  "main forkret_addr =
     thenK consoleinit
    (thenK (initlock L_pr)
    (thenK (kprintf ''\<newline>'' [])
    (thenK (kprintf ''xv6 kernel is booting\<newline>'' [])
    (thenK (kprintf ''\<newline>'' [])
    (thenK kinit
    (thenK kvminit
    (thenK procinit
    (thenK trapinit
    (thenK binit
    (thenK iinit
    (thenK fileinit
           (userinit forkret_addr))))))))))))"

end
