(* ===== verification/Crash.thy ===== *)
theory Crash
  imports Log
begin

text \<open>
  Transactions of \<^verbatim>\<open>kernel/log.c\<close> and crashes: what \<^verbatim>\<open>write_log\<close>, \<^verbatim>\<open>write_head\<close>, \<^verbatim>\<open>install_trans\<close> and
  \<^verbatim>\<open>read_head\<close> do to the blocks behind the cache, the writes that \<^verbatim>\<open>commit\<close> and \<^verbatim>\<open>recover_from_log\<close> send to
  the disk, and the atomicity of transactions when the machine stops between two of these writes.
\<close>

section \<open>Two blocks at a time\<close>

lemma in_use_read:
  assumes "abs_blocks dev t = (abs_blocks dev s)\<lparr>b_refs := (b_refs (abs_blocks dev s))(n := b_refs (abs_blocks dev s) n + 1), b_owner := w\<rparr>"
  shows "in_use dev t = insert n (in_use dev s)"
  using assms by (auto simp: in_use_def)

lemma room_for:
  assumes "finite U" and "card (U \<union> {a, b}) \<le> N"
  shows "a \<in> U \<or> card U < N" "b \<in> insert a U \<or> card (insert a U) < N" "b \<in> U \<or> card U < N" "a \<in> insert b U \<or> card (insert b U) < N"
proof -
  have *: "x \<in> V \<or> card V < N" if "finite V" "x \<in> U \<union> {a, b}" "V \<subseteq> U \<union> {a, b}" for x V
  proof (rule disjCI)
    assume "\<not> card V < N"
    then have "card (U \<union> {a, b}) \<le> card V" using assms(2) by simp
    then have "V = U \<union> {a, b}" using card_seteq [OF _ that(3)] assms(1) by simp
    then show "x \<in> V" using that(2) by simp
  qed
  show "a \<in> U \<or> card U < N" "b \<in> insert a U \<or> card (insert a U) < N" "b \<in> U \<or> card U < N" "a \<in> insert b U \<or> card (insert b U) < N"
    by (rule *; use assms(1) in auto)+
qed

text \<open>Reading two blocks, in either order, and copying the first over the second.\<close>

definition copied :: "nat \<Rightarrow> nat \<Rightarrow> bool \<Rightarrow> blocks \<Rightarrow> blocks" where
  "copied src dst unpin A = A\<lparr>b_view := (b_view A)(dst := b_view A src), b_disk := (b_disk A)(dst := b_view A src),
     b_trace := b_trace A @ [(dst, b_view A src)],
     b_refs := (b_refs A)(dst := b_refs A dst - (if unpin then 1 else 0))\<rparr>"

lemma copy_blocks:
  assumes "cache_ok dev s p" and "A = abs_blocks dev s" and "src \<noteq> dst"
    and "b_owner A src = None" and "b_owner A dst = None" and "card (in_use dev s \<union> {src, dst}) \<le> NBUF"
    and "unpin \<Longrightarrow> 0 < b_refs A dst" and "first = (if src_first then src else dst)"
    and "snd_b = (if src_first then dst else src)"
  obtains b1 s1 b2 s2 lb db t where "bread dev first s = Ret b1 s1" "bc_frame s s1" "bread dev snd_b s1 = Ret b2 s2"
    "lb = (if src_first then b1 else b2)" "db = (if src_first then b2 else b1)"
    "bindK (getB lb bdata) (\<lambda>d. thenK (modB db (\<lambda>q. q\<lparr>bdata := d\<rparr>)) (thenK (bwrite db)
      (thenK (whenK unpin (bunpin db)) (thenK (brelse lb) (brelse db))))) s2 = Ret () t"
    "cache_ok dev t p" "bc_frame s t" "abs_blocks dev t = copied src dst unpin A"
proof -
  note fin = in_use_bound(1) [OF cache_okD(1) [OF assms(1)]]
  note R = room_for [OF fin assms(6)]
  have fs: "first \<noteq> snd_b" "b_owner A first = None" "b_owner A snd_b = None" using assms(3-5,8,9) by auto
  have r1: "first \<in> in_use dev s \<or> card (in_use dev s) < NBUF" using R assms(8) by auto
  define A1 where "A1 = A\<lparr>b_refs := (b_refs A)(first := b_refs A first + 1), b_owner := (b_owner A)(first := Some (pid (procs s ! p)))\<rparr>"
  obtain b1 s1 where s1: "bread dev first s = Ret b1 s1" "cache_ok dev s1 p" "bc_frame s s1" "holds_buf dev s1 p b1 first"
    "abs_blocks dev s1 = A1"
    unfolding A1_def by (rule read_block [OF assms(1,2) fs(2) r1]) (blast intro: that)
  have u1: "in_use dev s1 = insert first (in_use dev s)"
    using in_use_read [where dev = dev and t = s1 and s = s and n = first] s1(5) by (simp add: A1_def assms(2))
  have r2: "snd_b \<in> in_use dev s1 \<or> card (in_use dev s1) < NBUF"
    unfolding u1 using R assms(8,9) by auto
  have o2: "b_owner A1 snd_b = None" using fs by (simp add: A1_def)
  define A2 where "A2 = A1\<lparr>b_refs := (b_refs A1)(snd_b := b_refs A1 snd_b + 1), b_owner := (b_owner A1)(snd_b := Some (pid (procs s1 ! p)))\<rparr>"
  obtain b2 s2 where s2: "bread dev snd_b s1 = Ret b2 s2" "cache_ok dev s2 p" "bc_frame s1 s2" "holds_buf dev s2 p b2 snd_b"
    "abs_blocks dev s2 = A2" "holds_buf dev s2 p b1 first"
    unfolding A2_def by (rule read_block [OF s1(2) s1(5) [symmetric] o2 r2]) (use s1(4) in \<open>blast intro: that\<close>)
  let ?lb = "if src_first then b1 else b2" and ?db = "if src_first then b2 else b1"
  have h: "holds_buf dev s2 p ?lb src" "holds_buf dev s2 p ?db dst" using s2(4,6) assms(8,9) by auto
  have A2: "b_refs A2 = (b_refs A)(src := b_refs A src + 1, dst := b_refs A dst + 1)" "b_view A2 = b_view A"
    "b_disk A2 = b_disk A" "b_trace A2 = b_trace A"
    using assms(3,8,9) by (auto simp: A2_def A1_def)
  have ow: "(b_owner A2)(src := None, dst := None) = b_owner A"
    using assms(3-5,8,9) by (auto simp: A2_def A1_def fun_eq_iff)
  have cl: "b_refs A2 src = 1 \<Longrightarrow> b_view A2 src = b_disk A2 src"
    using block_clean(1) [OF cache_okD(1) [OF assms(1)], of src] assms(2,3) by (simp add: A2)
  have up: "unpin \<Longrightarrow> 2 \<le> b_refs A2 dst" using assms(3,7) by (simp add: A2)
  obtain t where t: "bindK (getB ?lb bdata) (\<lambda>d. thenK (modB ?db (\<lambda>q. q\<lparr>bdata := d\<rparr>)) (thenK (bwrite ?db)
      (thenK (whenK unpin (bunpin ?db)) (thenK (brelse ?lb) (brelse ?db))))) s2 = Ret () t"
    "cache_ok dev t p" "bc_frame s2 t"
    "abs_blocks dev t = A2\<lparr>b_view := (b_view A2)(dst := b_view A2 src), b_disk := (b_disk A2)(dst := b_view A2 src),
       b_trace := b_trace A2 @ [(dst, b_view A2 src)],
       b_refs := (b_refs A2)(src := b_refs A2 src - 1, dst := b_refs A2 dst - (if unpin then 2 else 1)),
       b_owner := (b_owner A2)(src := None, dst := None)\<rparr>"
    by (rule copy_tail [OF s2(2) h assms(3) s2(5) [symmetric] refl up cl]) (blast intro: that)+
  have "abs_blocks dev t = copied src dst unpin A"
    unfolding t(4) ow copied_def by (rule blocks.equality) (use assms(3) in \<open>auto simp: A2 fun_eq_iff\<close>)
  moreover have "bc_frame s t" by (rule bc_frame_trans [OF s1(3) bc_frame_trans [OF s2(3) t(3)]])
  ultimately show ?thesis using s1(1,3) s2(1) t(1,2) by (intro that [of b1 s1 b2 s2 ?lb ?db t]) auto
qed

definition copy_rest :: "bool \<Rightarrow> nat \<Rightarrow> nat \<Rightarrow> unit K" where
  "copy_rest unpin lb db = bindK (getB lb bdata) (\<lambda>d. thenK (modB db (\<lambda>q. q\<lparr>bdata := d\<rparr>)) (thenK (bwrite db)
      (thenK (whenK unpin (bunpin db)) (thenK (brelse lb) (brelse db)))))"

definition copy_code :: "nat \<Rightarrow> bool \<Rightarrow> bool \<Rightarrow> nat \<Rightarrow> nat \<Rightarrow> unit K" where
  "copy_code dev src_first unpin src dst =
     (if src_first then bindK (bread dev src) (\<lambda>lb. bindK (bread dev dst) (\<lambda>db. copy_rest unpin lb db))
      else bindK (bread dev dst) (\<lambda>db. bindK (bread dev src) (\<lambda>lb. copy_rest unpin lb db)))"

lemma copy_code_apply:
  assumes "cache_ok dev s p" and "src \<noteq> dst" and "b_owner (abs_blocks dev s) src = None"
    and "b_owner (abs_blocks dev s) dst = None" and "card (in_use dev s \<union> {src, dst}) \<le> NBUF"
    and "unpin \<Longrightarrow> 0 < b_refs (abs_blocks dev s) dst"
  shows "okK (copy_code dev src_first unpin src dst) s (\<lambda>_ t. cache_ok dev t p \<and> bc_frame s t \<and>
    abs_blocks dev t = copied src dst unpin (abs_blocks dev s))"
proof -
  obtain b1 s1 b2 s2 lb db t where *: "bread dev (if src_first then src else dst) s = Ret b1 s1" "bc_frame s s1"
    "bread dev (if src_first then dst else src) s1 = Ret b2 s2"
    "lb = (if src_first then b1 else b2)" "db = (if src_first then b2 else b1)"
    "bindK (getB lb bdata) (\<lambda>d. thenK (modB db (\<lambda>q. q\<lparr>bdata := d\<rparr>)) (thenK (bwrite db)
      (thenK (whenK unpin (bunpin db)) (thenK (brelse lb) (brelse db))))) s2 = Ret () t"
    "cache_ok dev t p" "bc_frame s t" "abs_blocks dev t = copied src dst unpin (abs_blocks dev s)"
    by (rule copy_blocks [OF assms(1) refl assms(2-6) refl refl]) (blast intro: that)+
  have "copy_code dev src_first unpin src dst s = Ret () t"
    using *(1,3-6) by (cases src_first) (simp_all add: copy_code_def copy_rest_def)
  then show ?thesis using *(7-9) by (intro okK_I [of "copy_code dev src_first unpin src dst" s "()" t]) blast+
qed

text \<open>Writing a list of blocks, one after the other.\<close>

definition put_all :: "(nat \<times> 'a) list \<Rightarrow> (nat \<Rightarrow> 'a) \<Rightarrow> nat \<Rightarrow> 'a" where
  "put_all ws f = fold (\<lambda>(n, d) f. f(n := d)) ws f"

lemma put_all_simps [simp]:
  "put_all [] f = f" "put_all ((n, d) # ws) f = put_all ws (f(n := d))"
  "put_all (ws @ vs) f = put_all vs (put_all ws f)"
  by (simp_all add: put_all_def)

lemma put_all_other: "n \<notin> fst ` set ws \<Longrightarrow> put_all ws f n = f n"
  by (induction ws arbitrary: f) auto

lemma put_all_map:
  assumes "distinct (map g xs)" and "x \<in> set xs"
  shows "put_all (map (\<lambda>i. (g i, h i)) xs) f (g x) = h x"
  using assms
proof (induction xs arbitrary: f)
  case (Cons y ys)
  show ?case
  proof (cases "x \<in> set ys")
    case True
    then show ?thesis using Cons by simp
  next
    case False
    then have y: "x = y" "g y \<notin> fst ` set (map (\<lambda>i. (g i, h i)) ys)" using Cons.prems by (auto simp: image_image)
    then show ?thesis using put_all_other [OF y(2), of "f(g y := h y)"] by simp
  qed
qed simp

lemma put_all_idem:
  assumes "\<And>n d. (n, d) \<in> set ws \<Longrightarrow> f n = d"
  shows "put_all ws f = f"
  using assms
proof (induction ws arbitrary: f)
  case (Cons w ws)
  obtain n d where w: "w = (n, d)" by (cases w)
  then have "f(n := d) = f" using Cons.prems [of n d] by auto
  then show ?case using Cons by (simp add: w)
qed simp

definition copied_all :: "(nat \<Rightarrow> nat) \<Rightarrow> (nat \<Rightarrow> nat) \<Rightarrow> bool \<Rightarrow> nat list \<Rightarrow> blocks \<Rightarrow> blocks" where
  "copied_all src dst unpin ys A =
     (let ws = map (\<lambda>i. (dst i, b_view A (src i))) ys in
      A\<lparr>b_view := put_all ws (b_view A), b_disk := put_all ws (b_disk A), b_trace := b_trace A @ ws,
        b_refs := (\<lambda>m. b_refs A m - (if unpin \<and> m \<in> dst ` set ys then 1 else 0))\<rparr>)"

lemma copied_all_snoc:
  assumes "src x \<notin> dst ` set ys" and "dst x \<notin> dst ` set ys"
  shows "copied (src x) (dst x) unpin (copied_all src dst unpin ys A) = copied_all src dst unpin (ys @ [x]) A"
proof -
  have v: "put_all (map (\<lambda>i. (dst i, b_view A (src i))) ys) (b_view A) (src x) = b_view A (src x)"
    by (rule put_all_other) (use assms(1) in \<open>auto simp: image_image\<close>)
  show ?thesis
    by (rule blocks.equality) (use assms(2) in \<open>auto simp: copied_def copied_all_def Let_def v fun_eq_iff\<close>)
qed

lemma copy_loop:
  assumes "cache_ok dev s p" and "A = abs_blocks dev s"
    and "\<And>i t. i < n \<Longrightarrow> bc_frame s t \<Longrightarrow> body i t = copy_code dev src_first unpin (src i) (dst i) t"
    and "distinct (map dst [0..<n])" and "\<And>i j. i < n \<Longrightarrow> j < n \<Longrightarrow> src i \<noteq> dst j"
    and "\<And>i. i < n \<Longrightarrow> b_owner A (src i) = None \<and> b_owner A (dst i) = None"
    and "\<And>i. i < n \<Longrightarrow> card (in_use dev s \<union> {src i, dst i}) \<le> NBUF"
    and "\<And>i. unpin \<Longrightarrow> i < n \<Longrightarrow> 0 < b_refs A (dst i)"
  shows "okK (forK [0..<n] body) s (\<lambda>_ t. cache_ok dev t p \<and> bc_frame s t \<and>
    abs_blocks dev t = copied_all src dst unpin [0..<n] A)"
proof (rule okK_for [where I = "\<lambda>ys t. cache_ok dev t p \<and> bc_frame s t \<and> abs_blocks dev t = copied_all src dst unpin ys A"])
  show "cache_ok dev s p \<and> bc_frame s s \<and> abs_blocks dev s = copied_all src dst unpin [] A"
    using assms(1,2) by (simp add: copied_all_def)
  fix ys x zs t
  assume xs: "[0..<n] = ys @ x # zs" and "cache_ok dev t p \<and> bc_frame s t \<and> abs_blocks dev t = copied_all src dst unpin ys A"
  then have t: "cache_ok dev t p" "bc_frame s t" "abs_blocks dev t = copied_all src dst unpin ys A" by blast+
  have "distinct (map dst (ys @ x # zs))" using assms(4) unfolding xs .
  then have new: "dst x \<notin> dst ` set ys" by simp
  have "set (ys @ x # zs) = {0..<n}" unfolding xs [symmetric] by simp
  then have x: "x < n" and ys: "\<And>y. y \<in> set ys \<Longrightarrow> y < n" by auto
  have sy: "src x \<notin> dst ` set ys" using assms(5) [OF x] ys by auto
  have "in_use dev t \<subseteq> in_use dev s" using t(3) assms(2) by (auto simp: in_use_def copied_all_def Let_def)
  then have "card (in_use dev t \<union> {src x, dst x}) \<le> card (in_use dev s \<union> {src x, dst x})"
    using in_use_bound(1) [OF cache_okD(1) [OF assms(1)]] by (intro card_mono) auto
  then have room: "card (in_use dev t \<union> {src x, dst x}) \<le> NBUF" using assms(7) [OF x] by simp
  have ow: "b_owner (abs_blocks dev t) (src x) = None" "b_owner (abs_blocks dev t) (dst x) = None"
    using assms(6) [OF x] by (simp_all add: t(3) copied_all_def Let_def)
  have up: "unpin \<Longrightarrow> 0 < b_refs (abs_blocks dev t) (dst x)"
    using assms(8) x new by (simp add: t(3) copied_all_def Let_def)
  have "okK (copy_code dev src_first unpin (src x) (dst x)) t (\<lambda>_ u. cache_ok dev u p \<and> bc_frame t u \<and>
      abs_blocks dev u = copied (src x) (dst x) unpin (abs_blocks dev t))"
    by (rule copy_code_apply [OF t(1) assms(5) [OF x x] ow room up])
  then obtain u where "copy_code dev src_first unpin (src x) (dst x) t = Ret () u" "cache_ok dev u p" "bc_frame t u"
      "abs_blocks dev u = copied (src x) (dst x) unpin (abs_blocks dev t)" by (auto elim: okK_E)
  then show "okK (body x) t (\<lambda>_ u. cache_ok dev u p \<and> bc_frame s u \<and> abs_blocks dev u = copied_all src dst unpin (ys @ [x]) A)"
    using assms(3) [OF x t(2)] bc_frame_trans [OF t(2)] copied_all_snoc [of src x dst ys unpin A, OF sy new] t(3)
    by (intro okK_I [of "body x" t "()" u]) auto
qed

section \<open>The parts of a commit\<close>

lemma getL_apply [simp]: "getL f s = Ret (f (klog s)) s"
  by (simp add: getL_def)

lemma modL_apply [simp]: "modL f s = Ret () (s\<lparr>klog := f (klog s)\<rparr>)"
  by (simp add: modL_def)

text \<open>
  A log in use on device \<open>dev\<close>: the header names \<open>bs\<close>, different blocks outside the log, and there are
  two buffers to spare.
\<close>

definition log_region :: "klog \<Rightarrow> nat set" where
  "log_region l = {lstart l..lstart l + LOGSIZE}"

definition log_names :: "nat \<Rightarrow> kstate \<Rightarrow> nat \<Rightarrow> nat list \<Rightarrow> bool" where
  "log_names dev s p bs \<longleftrightarrow> cache_ok dev s p \<and> ldev (klog s) = dev \<and> lh_n (klog s) = length bs \<and>
     length (lh_block (klog s)) = LOGSIZE \<and> length bs \<le> LOGSIZE \<and> take (length bs) (lh_block (klog s)) = bs \<and>
     distinct bs \<and> set bs \<inter> log_region (klog s) = {} \<and> (\<forall>b\<in>set bs. b < 2 ^ 32) \<and>
     (\<forall>n. b_owner (abs_blocks dev s) n = None) \<and> card (in_use dev s) + 2 \<le> NBUF"

lemma log_namesD:
  assumes "log_names dev s p bs"
  shows "cache_ok dev s p" "ldev (klog s) = dev" "lh_n (klog s) = length bs" "length bs \<le> LOGSIZE"
    "i < length bs \<Longrightarrow> lh_block (klog s) ! i = bs ! i" "distinct bs"
    "b \<in> set bs \<Longrightarrow> b \<notin> log_region (klog s)" "\<forall>b\<in>set bs. b < 2 ^ 32" "b_owner (abs_blocks dev s) n = None"
    "card (in_use dev s \<union> {x, y}) \<le> NBUF" "take (length bs) (lh_block (klog s)) = bs"
    "length (lh_block (klog s)) = LOGSIZE"
proof -
  have ow: "\<forall>n. b_owner (abs_blocks dev s) n = None" and dj: "set bs \<inter> log_region (klog s) = {}"
    and t: "take (length bs) (lh_block (klog s)) = bs" and room: "card (in_use dev s) + 2 \<le> NBUF"
    using assms by (simp_all only: log_names_def simp_thms)
  show "cache_ok dev s p" "ldev (klog s) = dev" "lh_n (klog s) = length bs" "length bs \<le> LOGSIZE" "distinct bs"
    "take (length bs) (lh_block (klog s)) = bs" "length (lh_block (klog s)) = LOGSIZE"
    using assms by (simp_all only: log_names_def simp_thms)
  show "\<forall>b\<in>set bs. b < 2 ^ 32" using assms unfolding log_names_def by (elim conjE)
  show "b_owner (abs_blocks dev s) n = None" using ow ..
  show "b \<notin> log_region (klog s)" if "b \<in> set bs" using dj that by blast
  show "lh_block (klog s) ! i = bs ! i" if "i < length bs" using nth_take [OF that, of "lh_block (klog s)"] t by simp
  have "card (in_use dev s \<union> {x, y}) \<le> card (in_use dev s) + card {x, y}" by (rule card_Un_le)
  also have "card {x, y} \<le> 2" using card_insert_le_m1 [of 2 "{y}" x] by simp
  finally show "card (in_use dev s \<union> {x, y}) \<le> NBUF" using room by linarith
qed

lemma log_slot: "i < length bs \<Longrightarrow> length bs \<le> LOGSIZE \<Longrightarrow> lstart l + i + 1 \<in> log_region l"
  by (simp add: log_region_def)

lemma distinct_slots: "distinct (map (\<lambda>i. a + i + 1) [0..<n])" for a :: nat
  by (simp add: distinct_map inj_on_def)

lemma write_log_apply:
  assumes "log_names dev s p bs"
  shows "okK write_log s (\<lambda>_ t. cache_ok dev t p \<and> bc_frame s t \<and>
    abs_blocks dev t = copied_all (\<lambda>i. bs ! i) (\<lambda>i. lstart (klog s) + i + 1) False [0..<length bs] (abs_blocks dev s))"
proof -
  note L = log_namesD [OF assms]
  let ?l = "klog s"
  let ?body = "\<lambda>i. bindK (getL (\<lambda>l. l)) (\<lambda>l.
       bindK (bread (ldev l) (lstart l + i + 1)) (\<lambda>to.
       bindK (bread (ldev l) (lh_block l ! i)) (\<lambda>from.
       bindK (getB from bdata) (\<lambda>d.
       thenK (modB to (\<lambda>q. q\<lparr>bdata := d\<rparr>)) (thenK (bwrite to) (thenK (brelse from) (brelse to)))))))"
  have "okK (forK [0..<length bs] ?body) s (\<lambda>_ t. cache_ok dev t p \<and> bc_frame s t \<and>
    abs_blocks dev t = copied_all (\<lambda>i. bs ! i) (\<lambda>i. lstart ?l + i + 1) False [0..<length bs] (abs_blocks dev s))"
  proof (rule copy_loop [where src_first = False, OF L(1) refl])
    show "?body i t = copy_code dev False False (bs ! i) (lstart ?l + i + 1) t" if "i < length bs" "bc_frame s t" for i t
      using L(2) L(5) [OF that(1)] bc_frame_fields(3) [OF that(2)]
      by (simp add: copy_code_def copy_rest_def whenK_def del: modB_apply getB_apply)
    show "distinct (map (\<lambda>i. lstart ?l + i + 1) [0..<length bs])" by (rule distinct_slots)
    show "bs ! i \<noteq> lstart ?l + j + 1" if "i < length bs" "j < length bs" for i j
      using L(7) [of "bs ! i"] log_slot [OF that(2) L(4), of ?l] that(1) by auto
  qed (use L(9,10) in auto)
  then show ?thesis by (simp add: write_log_def L(3) okK_def)
qed

lemma install_trans_apply:
  assumes "log_names dev s p bs" and "\<not> recovering \<Longrightarrow> set bs \<subseteq> in_use dev s"
  shows "okK (install_trans recovering) s (\<lambda>_ t. cache_ok dev t p \<and> bc_frame s t \<and>
    abs_blocks dev t = copied_all (\<lambda>i. lstart (klog s) + i + 1) (\<lambda>i. bs ! i) (\<not> recovering) [0..<length bs] (abs_blocks dev s))"
proof -
  note L = log_namesD [OF assms(1)]
  let ?l = "klog s"
  let ?body = "\<lambda>i. bindK (getL (\<lambda>l. l)) (\<lambda>l.
       bindK (bread (ldev l) (lstart l + i + 1)) (\<lambda>lbuf.
       bindK (bread (ldev l) (lh_block l ! i)) (\<lambda>dbuf.
       bindK (getB lbuf bdata) (\<lambda>d.
       thenK (modB dbuf (\<lambda>q. q\<lparr>bdata := d\<rparr>))
      (thenK (bwrite dbuf)
      (thenK (whenK (\<not> recovering) (bunpin dbuf))
      (thenK (brelse lbuf)
             (brelse dbuf))))))))"
  have "okK (forK [0..<length bs] ?body) s (\<lambda>_ t. cache_ok dev t p \<and> bc_frame s t \<and>
    abs_blocks dev t = copied_all (\<lambda>i. lstart ?l + i + 1) (\<lambda>i. bs ! i) (\<not> recovering) [0..<length bs] (abs_blocks dev s))"
  proof (rule copy_loop [where src_first = True, OF L(1) refl])
    show "?body i t = copy_code dev True (\<not> recovering) (lstart ?l + i + 1) (bs ! i) t" if "i < length bs" "bc_frame s t" for i t
      using L(2) L(5) [OF that(1)] bc_frame_fields(3) [OF that(2)]
      by (simp add: copy_code_def copy_rest_def [abs_def] del: modB_apply getB_apply)
    show "distinct (map (\<lambda>i. bs ! i) [0..<length bs])" using L(6) by (simp add: map_nth)
    show "lstart ?l + i + 1 \<noteq> bs ! j" if "i < length bs" "j < length bs" for i j
      using L(7) [of "bs ! j"] log_slot [OF that(1) L(4), of ?l] that(2) by auto
    show "0 < b_refs (abs_blocks dev s) (bs ! i)" if "\<not> recovering" "i < length bs" for i
      using subsetD [OF assms(2) [OF that(1)] nth_mem [OF that(2)]] by (simp add: in_use_def)
  qed (use L(9,10) in auto)
  then show ?thesis by (simp add: install_trans_def L(3) okK_def)
qed

definition header_written :: "nat \<Rightarrow> nat list \<Rightarrow> blocks \<Rightarrow> blocks" where
  "header_written n bs A =
     (let h = encode_head bs (b_view A n) in
      A\<lparr>b_view := (b_view A)(n := h), b_disk := (b_disk A)(n := h), b_trace := b_trace A @ [(n, h)]\<rparr>)"

lemma b_view_length: "bc_inv dev s \<Longrightarrow> length (b_view (abs_blocks dev s) n) = BSIZE"
proof -
  assume inv: "bc_inv dev s"
  show ?thesis
  proof (cases "cached dev s n")
    case None
    then show ?thesis using bc_inv_facts(4) [OF inv] by (simp add: abs_blocks_def)
  next
    case (Some q)
    then obtain b where "b < NBUF" "bufs (bcache s) ! b = q" "bdev q = dev"
      by (auto simp: cached_Some [OF bc_inv_facts(2) [OF inv]])
    then have "bvalid q \<Longrightarrow> length (bdata q) = BSIZE" using bc_inv_facts(3) [OF inv] by (auto simp: buf_ok_def)
    then show ?thesis using abs_blocks_cached(1) [OF Some] bc_inv_facts(4) [OF inv] by simp
  qed
qed

lemma write_head_apply:
  assumes "log_names dev s p bs"
  shows "okK write_head s (\<lambda>_ t. cache_ok dev t p \<and> bc_frame s t \<and>
    abs_blocks dev t = header_written (lstart (klog s)) bs (abs_blocks dev s))"
proof -
  note L = log_namesD [OF assms]
  let ?n = "lstart (klog s)" and ?A = "abs_blocks dev s"
  define h where "h = encode_head bs (b_view ?A ?n)"
  have hl: "length h = BSIZE"
    unfolding h_def by (rule encode_decode(1) [OF L(4) b_view_length L(8)]) (rule cache_okD(1) [OF L(1)])
  have room: "?n \<in> in_use dev s \<or> card (in_use dev s) < NBUF"
    using room_for(1) [OF in_use_bound(1) [OF cache_okD(1) [OF L(1)]] L(10)] .
  define A1 where "A1 = ?A\<lparr>b_refs := (b_refs ?A)(?n := b_refs ?A ?n + 1), b_owner := (b_owner ?A)(?n := Some (pid (procs s ! p)))\<rparr>"
  obtain b s1 where s1: "bread dev ?n s = Ret b s1" "cache_ok dev s1 p" "bc_frame s s1" "holds_buf dev s1 p b ?n"
    "abs_blocks dev s1 = A1" "bdata (bufs (bcache s1) ! b) = b_view ?A ?n"
    unfolding A1_def by (rule read_block [OF L(1) refl L(9) room]) (blast intro: that)
  define A2 where "A2 = A1\<lparr>b_view := (b_view A1)(?n := h), b_disk := (b_disk A1)(?n := h), b_trace := b_trace A1 @ [(?n, h)]\<rparr>"
  obtain s2 where s2: "thenK (modB b (\<lambda>q. q\<lparr>bdata := h\<rparr>)) (bwrite b) s1 = Ret () s2" "cache_ok dev s2 p" "bc_frame s1 s2"
    "abs_blocks dev s2 = A2" "holds_buf dev s2 p b ?n"
    unfolding A2_def by (rule write_block [OF s1(2,4) s1(5) [symmetric] hl]) (use s1(4) in \<open>blast intro: that\<close>)
  have cl: "b_refs A2 ?n = 1 \<Longrightarrow> b_view A2 ?n = b_disk A2 ?n" by (simp add: A2_def)
  obtain t where t: "brelse b s2 = Ret () t" "cache_ok dev t p" "bc_frame s2 t"
    "abs_blocks dev t = A2\<lparr>b_refs := (b_refs A2)(?n := b_refs A2 ?n - 1), b_owner := (b_owner A2)(?n := None)\<rparr>"
    by (rule release_block [OF s2(2,5) s2(4) [symmetric] cl]) (blast intro: that)+
  have f: "put_blocks (put32 (bdata (bufs (bcache s1) ! b)) 0 (of_nat (lh_n (klog s)))) 0
      (take (lh_n (klog s)) (lh_block (klog s))) = h"
    by (simp add: h_def encode_head_def s1(6) L(3,11))
  have "write_head s = Ret () t"
    using s1(1) s2(1) t(1) by (simp add: write_head_def L(2) f)
  moreover have "abs_blocks dev t = header_written ?n bs ?A"
    unfolding t(4) by (rule blocks.equality)
      (use L(9) in \<open>auto simp: A2_def A1_def header_written_def Let_def h_def fun_eq_iff\<close>)
  moreover have "bc_frame s t" by (rule bc_frame_trans [OF s1(3) bc_frame_trans [OF s2(3) t(3)]])
  ultimately show ?thesis using t(2) by (intro okK_I [of write_head s "()" t]) blast+
qed

lemma log_names_frame:
  assumes "log_names dev s p bs" and "cache_ok dev t p" and "bc_frame s t"
    and "b_owner (abs_blocks dev t) = b_owner (abs_blocks dev s)"
    and "\<And>n. b_refs (abs_blocks dev t) n \<le> b_refs (abs_blocks dev s) n"
  shows "log_names dev t p bs"
proof -
  have "in_use dev t \<subseteq> in_use dev s"
  proof
    fix n assume "n \<in> in_use dev t"
    then show "n \<in> in_use dev s" using assms(5) [of n] by (simp add: in_use_def)
  qed
  then have "card (in_use dev t) \<le> card (in_use dev s)"
    by (intro card_mono in_use_bound(1) [OF cache_okD(1) [OF log_namesD(1) [OF assms(1)]]])
  then show ?thesis
    using assms(1,2) unfolding log_names_def bc_frame_fields(3) [OF assms(3)] assms(4)
    by (elim conjE) (intro conjI; (assumption | linarith))
qed

lemma log_names_clear:
  assumes "log_names dev s p bs" and "t = s\<lparr>klog := (klog s)\<lparr>lh_n := 0\<rparr>\<rparr>"
  shows "log_names dev t p []"
proof -
  have f: "bcache t = bcache s" "disk t = disk s" "dtrace t = dtrace s" "cur t = cur s" "procs t = procs s" "held t = held s"
    "klog t = (klog s)\<lparr>lh_n := 0\<rparr>" by (simp_all add: assms(2))
  have a: "abs_blocks dev t = abs_blocks dev s" "bc_inv dev t = bc_inv dev s" by (rule abs_blocks_cong; fact f)+
  then have u: "in_use dev t = in_use dev s" by (simp add: in_use_def)
  note L = log_namesD [OF assms(1)]
  have "card (in_use dev s) + 2 \<le> NBUF" using assms(1) by (simp only: log_names_def)
  then show ?thesis using L(1,2,9,12) by (simp add: log_names_def cache_ok_def running_def f a u)
qed

text \<open>The writes a commit makes: the logged blocks, the header, the blocks in their places, the empty header.\<close>

definition commit_writes :: "nat \<Rightarrow> nat list \<Rightarrow> (nat \<Rightarrow> u8 list) \<Rightarrow> (nat \<times> u8 list) list" where
  "commit_writes n bs v =
     map (\<lambda>i. (n + i + 1, v (bs ! i))) [0..<length bs] @ [(n, encode_head bs (v n))] @
     map (\<lambda>i. (bs ! i, v (bs ! i))) [0..<length bs] @ [(n, encode_head [] (encode_head bs (v n)))]"

lemma commit_steps:
  assumes "set bs \<inter> {n..n + LOGSIZE} = {}" and "length bs \<le> LOGSIZE" and "W = commit_writes n bs (b_view A)"
  shows "header_written n [] (copied_all (\<lambda>i. n + i + 1) (\<lambda>i. bs ! i) True [0..<length bs]
      (header_written n bs (copied_all (\<lambda>i. bs ! i) (\<lambda>i. n + i + 1) False [0..<length bs] A))) =
    A\<lparr>b_view := put_all W (b_view A), b_disk := put_all W (b_disk A), b_trace := b_trace A @ W,
      b_refs := (\<lambda>m. b_refs A m - (if m \<in> set bs then 1 else 0))\<rparr>"
proof -
  let ?v = "b_view A" let ?ws = "map (\<lambda>i. (n + i + 1, ?v (bs ! i))) [0..<length bs]"
  have r: "n \<notin> fst ` set ?ws" "n + i + 1 \<noteq> n" for i by auto
  have vn: "put_all ?ws ?v n = ?v n" by (rule put_all_other) (rule r)
  have vi: "put_all ?ws ?v (n + i + 1) = ?v (bs ! i)" if "i < length bs" for i
    using put_all_map [of "\<lambda>i. n + i + 1" "[0..<length bs]" i] distinct_slots [of n "length bs"] that by simp
  have A2: "header_written n bs (copied_all (\<lambda>i. bs ! i) (\<lambda>i. n + i + 1) False [0..<length bs] A) =
      A\<lparr>b_view := put_all (?ws @ [(n, encode_head bs (?v n))]) ?v, b_disk := put_all (?ws @ [(n, encode_head bs (?v n))]) (b_disk A),
        b_trace := b_trace A @ ?ws @ [(n, encode_head bs (?v n))]\<rparr>"
    by (rule blocks.equality) (simp_all add: header_written_def copied_all_def Let_def vn [simplified])
  let ?W2 = "?ws @ [(n, encode_head bs (?v n))]" and ?ws3 = "map (\<lambda>i. (bs ! i, ?v (bs ! i))) [0..<length bs]"
  define B where "B = header_written n bs (copied_all (\<lambda>i. bs ! i) (\<lambda>i. n + i + 1) False [0..<length bs] A)"
  have B: "b_view B = put_all ?W2 ?v" "b_disk B = put_all ?W2 (b_disk A)" "b_trace B = b_trace A @ ?W2"
    "b_refs B = b_refs A" "b_owner B = b_owner A"
    unfolding B_def A2 by simp_all
  have v2: "map (\<lambda>i. (bs ! i, b_view B (n + i + 1))) [0..<length bs] = ?ws3"
    using vi by (intro map_cong refl) (simp add: B)
  have n3: "n \<notin> fst ` set ?ws3"
  proof
    assume "n \<in> fst ` set ?ws3"
    then obtain i where "i < length bs" "n = bs ! i" by auto
    then have "n \<in> set bs" by simp
    then show False using assms(1) by auto
  qed
  have im: "(\<lambda>i. bs ! i) ` set [0..<length bs] = set bs" by (metis map_nth set_map)
  define C where "C = copied_all (\<lambda>i. n + i + 1) (\<lambda>i. bs ! i) True [0..<length bs] B"
  have C: "b_view C = put_all (?W2 @ ?ws3) ?v" "b_disk C = put_all (?W2 @ ?ws3) (b_disk A)" "b_trace C = b_trace A @ ?W2 @ ?ws3"
    "b_refs C = (\<lambda>m. b_refs A m - (if m \<in> set bs then 1 else 0))" "b_owner C = b_owner A"
    unfolding C_def copied_all_def Let_def v2 im by (simp_all add: B)
  have "b_view C n = encode_head bs (?v n)"
    unfolding C(1) put_all_simps(3) using put_all_other [OF n3] by simp
  then have "header_written n [] C =
    A\<lparr>b_view := put_all W (b_view A), b_disk := put_all W (b_disk A), b_trace := b_trace A @ W,
      b_refs := (\<lambda>m. b_refs A m - (if m \<in> set bs then 1 else 0))\<rparr>"
    unfolding assms(3) commit_writes_def header_written_def Let_def by (intro blocks.equality) (simp_all add: C)
  then show ?thesis unfolding C_def B_def .
qed

section \<open>Crashes\<close>

text \<open>The writes that recovery makes from a disk.\<close>

definition recover_writes :: "nat \<Rightarrow> (nat \<Rightarrow> u8 list) \<Rightarrow> (nat \<times> u8 list) list" where
  "recover_writes n d =
     (let bs = head_blocks (d n) in
      map (\<lambda>i. (bs ! i, d (n + i + 1))) [0..<length bs] @ [(n, encode_head [] (d n))])"

lemma length_head_blocks [simp]: "length (head_blocks d) = head_n d"
  by (simp add: head_blocks_def)

lemma image_nth_upt: "(\<lambda>i. bs ! i) ` {0..<length bs} = set bs"
  by (metis map_nth set_map set_upt)

lemma recover_nothing:
  "head_n (d n) = 0 \<Longrightarrow> m \<noteq> n \<Longrightarrow> put_all (recover_writes n d) d m = d m"
  by (simp add: recover_writes_def Let_def)

lemma recover_logged:
  assumes "head_blocks (d n) = bs" and "distinct bs" and "n \<notin> set bs" and "m \<noteq> n"
    and "\<And>i. i < length bs \<Longrightarrow> d (n + i + 1) = v (bs ! i)"
  shows "put_all (recover_writes n d) d m = (if m \<in> set bs then v m else d m)"
proof -
  let ?ws = "map (\<lambda>i. (bs ! i, v (bs ! i))) [0..<length bs]"
  have eq: "map (\<lambda>i. (bs ! i, d (n + i + 1))) [0..<length bs] = ?ws" using assms(5) by (intro map_cong refl) simp
  have "put_all (recover_writes n d) d m = put_all ?ws d m"
    unfolding recover_writes_def Let_def assms(1) eq using assms(4) by simp
  also have "\<dots> = (if m \<in> set bs then v m else d m)"
  proof (cases "m \<in> set bs")
    case True
    then obtain i where i: "i < length bs" "m = bs ! i" by (auto simp: in_set_conv_nth)
    have "distinct (map (\<lambda>i. bs ! i) [0..<length bs])" using assms(2) by (simp add: map_nth)
    then have "put_all ?ws d (bs ! i) = v (bs ! i)"
      using put_all_map [of "\<lambda>i. bs ! i" "[0..<length bs]" i "\<lambda>i. v (bs ! i)" d] i(1) by simp
    then show ?thesis using True i(2) by simp
  next
    case False
    have "m \<notin> fst ` set ?ws" using False image_nth_upt [of bs] by (auto simp: image_image)
    then show ?thesis using False by (simp add: put_all_other)
  qed
  finally show ?thesis .
qed

text \<open>
  The disk after any number of a commit's writes: recovery gives the old contents of all blocks when
  the header is not written yet and the new contents of all of them otherwise.
\<close>

lemma crash_during_commit:
  assumes "distinct bs" and "set bs \<inter> {n..n + LOGSIZE} = {}" and "length bs \<le> LOGSIZE" and "\<forall>b\<in>set bs. b < 2 ^ 32"
    and "head_n (d n) = 0" and "length (v n) = BSIZE" and "k \<le> length (commit_writes n bs v)"
    and "dk = put_all (take k (commit_writes n bs v)) d"
  shows "head_blocks (dk n) = (if length bs < k \<and> k < 2 * length bs + 2 then bs else [])"
    "m \<notin> {n..n + LOGSIZE} \<Longrightarrow> put_all (recover_writes n dk) dk m =
       (if length bs < k \<and> m \<in> set bs then v m else d m)"
proof -
  let ?N = "length bs" and ?h = "encode_head bs (v n)"
  let ?ws = "map (\<lambda>i. (n + i + 1, v (bs ! i))) [0..<length bs]" and ?ws3 = "map (\<lambda>i. (bs ! i, v (bs ! i))) [0..<length bs]"
  note E = encode_decode [OF assms(3,6,4)] and E0 = encode_decode [of "[]" ?h]
  have nb: "n \<notin> set bs" "n + i + 1 \<notin> set bs" if "i < ?N" for i using assms(2,3) that by auto
  have nn: "n \<notin> set bs" using assms(2) by auto
  have sub3: "fst ` set (take j ?ws3) \<subseteq> set bs" for j
    using image_nth_upt [of bs] set_take_subset [of j ?ws3] by (fastforce simp: image_image)
  have sub1: "fst ` set (take j ?ws) \<subseteq> {n + 1..n + LOGSIZE}" for j
    using set_take_subset [of j ?ws] assms(3) by fastforce
  have slot: "put_all ?ws d (n + i + 1) = v (bs ! i)" if "i < ?N" for i
    using put_all_map [of "\<lambda>i. n + i + 1" "[0..<length bs]" i] distinct_slots [of n ?N] that by simp
  have w1: "put_all ?ws d x = d x" if "x \<notin> {n..n + LOGSIZE}" for x
    by (rule put_all_other) (use assms(3) that in auto)
  have mn: "m \<noteq> n" if "m \<notin> {n..n + LOGSIZE}" using that by auto
  consider "k \<le> ?N" | "?N < k" "k < 2 * ?N + 2" | "k = 2 * ?N + 2"
    using assms(7) by (fastforce simp: commit_writes_def)
  then have "head_blocks (dk n) = (if ?N < k \<and> k < 2 * ?N + 2 then bs else []) \<and>
      (m \<notin> {n..n + LOGSIZE} \<longrightarrow> put_all (recover_writes n dk) dk m = (if ?N < k \<and> m \<in> set bs then v m else d m))"
  proof cases
    case 1
    then have dk: "dk = put_all (take k ?ws) d" by (simp add: assms(8) commit_writes_def)
    have "dk n = d n" unfolding dk by (rule put_all_other) (use sub1 [of k] in auto)
    moreover have "dk m = d m" if "m \<notin> {n..n + LOGSIZE}" unfolding dk by (rule put_all_other) (use sub1 [of k] that in auto)
    ultimately show ?thesis using 1 assms(5) recover_nothing [of dk n m] by (auto simp: head_blocks_def)
  next
    case 2
    then have "take k (commit_writes n bs v) = ?ws @ [(n, ?h)] @ take (k - ?N - 1) ?ws3"
      by (simp add: commit_writes_def take_Cons')
    then have dk: "dk = put_all (take (k - ?N - 1) ?ws3) ((put_all ?ws d)(n := ?h))" by (simp add: assms(8))
    have o: "dk x = ((put_all ?ws d)(n := ?h)) x" if "x \<notin> set bs" for x
      unfolding dk by (rule put_all_other) (use sub3 that in blast)
    have hb: "head_blocks (dk n) = bs" using o [OF nn] E(3) by simp
    have sl: "dk (n + i + 1) = v (bs ! i)" if "i < ?N" for i using o [OF nb(2) [OF that]] slot [OF that] by simp
    have "dk m = d m" if "m \<notin> {n..n + LOGSIZE}" "m \<notin> set bs"
    proof -
      have "dk m = put_all ?ws d m" using o [OF that(2)] mn [OF that(1)] by simp
      also have "\<dots> = d m" by (rule w1 [OF that(1)])
      finally show ?thesis .
    qed
    then show ?thesis using 2 hb recover_logged [where v = v, OF hb assms(1) nn _ sl] by auto
  next
    case 3
    then have "take k (commit_writes n bs v) = commit_writes n bs v" by (simp add: commit_writes_def)
    then have dk: "dk = (put_all ?ws3 ((put_all ?ws d)(n := ?h)))(n := encode_head [] ?h)"
      by (simp add: assms(8) commit_writes_def)
    have z: "head_n (dk n) = 0" using E0(2) E(1) by (simp add: dk)
    have "dk m = (if m \<in> set bs then v m else d m)" if m: "m \<notin> {n..n + LOGSIZE}"
    proof (cases "m \<in> set bs")
      case True
      then obtain i where i: "i < ?N" "m = bs ! i" by (auto simp: in_set_conv_nth)
      have "distinct (map (\<lambda>i. bs ! i) [0..<?N])" using assms(1) by (simp add: map_nth)
      then show ?thesis
        using put_all_map [of "\<lambda>i. bs ! i" "[0..<?N]" i "\<lambda>i. v (bs ! i)"] i mn [OF m] True by (simp add: dk)
    next
      case False
      have "dk m = put_all ?ws3 ((put_all ?ws d)(n := ?h)) m" using mn [OF m] by (simp add: dk)
      also have "\<dots> = ((put_all ?ws d)(n := ?h)) m" by (rule put_all_other) (use sub3 [of ?N] False in auto)
      also have "\<dots> = d m" using w1 [OF m] mn [OF m] by simp
      finally show ?thesis using False by simp
    qed
    then show ?thesis using 3 z recover_nothing [of dk n m] by (auto simp: head_blocks_def)
  qed
  then show "head_blocks (dk n) = (if length bs < k \<and> k < 2 * length bs + 2 then bs else [])"
    "m \<notin> {n..n + LOGSIZE} \<Longrightarrow> put_all (recover_writes n dk) dk m = (if length bs < k \<and> m \<in> set bs then v m else d m)"
    by blast+
qed

lemma klog_cong [simp]:
  "abs_blocks dev (s\<lparr>klog := l\<rparr>) = abs_blocks dev s" "cache_ok dev (s\<lparr>klog := l\<rparr>) p = cache_ok dev s p"
  "holds_buf dev (s\<lparr>klog := l\<rparr>) p b n = holds_buf dev s p b n" "in_use dev (s\<lparr>klog := l\<rparr>) = in_use dev s"
proof -
  have a: "abs_blocks dev (s\<lparr>klog := l\<rparr>) = abs_blocks dev s" "bc_inv dev (s\<lparr>klog := l\<rparr>) = bc_inv dev s"
    by (rule abs_blocks_cong; simp)+
  then show "abs_blocks dev (s\<lparr>klog := l\<rparr>) = abs_blocks dev s" "cache_ok dev (s\<lparr>klog := l\<rparr>) p = cache_ok dev s p"
    "holds_buf dev (s\<lparr>klog := l\<rparr>) p b n = holds_buf dev s p b n" "in_use dev (s\<lparr>klog := l\<rparr>) = in_use dev s"
    by (simp_all add: cache_ok_def running_def holds_buf_def in_use_def)
qed

lemma commit_apply:
  assumes "log_names dev s p bs" and "bs \<noteq> []" and "set bs \<subseteq> in_use dev s"
    and "A = abs_blocks dev s" and "W = commit_writes (lstart (klog s)) bs (b_view A)"
  shows "okK commit s (\<lambda>_ t. cache_ok dev t p \<and> klog t = (klog s)\<lparr>lh_n := 0\<rparr> \<and>
    abs_blocks dev t = A\<lparr>b_view := put_all W (b_view A), b_disk := put_all W (b_disk A), b_trace := b_trace A @ W,
      b_refs := (\<lambda>m. b_refs A m - (if m \<in> set bs then 1 else 0))\<rparr>)"
proof -
  let ?l = "klog s" and ?I = "[0..<length bs]" let ?n = "lstart ?l"
  note L = log_namesD [OF assms(1)]
  obtain s1 where s1: "write_log s = Ret () s1" "cache_ok dev s1 p" "bc_frame s s1"
    "abs_blocks dev s1 = copied_all (\<lambda>i. bs ! i) (\<lambda>i. ?n + i + 1) False ?I A"
    using write_log_apply [OF assms(1)] assms(4) by (auto elim: okK_E)
  have k1: "klog s1 = ?l" by (rule bc_frame_fields(3) [OF s1(3)])
  have n1: "log_names dev s1 p bs"
    by (rule log_names_frame [OF assms(1) s1(2,3)]) (simp_all add: s1(4) copied_all_def Let_def assms(4))
  obtain s2 where s2: "write_head s1 = Ret () s2" "cache_ok dev s2 p" "bc_frame s1 s2"
    "abs_blocks dev s2 = header_written ?n bs (copied_all (\<lambda>i. bs ! i) (\<lambda>i. ?n + i + 1) False ?I A)"
    using write_head_apply [OF n1] unfolding k1 s1(4) by (auto elim: okK_E)
  have k2: "klog s2 = ?l" using bc_frame_fields(3) [OF s2(3)] k1 by simp
  have n2: "log_names dev s2 p bs"
    by (rule log_names_frame [OF n1 s2(2,3)]) (simp_all add: s2(4) s1(4) header_written_def copied_all_def Let_def)
  have "in_use dev s2 = in_use dev s"
    by (simp add: in_use_def s2(4) header_written_def copied_all_def Let_def assms(4))
  then have u2: "set bs \<subseteq> in_use dev s2" using assms(3) by simp
  obtain s3 where s3: "install_trans False s2 = Ret () s3" "cache_ok dev s3 p" "bc_frame s2 s3"
    "abs_blocks dev s3 = copied_all (\<lambda>i. ?n + i + 1) (\<lambda>i. bs ! i) True ?I
       (header_written ?n bs (copied_all (\<lambda>i. bs ! i) (\<lambda>i. ?n + i + 1) False ?I A))"
    using install_trans_apply [OF n2, of False] u2 unfolding k2 s2(4) by (auto elim: okK_E)
  have k3: "klog s3 = ?l" using bc_frame_fields(3) [OF s3(3)] k2 by simp
  have n3: "log_names dev s3 p bs"
    by (rule log_names_frame [OF n2 s3(2,3)]) (simp_all add: s3(4) s2(4) copied_all_def Let_def)
  let ?s4 = "s3\<lparr>klog := (klog s3)\<lparr>lh_n := 0\<rparr>\<rparr>"
  obtain t where t: "write_head ?s4 = Ret () t" "cache_ok dev t p" "bc_frame ?s4 t"
    "abs_blocks dev t = header_written ?n [] (abs_blocks dev s3)"
    using write_head_apply [OF log_names_clear [OF n3 refl]] k3 by (auto elim: okK_E)
  have dj: "set bs \<inter> {?n..?n + LOGSIZE} = {}" using L(7) by (auto simp: log_region_def)
  have "commit s = Ret () t"
    using assms(2) s1(1) s2(1) s3(1) t(1) by (simp add: commit_def L(3))
  moreover have "klog t = ?l\<lparr>lh_n := 0\<rparr>" using bc_frame_fields(3) [OF t(3)] k3 by simp
  ultimately show ?thesis
    using t(2,4) commit_steps [OF dj L(4) assms(5)] s3(4) by (intro okK_I [of commit s "()" t]) simp_all
qed

lemma read_head_apply:
  assumes "cache_ok dev s p" and "ldev (klog s) = dev" and "length (lh_block (klog s)) = LOGSIZE"
    and "b_owner (abs_blocks dev s) (lstart (klog s)) = None" and "card (in_use dev s) < NBUF"
    and "d = b_view (abs_blocks dev s) (lstart (klog s))" and "head_n d \<le> LOGSIZE"
  shows "okK read_head s (\<lambda>_ t. cache_ok dev t p \<and> abs_blocks dev t = abs_blocks dev s \<and>
    klog t = (klog s)\<lparr>lh_n := head_n d, lh_block := head_blocks d @ drop (head_n d) (lh_block (klog s))\<rparr>)"
proof -
  let ?n = "lstart (klog s)" and ?A = "abs_blocks dev s"
  have room: "?n \<in> in_use dev s \<or> card (in_use dev s) < NBUF" using assms(5) ..
  define A1 where "A1 = ?A\<lparr>b_refs := (b_refs ?A)(?n := b_refs ?A ?n + 1), b_owner := (b_owner ?A)(?n := Some (pid (procs s ! p)))\<rparr>"
  obtain b s1 where s1: "bread dev ?n s = Ret b s1" "cache_ok dev s1 p" "bc_frame s s1" "holds_buf dev s1 p b ?n"
    "abs_blocks dev s1 = A1" "bdata (bufs (bcache s1) ! b) = d"
    unfolding A1_def assms(6) by (rule read_block [OF assms(1) refl assms(4) room]) (blast intro: that)
  have k1: "klog s1 = klog s" by (rule bc_frame_fields(3) [OF s1(3)])
  define l where "l = (klog s)\<lparr>lh_n := head_n d, lh_block := head_blocks d @ drop (head_n d) (lh_block (klog s))\<rparr>"
  have c: "cache_ok dev (s1\<lparr>klog := l\<rparr>) p" "holds_buf dev (s1\<lparr>klog := l\<rparr>) p b ?n" "A1 = abs_blocks dev (s1\<lparr>klog := l\<rparr>)"
    using s1(2,4,5) by simp_all
  have cl: "b_refs A1 ?n = 1 \<Longrightarrow> b_view A1 ?n = b_disk A1 ?n"
    using block_clean(1) [OF cache_okD(1) [OF assms(1)], of ?n] by (simp add: A1_def)
  obtain t where t: "brelse b (s1\<lparr>klog := l\<rparr>) = Ret () t" "cache_ok dev t p" "bc_frame (s1\<lparr>klog := l\<rparr>) t"
    "abs_blocks dev t = A1\<lparr>b_refs := (b_refs A1)(?n := b_refs A1 ?n - 1), b_owner := (b_owner A1)(?n := None)\<rparr>"
    by (rule release_block [OF c cl]) (blast intro: that)+
  have "read_head s = Ret () t"
    using s1(1) t(1) assms(2,7) by (simp add: read_head_def Let_def s1(6) k1 l_def head_blocks_def head_n_def)
  moreover have "abs_blocks dev t = ?A"
    unfolding t(4) by (rule blocks.equality) (use assms(4) in \<open>auto simp: A1_def fun_eq_iff\<close>)
  moreover have "klog t = l" using bc_frame_fields(3) [OF t(3)] by simp
  ultimately show ?thesis using t(2) by (intro okK_I [of read_head s "()" t]) (simp_all add: l_def)
qed

text \<open>The kernel after a reboot: nothing is cached, the log's place on the disk is known.\<close>

definition rebooted :: "nat \<Rightarrow> kstate \<Rightarrow> nat \<Rightarrow> nat \<Rightarrow> (nat \<Rightarrow> u8 list) \<Rightarrow> bool" where
  "rebooted dev u p n d \<longleftrightarrow> cache_ok dev u p \<and> in_use dev u = {} \<and> disk u = d \<and> ldev (klog u) = dev \<and>
     lstart (klog u) = n \<and> length (lh_block (klog u)) = LOGSIZE"

lemma rebooted_blocks:
  assumes "rebooted dev u p n d"
  shows "b_refs (abs_blocks dev u) m = 0" "b_view (abs_blocks dev u) = d" "b_owner (abs_blocks dev u) m = None"
proof -
  have u: "cache_ok dev u p" "in_use dev u = {}" "disk u = d" using assms by (simp_all add: rebooted_def)
  show r: "b_refs (abs_blocks dev u) m = 0" for m using u(2) by (auto simp: in_use_def)
  show "b_view (abs_blocks dev u) = d" using block_clean(1) [OF cache_okD(1) [OF u(1)] r] u(3) by auto
  show "b_owner (abs_blocks dev u) m = None" by (rule block_clean(2) [OF cache_okD(1) [OF u(1)] r])
qed

lemma recover_apply:
  assumes "rebooted dev u p n d" and "bs = head_blocks (d n)" and "length bs \<le> LOGSIZE" and "distinct bs"
    and "set bs \<inter> {n..n + LOGSIZE} = {}"
  shows "okK recover_from_log u (\<lambda>_ v. rebooted dev v p n (put_all (recover_writes n d) d) \<and>
    dtrace v = dtrace u @ recover_writes n d \<and> lh_n (klog v) = 0)"
proof -
  note B = rebooted_blocks [OF assms(1)]
  have u: "cache_ok dev u p" "in_use dev u = {}" "disk u = d" "ldev (klog u) = dev" "lstart (klog u) = n"
    "length (lh_block (klog u)) = LOGSIZE" using assms(1) by (simp_all add: rebooted_def)
  have n0: "0 < NBUF" "2 \<le> NBUF" by (simp_all add: NBUF_def MAXOPBLOCKS_def)
  have hn: "head_n (d n) = length bs" using assms(2) by simp
  obtain s1 where s1: "read_head u = Ret () s1" "cache_ok dev s1 p" "abs_blocks dev s1 = abs_blocks dev u"
    "klog s1 = (klog u)\<lparr>lh_n := length bs, lh_block := bs @ drop (length bs) (lh_block (klog u))\<rparr>"
  proof -
    have "card (in_use dev u) < NBUF" "d n = b_view (abs_blocks dev u) (lstart (klog u))" "head_n (d n) \<le> LOGSIZE"
      using u(2,5) n0 hn assms(3) by (simp_all add: B(2))
    from read_head_apply [OF u(1,4,6) B(3) this] show ?thesis
      unfolding hn assms(2) [symmetric] by (rule okK_E, elim conjE, intro that) simp_all
  qed
  have lt: "\<forall>b\<in>set bs. b < 2 ^ 32"
  proof
    fix b assume "b \<in> set bs"
    then obtain w :: u32 where "b = unat w" by (auto simp: assms(2) head_blocks_def)
    then show "b < 2 ^ 32" using unsigned_less [of w, where ?'a = nat] by simp
  qed
  have i1: "in_use dev s1 = {}" using u(2) by (simp add: in_use_def s1(3))
  have n1: "log_names dev s1 p bs"
    unfolding log_names_def s1(3,4) i1 using s1(2) u(4,5,6) B(3) assms(3,4,5) lt n0 by (simp add: log_region_def)
  let ?C = "copied_all (\<lambda>i. n + i + 1) (\<lambda>i. bs ! i) False [0..<length bs] (abs_blocks dev u)"
  obtain s2 where s2: "install_trans True s1 = Ret () s2" "cache_ok dev s2 p" "bc_frame s1 s2" "abs_blocks dev s2 = ?C"
    by (rule okK_E [OF install_trans_apply [OF n1, of True]]) (use s1(3,4) u(5) in \<open>auto intro: that\<close>)
  have n2: "log_names dev s2 p bs"
    by (rule log_names_frame [OF n1 s2(2,3)]) (simp_all add: s2(4) s1(3) copied_all_def Let_def)
  have k2: "klog s2 = klog s1" by (rule bc_frame_fields(3) [OF s2(3)])
  let ?s3 = "s2\<lparr>klog := (klog s2)\<lparr>lh_n := 0\<rparr>\<rparr>"
  obtain v where v: "write_head ?s3 = Ret () v" "cache_ok dev v p" "bc_frame ?s3 v" "abs_blocks dev v = header_written n [] ?C"
    by (rule okK_E [OF write_head_apply [OF log_names_clear [OF n2 refl]]])
      (use s2(4) k2 s1(4) u(5) in \<open>auto intro: that\<close>)
  have kv: "klog v = (klog u)\<lparr>lh_n := 0, lh_block := bs @ drop (length bs) (lh_block (klog u))\<rparr>"
    using bc_frame_fields(3) [OF v(3)] k2 s1(4) by simp
  let ?ws = "map (\<lambda>i. (bs ! i, d (n + i + 1))) [0..<length bs]"
  have nb: "n \<notin> fst ` set ?ws"
  proof
    assume "n \<in> fst ` set ?ws"
    then obtain i where "i < length bs" "n = bs ! i" by auto
    then have "n \<in> set bs" by simp
    then show False using assms(5) by auto
  qed
  have A: "b_view (abs_blocks dev u) = d" "b_disk (abs_blocks dev u) = d" "b_trace (abs_blocks dev u) = dtrace u"
    using B(2) u(3) by simp_all
  have c: "b_view ?C n = d n" using put_all_other [OF nb, of d] by (simp add: copied_all_def Let_def A)
  have "disk v = b_disk (header_written n [] ?C)" "dtrace v = b_trace (header_written n [] ?C)"
    using v(4) abs_blocks_fields [of dev v] by simp_all
  then have d: "disk v = put_all (recover_writes n d) d" "dtrace v = dtrace u @ recover_writes n d"
    unfolding header_written_def Let_def c by (simp_all add: copied_all_def Let_def A u(3) recover_writes_def assms(2))
  have "in_use dev v = {}" by (simp add: in_use_def v(4) header_written_def copied_all_def Let_def B(1))
  then have "rebooted dev v p n (disk v)" using v(2) kv u(4-6) assms(3) by (simp add: rebooted_def)
  then show ?thesis
    using s1(1) s2(1) v(1) kv d by (intro okK_I [of recover_from_log u "()" v]) (simp_all add: recover_from_log_def)
qed

text \<open>
  C1: Transactions are atomic in the face of crashes. \<^verbatim>\<open>commit\<close> of the logged blocks \<open>bs\<close> puts their new
  contents in place, and whenever the machine stops after some of its block writes, a kernel that
  boots from that disk and runs \<^verbatim>\<open>recover_from_log\<close> finds either the old contents of every block (the
  header was not yet written) or the new contents of every logged block.
\<close>

theorem commit_is_crash_atomic:
  assumes "log_names dev s p bs" and "bs \<noteq> []" and "set bs \<subseteq> in_use dev s"
    and "head_n (disk s (lstart (klog s))) = 0" and "v = b_view (abs_blocks dev s)"
  shows "okK commit s (\<lambda>_ t. \<exists>W. dtrace t = dtrace s @ W \<and> disk t = put_all W (disk s) \<and>
    (\<forall>m. m \<notin> log_region (klog s) \<longrightarrow> disk t m = (if m \<in> set bs then v m else disk s m)) \<and>
    (\<forall>k u q. k \<le> length W \<and> rebooted dev u q (lstart (klog s)) (put_all (take k W) (disk s)) \<longrightarrow>
       okK recover_from_log u (\<lambda>_ x. \<forall>m. m \<notin> log_region (klog s) \<longrightarrow>
         disk x m = (if length bs < k \<and> m \<in> set bs then v m else disk s m))))"
proof -
  let ?n = "lstart (klog s)" let ?W = "commit_writes ?n bs v"
  note L = log_namesD [OF assms(1)]
  have dj: "set bs \<inter> {?n..?n + LOGSIZE} = {}" using L(7) by (auto simp: log_region_def)
  have vl: "length (v ?n) = BSIZE" unfolding assms(5) by (rule b_view_length [OF cache_okD(1) [OF L(1)]])
  note K = crash_during_commit [where d = "disk s" and v = v, OF L(6) dj L(4,8) assms(4) vl _ refl]
  have rec: "okK recover_from_log u (\<lambda>_ x. \<forall>m. m \<notin> log_region (klog s) \<longrightarrow>
         disk x m = (if length bs < k \<and> m \<in> set bs then v m else disk s m))"
    if k: "k \<le> length ?W" and u: "rebooted dev u q ?n (put_all (take k ?W) (disk s))" for k u q
  proof -
    have hb: "head_blocks (put_all (take k ?W) (disk s) ?n) = (if length bs < k \<and> k < 2 * length bs + 2 then bs else [])"
      by (rule K(1) [OF k])
    have "okK recover_from_log u (\<lambda>_ x. rebooted dev x q ?n
        (put_all (recover_writes ?n (put_all (take k ?W) (disk s))) (put_all (take k ?W) (disk s))) \<and>
        dtrace x = dtrace u @ recover_writes ?n (put_all (take k ?W) (disk s)) \<and> lh_n (klog x) = 0)"
    proof (rule recover_apply [OF u refl])
      show "set (head_blocks (put_all (take k ?W) (disk s) ?n)) \<inter> {?n..?n + LOGSIZE} = {}"
        unfolding hb using dj by (cases "length bs < k \<and> k < 2 * length bs + 2") (simp_all only: simp_thms if_True if_False list.set Int_empty_left)
    qed (use L(4,6) in \<open>simp_all add: hb\<close>)
    then show ?thesis
      by (rule okK_mono) (use K(2) [OF k] in \<open>simp add: rebooted_def log_region_def\<close>)
  qed
  have new: "put_all ?W (disk s) m = (if m \<in> set bs then v m else disk s m)" if "m \<notin> log_region (klog s)" for m
  proof -
    have z: "head_n (put_all ?W (disk s) ?n) = 0"
      using K(1) [of "length ?W"] length_head_blocks [of "put_all ?W (disk s) ?n"]
      by (simp add: commit_writes_def split: if_splits)
    have "m \<noteq> ?n" using that by (auto simp: log_region_def)
    then have "put_all ?W (disk s) m = put_all (recover_writes ?n (put_all ?W (disk s))) (put_all ?W (disk s)) m"
      using recover_nothing [of "put_all ?W (disk s)" ?n m] z by simp
    also have "\<dots> = (if m \<in> set bs then v m else disk s m)"
      using K(2) [of "length ?W" m] that by (simp add: log_region_def commit_writes_def)
    finally show ?thesis .
  qed
  show ?thesis
  proof (rule okK_mono [OF commit_apply [OF assms(1-3) refl refl]], elim conjE)
    fix r t assume "abs_blocks dev t = (abs_blocks dev s)\<lparr>
      b_view := put_all (commit_writes ?n bs (b_view (abs_blocks dev s))) (b_view (abs_blocks dev s)),
      b_disk := put_all (commit_writes ?n bs (b_view (abs_blocks dev s))) (b_disk (abs_blocks dev s)),
      b_trace := b_trace (abs_blocks dev s) @ commit_writes ?n bs (b_view (abs_blocks dev s)),
      b_refs := \<lambda>m. b_refs (abs_blocks dev s) m - (if m \<in> set bs then 1 else 0)\<rparr>"
    then have "disk t = put_all ?W (disk s)" "dtrace t = dtrace s @ ?W"
      using abs_blocks_fields [of dev t] by (simp_all add: assms(5))
    then have "dtrace t = dtrace s @ ?W \<and> disk t = put_all ?W (disk s) \<and>
      (\<forall>m. m \<notin> log_region (klog s) \<longrightarrow> disk t m = (if m \<in> set bs then v m else disk s m))"
      using new by simp
    then show "\<exists>W. dtrace t = dtrace s @ W \<and> disk t = put_all W (disk s) \<and>
      (\<forall>m. m \<notin> log_region (klog s) \<longrightarrow> disk t m = (if m \<in> set bs then v m else disk s m)) \<and>
      (\<forall>k u q. k \<le> length W \<and> rebooted dev u q ?n (put_all (take k W) (disk s)) \<longrightarrow>
       okK recover_from_log u (\<lambda>_ x. \<forall>m. m \<notin> log_region (klog s) \<longrightarrow>
         disk x m = (if length bs < k \<and> m \<in> set bs then v m else disk s m)))"
      using rec by blast
  qed
qed

lemma crash_during_recovery:
  assumes "distinct bs" and "set bs \<inter> {n..n + LOGSIZE} = {}" and "bs = head_blocks (d n)" and "length bs \<le> LOGSIZE"
    and "length (d n) = BSIZE" and "k \<le> length (recover_writes n d)" and "dk = put_all (take k (recover_writes n d)) d"
  shows "head_blocks (dk n) = (if k \<le> length bs then bs else [])"
    "m \<notin> {n..n + LOGSIZE} \<Longrightarrow> put_all (recover_writes n dk) dk m = put_all (recover_writes n d) d m"
proof -
  let ?N = "length bs" and ?ws = "map (\<lambda>i. (bs ! i, d (n + i + 1))) [0..<length bs]"
  have W: "recover_writes n d = ?ws @ [(n, encode_head [] (d n))]" by (simp add: recover_writes_def Let_def assms(3))
  have nn: "n \<notin> set bs" using assms(2) by auto
  have sub: "fst ` set (take j ?ws) \<subseteq> set bs" for j
    using image_nth_upt [of bs] set_take_subset [of j ?ws] by (fastforce simp: image_image)
  define at where "at = (\<lambda>b. d (n + (THE i. i < ?N \<and> bs ! i = b) + 1))"
  have v: "at (bs ! i) = d (n + i + 1)" if "i < ?N" for i
  proof -
    have "(THE j. j < ?N \<and> bs ! j = bs ! i) = i"
      using that nth_eq_iff_index_eq [OF assms(1) _ that] by (intro the_equality) auto
    then show ?thesis by (simp add: at_def)
  qed
  have rd: "put_all (recover_writes n d) d m = (if m \<in> set bs then at m else d m)" if "m \<noteq> n"
    by (rule recover_logged [where d = d and v = at, OF assms(3) [symmetric] assms(1) nn that]) (use v in simp)
  have "head_blocks (dk n) = (if k \<le> ?N then bs else []) \<and>
      (m \<notin> {n..n + LOGSIZE} \<longrightarrow> put_all (recover_writes n dk) dk m = put_all (recover_writes n d) d m)"
  proof (cases "k \<le> ?N")
    case True
    then have dk: "dk = put_all (take k ?ws) d" by (simp add: assms(7) W)
    have o: "dk x = d x" if "x \<notin> set bs" for x
      unfolding dk by (rule put_all_other) (use sub that in blast)
    have hb: "head_blocks (dk n) = bs" using o [OF nn] assms(3) by simp
    have sl: "dk (n + i + 1) = at (bs ! i)" if "i < ?N" for i
    proof -
      have "n + i + 1 \<in> {n..n + LOGSIZE}" using that assms(4) by simp
      then have "n + i + 1 \<notin> set bs" using assms(2) by blast
      then show ?thesis using o v [OF that] by simp
    qed
    have "put_all (recover_writes n dk) dk m = (if m \<in> set bs then at m else dk m)" if "m \<noteq> n"
      by (rule recover_logged [where d = dk and v = at, OF hb assms(1) nn that sl])
    then show ?thesis using hb True rd o [of m] by auto
  next
    case False
    then have "take k (recover_writes n d) = recover_writes n d" using assms(6) by (simp add: W)
    then have dk: "dk = put_all (recover_writes n d) d" by (simp add: assms(7))
    then have "dk n = encode_head [] (d n)" by (simp add: W)
    then have z: "head_n (dk n) = 0" using encode_decode(2) [of "[]" "d n"] assms(5) by simp
    then show ?thesis using False recover_nothing [of dk n m] by (auto simp: head_blocks_def dk)
  qed
  then show "head_blocks (dk n) = (if k \<le> length bs then bs else [])"
    "m \<notin> {n..n + LOGSIZE} \<Longrightarrow> put_all (recover_writes n dk) dk m = put_all (recover_writes n d) d m" by blast+
qed

text \<open>
  C2: Recovery itself may be cut short. Whenever the machine stops after some of the block writes of
  \<^verbatim>\<open>recover_from_log\<close>, a kernel that boots from that disk and recovers once more leaves every block
  outside the log as the uninterrupted recovery does.
\<close>

theorem recovery_survives_crashes:
  assumes "rebooted dev u p n d" and "bs = head_blocks (d n)" and "length bs \<le> LOGSIZE" and "distinct bs"
    and "set bs \<inter> {n..n + LOGSIZE} = {}"
  shows "okK recover_from_log u (\<lambda>_ x. \<exists>W. dtrace x = dtrace u @ W \<and> disk x = put_all W d \<and>
    (\<forall>k u' q. k \<le> length W \<and> rebooted dev u' q n (put_all (take k W) d) \<longrightarrow>
       okK recover_from_log u' (\<lambda>_ y. \<forall>m. m \<notin> {n..n + LOGSIZE} \<longrightarrow> disk y m = disk x m)))"
proof -
  let ?W = "recover_writes n d"
  have "bc_inv dev u" "disk u = d" using assms(1) by (simp_all add: rebooted_def cache_ok_def)
  then have len: "length (d n) = BSIZE" using bc_inv_facts(4) [of dev u n] by simp
  note K = crash_during_recovery [where d = d, OF assms(4,5,2,3) len _ refl]
  have rec: "okK recover_from_log u' (\<lambda>_ y. \<forall>m. m \<notin> {n..n + LOGSIZE} \<longrightarrow> disk y m = put_all ?W d m)"
    if k: "k \<le> length ?W" and u': "rebooted dev u' q n (put_all (take k ?W) d)" for k u' q
  proof -
    have hb: "head_blocks (put_all (take k ?W) d n) = (if k \<le> length bs then bs else [])" by (rule K(1) [OF k])
    have "okK recover_from_log u' (\<lambda>_ y. rebooted dev y q n
        (put_all (recover_writes n (put_all (take k ?W) d)) (put_all (take k ?W) d)) \<and>
        dtrace y = dtrace u' @ recover_writes n (put_all (take k ?W) d) \<and> lh_n (klog y) = 0)"
      by (rule recover_apply [OF u' refl]; unfold hb; cases "k \<le> length bs"; use assms(3-5) in simp)
    then show ?thesis by (rule okK_mono) (use K(2) [OF k] in \<open>simp add: rebooted_def\<close>)
  qed
  show ?thesis
  proof (rule okK_mono [OF recover_apply [OF assms]], elim conjE)
    fix r x assume "rebooted dev x p n (put_all ?W d)" "dtrace x = dtrace u @ ?W"
    then have x: "dtrace x = dtrace u @ ?W" "disk x = put_all ?W d" by (simp_all add: rebooted_def)
    then show "\<exists>W. dtrace x = dtrace u @ W \<and> disk x = put_all W d \<and>
      (\<forall>k u' q. k \<le> length W \<and> rebooted dev u' q n (put_all (take k W) d) \<longrightarrow>
       okK recover_from_log u' (\<lambda>_ y. \<forall>m. m \<notin> {n..n + LOGSIZE} \<longrightarrow> disk y m = disk x m))"
      using rec unfolding x(2) by blast
  qed
qed

section \<open>A sample log\<close>

text \<open>Block 40 is in the log with new contents in its buffer; the log on the disk is empty.\<close>

definition sample_log :: kstate where
  "sample_log = (upd_buf 0 \<lparr>bvalid = True, bdev = ROOTDEV, blockno = 40, blk = sleeplock_zero, refcnt = 1,
       bdata = replicate BSIZE 9\<rparr> (sample_cache\<lparr>disk := (\<lambda>_. replicate BSIZE 0)\<rparr>))
     \<lparr>klog := \<lparr>lstart = 2, lsize = 30, outstanding = 0, committing = True, ldev = ROOTDEV, lh_n = 1,
              lh_block = 40 # replicate 29 0\<rparr>\<rparr>"

lemma sample_log_fields [simp]:
  "klog sample_log = \<lparr>lstart = 2, lsize = 30, outstanding = 0, committing = True, ldev = ROOTDEV, lh_n = 1,
              lh_block = 40 # replicate 29 0\<rparr>"
  "disk sample_log n = replicate BSIZE 0"
  by (simp_all add: sample_log_def)

lemma head_n_zero: "head_n (replicate BSIZE 0) = 0"
  by (simp add: head_n_def get32_def BSIZE_def numeral_eq_Suc)

lemma sample_log_names:
  "log_names ROOTDEV sample_log 0 [40]" "set [40] \<subseteq> in_use ROOTDEV sample_log"
  "b_view (abs_blocks ROOTDEV sample_log) 40 = replicate BSIZE 9"
proof -
  let ?s = "sample_cache\<lparr>disk := (\<lambda>_. replicate BSIZE 0)\<rparr>"
  let ?q = "\<lparr>bvalid = True, bdev = ROOTDEV, blockno = 40, blk = sleeplock_zero, refcnt = 1, bdata = replicate BSIZE 9\<rparr>"
  have z: "0 < NBUF" "3 \<le> NBUF" by (simp_all add: NBUF_def MAXOPBLOCKS_def)
  have c: "cached ROOTDEV ?s n = None" for n by (simp add: cached_None sample_cache_def buf_zero_def ROOTDEV_def)
  have i0: "bc_inv ROOTDEV ?s"
    by (auto simp: ROOTDEV_def sample_cache_def bc_inv_def Let_def bufs_unique_def buf_ok_def buf_zero_def sleeplock_zero_def)
  have ok: "buf_ok ROOTDEV (disk ?s) ?q" by (simp add: buf_ok_def sleeplock_zero_def)
  have pre: "bdev ?q = ROOTDEV" "cached ROOTDEV ?s (blockno ?q) = None \<or>
      blockno ?q = blockno (bufs (bcache ?s) ! 0) \<and> bdev (bufs (bcache ?s) ! 0) = ROOTDEV" using c by simp_all
  note U = bc_upd [OF i0 z(1) ok pre]
  have ca: "cached ROOTDEV sample_log = [40 \<mapsto> ?q]"
  proof -
    have "cached ROOTDEV sample_log = cached ROOTDEV (upd_buf 0 ?q ?s)"
      by (rule ext) (simp add: cached_def sample_log_def)
    also have "\<dots> = [40 \<mapsto> ?q]" unfolding U(2) using c by (auto simp: fun_eq_iff)
    finally show ?thesis .
  qed
  have inv: "bc_inv ROOTDEV sample_log" using U(1) abs_blocks_cong(2) [of sample_log "upd_buf 0 ?q ?s" ROOTDEV] by (simp add: sample_log_def)
  have use: "in_use ROOTDEV sample_log = {40}" by (auto simp: in_use_def abs_blocks_def ca split: if_splits)
  have ow: "b_owner (abs_blocks ROOTDEV sample_log) n = None" for n
    by (simp add: abs_blocks_def ca owner_of_def sleeplock_zero_def)
  have "running sample_log 0" "L_bcache \<notin> held sample_log"
    by (simp_all add: running_def sample_log_def sample_cache_def NPROC_def)
  then show "log_names ROOTDEV sample_log 0 [40]"
    unfolding log_names_def cache_ok_def using inv z ow
    by (simp add: use log_region_def LOGSIZE_def MAXOPBLOCKS_def)
  show "set [40] \<subseteq> in_use ROOTDEV sample_log" "b_view (abs_blocks ROOTDEV sample_log) 40 = replicate BSIZE 9"
    using use by (simp_all add: abs_blocks_def ca)
qed

theorem commit_is_crash_atomic_witness:
  "okK commit sample_log (\<lambda>_ t. disk t 40 = replicate BSIZE 9 \<and> disk t 41 = replicate BSIZE 0)"
proof -
  have n: "40 \<notin> log_region (klog sample_log)" "41 \<notin> log_region (klog sample_log)"
    by (simp_all add: log_region_def LOGSIZE_def MAXOPBLOCKS_def)
  show ?thesis
    by (rule okK_mono [OF commit_is_crash_atomic [OF sample_log_names(1) _ sample_log_names(2) _ refl]])
      (use n sample_log_names(3) head_n_zero in auto)
qed

text \<open>
  A kernel that boots from the disk \<open>d\<close>, and a disk whose log holds a committed transaction: new contents for block 40 in the
  first log block.
\<close>

definition sample_boot :: "(nat \<Rightarrow> u8 list) \<Rightarrow> kstate" where
  "sample_boot d = sample_cache\<lparr>disk := d,
     klog := \<lparr>lstart = 2, lsize = 30, outstanding = 0, committing = False, ldev = ROOTDEV, lh_n = 0,
              lh_block = replicate 30 0\<rparr>\<rparr>"

definition sample_disk :: "nat \<Rightarrow> u8 list" where
  "sample_disk = (\<lambda>_. replicate BSIZE 0)(2 := [1, 0, 0, 0, 40, 0, 0, 0] @ replicate (BSIZE - 8) 0, 3 := replicate BSIZE 9)"

lemma sample_rebooted:
  assumes "\<And>m. length (d m) = BSIZE"
  shows "rebooted ROOTDEV (sample_boot d) 0 2 d"
proof -
  have c: "cached ROOTDEV (sample_boot d) n = None" for n by (simp add: cached_None sample_boot_def sample_cache_def buf_zero_def ROOTDEV_def)
  have "bc_inv ROOTDEV (sample_boot d)"
    using assms by (auto simp: ROOTDEV_def sample_boot_def sample_cache_def bc_inv_def Let_def bufs_unique_def buf_ok_def buf_zero_def sleeplock_zero_def)
  moreover have "in_use ROOTDEV (sample_boot d) = {}" by (simp add: in_use_def abs_blocks_def c)
  moreover have "running (sample_boot d) 0" "L_bcache \<notin> held (sample_boot d)"
    by (simp_all add: running_def sample_boot_def sample_cache_def NPROC_def)
  ultimately show ?thesis
    unfolding rebooted_def cache_ok_def by (simp add: sample_boot_def LOGSIZE_def MAXOPBLOCKS_def)
qed

lemma sample_disk_facts:
  "length (sample_disk m) = BSIZE" "head_blocks (sample_disk 2) = [40]" "sample_disk 3 = replicate BSIZE 9"
proof -
  show "length (sample_disk m) = BSIZE" by (simp add: sample_disk_def BSIZE_def)
  have "get32 (sample_disk 2) 0 = 1" "get32 (sample_disk 2) 4 = 40"
    by (simp_all add: sample_disk_def get32_def)
  then show "head_blocks (sample_disk 2) = [40]" by (simp add: head_blocks_def head_n_def)
qed (simp add: sample_disk_def)

text \<open>
  Recovery completes the transaction, and so does a recovery after a crash between its two writes, when block 40 has its
  new contents and the header still names it.
\<close>

theorem recovery_survives_crashes_witness:
  "okK recover_from_log (sample_boot sample_disk) (\<lambda>_ x. disk x 40 = replicate BSIZE 9) \<and>
   okK recover_from_log (sample_boot (sample_disk(40 := replicate BSIZE 9))) (\<lambda>_ y. disk y 40 = replicate BSIZE 9)"
proof -
  let ?d = "sample_disk" and ?u = "sample_boot (sample_disk(40 := replicate BSIZE 9))"
  have t: "dtrace (sample_boot d) = []" for d by (simp add: sample_boot_def sample_cache_def)
  have b: "[40] = head_blocks (?d 2)" "length [40 :: nat] \<le> LOGSIZE" "distinct [40 :: nat]" "set [40] \<inter> {2..2 + LOGSIZE} = {}"
    by (simp_all add: sample_disk_facts LOGSIZE_def MAXOPBLOCKS_def)
  have w: "recover_writes 2 ?d = [(40, replicate BSIZE 9), (2, encode_head [] (?d 2))]"
    by (simp add: recover_writes_def Let_def sample_disk_facts(2)) (simp add: sample_disk_facts flip: numeral_3_eq_3)
  have r: "rebooted ROOTDEV (sample_boot ?d) 0 2 ?d" "rebooted ROOTDEV ?u 0 2 (?d(40 := replicate BSIZE 9))"
    by (rule sample_rebooted, simp add: sample_disk_facts)+
  obtain x where x: "recover_from_log (sample_boot ?d) = Ret () x" "dtrace x = recover_writes 2 ?d"
    "disk x = put_all (recover_writes 2 ?d) ?d"
    using recover_apply [OF r(1) b] by (auto simp: okK_def rebooted_def t)
  then have x40: "disk x 40 = replicate BSIZE 9" by (simp add: w)
  obtain W where W: "dtrace x = W" "\<forall>k u' q. k \<le> length W \<and> rebooted ROOTDEV u' q 2 (put_all (take k W) ?d) \<longrightarrow>
       okK recover_from_log u' (\<lambda>_ y. \<forall>m. m \<notin> {2..2 + LOGSIZE} \<longrightarrow> disk y m = disk x m)"
    using recovery_survives_crashes [OF r(1) b] unfolding okK_def [of recover_from_log "sample_boot ?d"] x(1) t by auto
  from W(2) [rule_format, of 1 ?u 0] have "okK recover_from_log ?u (\<lambda>_ y. \<forall>m. m \<notin> {2..2 + LOGSIZE} \<longrightarrow> disk y m = disk x m)"
    using r(2) by (simp add: W(1) [symmetric] x(2) w)
  then have "okK recover_from_log ?u (\<lambda>_ y. disk y 40 = replicate BSIZE 9)"
    by (rule okK_mono) (use x40 in \<open>simp add: LOGSIZE_def MAXOPBLOCKS_def\<close>)
  then show ?thesis using x(1) x40 by (simp add: okK_def)
qed

end
