(* ===== verification/Spinlock.thy ===== *)
theory Spinlock
  imports Kernel_State
begin

text \<open>
  \<^verbatim>\<open>kernel/spinlock.c\<close> on several CPUs. The routines are cut at their accesses to shared memory: a CPU's
  program counter says which access of \<^verbatim>\<open>acquire\<close> or \<^verbatim>\<open>release\<close> comes next, and any CPU may make the
  next step. \<^verbatim>\<open>push_off\<close> and \<^verbatim>\<open>pop_off\<close> touch only the CPU's own state. \<open>mine\<close> is not a variable of the
  kernel: it is the set of locks for which the code on the CPU has returned from \<^verbatim>\<open>acquire\<close> and not yet
  entered \<^verbatim>\<open>release\<close>. Nor is \<open>pushed\<close>: it counts the calls of \<^verbatim>\<open>push_off\<close> from outside of the lock routines
  (\<^verbatim>\<open>myproc\<close>, \<^verbatim>\<open>uartputc_sync\<close>) that the matching \<^verbatim>\<open>pop_off\<close> has not undone yet. The rest of the development sees one CPU at a time and represents the locks it
  holds by the set \<open>held\<close>.
\<close>

section \<open>State\<close>

record spinlock =
  spl_locked :: u32
  spl_name :: string
  spl_cpu :: "nat option"

text \<open>The parts of \<^verbatim>\<open>struct cpu\<close> that locks use, with the hart's interrupt-enable bit \<^verbatim>\<open>SSTATUS_SIE\<close>.\<close>

record cpu =
  sie :: bool
  noff :: int
  intena :: bool

datatype pc =
    Running | Acq_locked lockid | Acq_cpu lockid | Acq_swap lockid | Acq_own lockid
  | Rel_locked lockid | Rel_cpu lockid | Rel_clear lockid | Rel_unlock lockid | Dead string lockid | Dead_pop string

record smp =
  locks :: "lockid \<Rightarrow> spinlock"
  cpus :: "nat \<Rightarrow> cpu"
  cpc :: "nat \<Rightarrow> pc"
  mine :: "nat \<Rightarrow> lockid set"
  pushed :: "nat \<Rightarrow> nat"

section \<open>Operations\<close>

definition spl_initlock :: "string \<Rightarrow> spinlock" where
  "spl_initlock name = \<lparr>spl_locked = 0, spl_name = name, spl_cpu = None\<rparr>"

definition push_off :: "cpu \<Rightarrow> cpu" where
  "push_off c =
     (let old = sie c; c = c\<lparr>sie := False\<rparr>;
          c = (if noff c = 0 then c\<lparr>intena := old\<rparr> else c)
      in c\<lparr>noff := noff c + 1\<rparr>)"

text \<open>\<open>Inl\<close> is the message of the panic.\<close>

definition pop_off :: "cpu \<Rightarrow> string + cpu" where
  "pop_off c =
     (if sie c then Inl ''pop_off - interruptible''
      else if noff c < 1 then Inl ''pop_off''
      else let c = c\<lparr>noff := noff c - 1\<rparr>
           in Inr (if noff c = 0 \<and> intena c then c\<lparr>sie := True\<rparr> else c))"

definition holding :: "spinlock \<Rightarrow> nat \<Rightarrow> bool" where
  "holding lk c \<longleftrightarrow> spl_locked lk \<noteq> 0 \<and> spl_cpu lk = Some c"

definition set_pc :: "nat \<Rightarrow> pc \<Rightarrow> smp \<Rightarrow> smp" where
  "set_pc c v s = s\<lparr>cpc := (cpc s)(c := v)\<rparr>"

definition set_lock :: "lockid \<Rightarrow> (spinlock \<Rightarrow> spinlock) \<Rightarrow> smp \<Rightarrow> smp" where
  "set_lock l f s = s\<lparr>locks := (locks s)(l := f (locks s l))\<rparr>"

definition set_cpu :: "nat \<Rightarrow> cpu \<Rightarrow> smp \<Rightarrow> smp" where
  "set_cpu c v s = s\<lparr>cpus := (cpus s)(c := v)\<rparr>"

definition set_mine :: "nat \<Rightarrow> lockid set \<Rightarrow> smp \<Rightarrow> smp" where
  "set_mine c v s = s\<lparr>mine := (mine s)(c := v)\<rparr>"

definition set_pushed :: "nat \<Rightarrow> nat \<Rightarrow> smp \<Rightarrow> smp" where
  "set_pushed c n s = s\<lparr>pushed := (pushed s)(c := n)\<rparr>"

text \<open>
  \<^verbatim>\<open>acquire\<close>: \<^verbatim>\<open>push_off\<close>, then the two loads of \<^verbatim>\<open>holding\<close> (the second only when the first is not 0), the
  atomic swap until it returns 0, and the store of \<^verbatim>\<open>lk->cpu\<close>.
\<close>

definition acquire_enter :: "nat \<Rightarrow> lockid \<Rightarrow> smp \<Rightarrow> smp" where
  "acquire_enter c l s = set_pc c (Acq_locked l) (set_cpu c (push_off (cpus s c)) s)"

fun acquire_next :: "nat \<Rightarrow> pc \<Rightarrow> smp \<Rightarrow> smp" where
  "acquire_next c (Acq_locked l) s =
     set_pc c (if spl_locked (locks s l) \<noteq> 0 then Acq_cpu l else Acq_swap l) s"
| "acquire_next c (Acq_cpu l) s =
     set_pc c (if spl_cpu (locks s l) = Some c then Dead ''acquire'' l else Acq_swap l) s"
| "acquire_next c (Acq_swap l) s =
     (let old = spl_locked (locks s l); s = set_lock l (\<lambda>lk. lk\<lparr>spl_locked := 1\<rparr>) s
      in if old \<noteq> 0 then s else set_pc c (Acq_own l) s)"
| "acquire_next c (Acq_own l) s =
     set_pc c Running (set_mine c (insert l (mine s c)) (set_lock l (\<lambda>lk. lk\<lparr>spl_cpu := Some c\<rparr>) s))"
| "acquire_next c _ s = s"

text \<open>
  \<^verbatim>\<open>release\<close>: the loads of \<^verbatim>\<open>holding\<close>, the store of \<^verbatim>\<open>lk->cpu\<close>, the atomic store of 0, and \<^verbatim>\<open>pop_off\<close>.
\<close>

fun release_next :: "nat \<Rightarrow> pc \<Rightarrow> smp \<Rightarrow> smp" where
  "release_next c (Rel_locked l) s =
     set_pc c (if spl_locked (locks s l) \<noteq> 0 then Rel_cpu l else Dead ''release'' l) s"
| "release_next c (Rel_cpu l) s =
     (if spl_cpu (locks s l) = Some c
      then set_pc c (Rel_clear l) (set_mine c (mine s c - {l}) s)
      else set_pc c (Dead ''release'' l) s)"
| "release_next c (Rel_clear l) s = set_pc c (Rel_unlock l) (set_lock l (\<lambda>lk. lk\<lparr>spl_cpu := None\<rparr>) s)"
| "release_next c (Rel_unlock l) s =
     (let s = set_lock l (\<lambda>lk. lk\<lparr>spl_locked := 0\<rparr>) s in
      case pop_off (cpus s c) of
        Inl msg \<Rightarrow> set_pc c (Dead msg l) s
      | Inr v \<Rightarrow> set_pc c Running (set_cpu c v s))"
| "release_next c _ s = s"

text \<open>The calls of \<^verbatim>\<open>push_off\<close> and \<^verbatim>\<open>pop_off\<close> by \<^verbatim>\<open>myproc\<close> and \<^verbatim>\<open>uartputc_sync\<close>.\<close>

definition direct_push :: "nat \<Rightarrow> smp \<Rightarrow> smp" where
  "direct_push c s = set_pushed c (pushed s c + 1) (set_cpu c (push_off (cpus s c)) s)"

definition direct_pop :: "nat \<Rightarrow> smp \<Rightarrow> smp" where
  "direct_pop c s =
     (case pop_off (cpus s c) of
        Inl msg \<Rightarrow> set_pc c (Dead_pop msg) s
      | Inr v \<Rightarrow> set_pushed c (pushed s c - 1) (set_cpu c v s))"

text \<open>
  The steps of the machine: a CPU that runs may call \<^verbatim>\<open>acquire\<close> or \<^verbatim>\<open>release\<close> for any lock, call \<^verbatim>\<open>push_off\<close>
  directly and \<^verbatim>\<open>pop_off\<close> to undo such a call, or turn its interrupts on or off outside of \<^verbatim>\<open>push_off\<close>
  sections; \<^verbatim>\<open>sched\<close>, which runs at depth 1, sets \<^verbatim>\<open>intena\<close> to the value the process that goes on had saved;
  a CPU inside a routine makes its next access.
\<close>

inductive smp_step :: "smp \<Rightarrow> smp \<Rightarrow> bool" where
  call_acquire: "cpc s c = Running \<Longrightarrow> smp_step s (acquire_enter c l s)"
| call_release: "cpc s c = Running \<Longrightarrow> smp_step s (set_pc c (Rel_locked l) s)"
| in_acquire: "smp_step s (acquire_next c (cpc s c) s)"
| in_release: "smp_step s (release_next c (cpc s c) s)"
| call_push: "cpc s c = Running \<Longrightarrow> smp_step s (direct_push c s)"
| call_pop: "cpc s c = Running \<Longrightarrow> 0 < pushed s c \<Longrightarrow> smp_step s (direct_pop c s)"
| sched_intena: "cpc s c = Running \<Longrightarrow> noff (cpus s c) = 1 \<Longrightarrow> smp_step s (set_cpu c ((cpus s c)\<lparr>intena := b\<rparr>) s)"
| interrupts: "cpc s c = Running \<Longrightarrow> noff (cpus s c) = 0 \<Longrightarrow> smp_step s (set_cpu c ((cpus s c)\<lparr>sie := b\<rparr>) s)"

text \<open>The machine when the locks are initialised and no CPU holds one.\<close>

definition smp_init :: "smp \<Rightarrow> bool" where
  "smp_init s \<longleftrightarrow> (\<forall>l. \<exists>name. locks s l = spl_initlock name) \<and>
     (\<forall>c. cpc s c = Running \<and> mine s c = {} \<and> pushed s c = 0 \<and> noff (cpus s c) = 0)"

inductive smp_reachable :: "smp \<Rightarrow> bool" where
  start: "smp_init s \<Longrightarrow> smp_reachable s"
| step: "smp_reachable s \<Longrightarrow> smp_step s t \<Longrightarrow> smp_reachable t"

text \<open>Runs of one CPU: \<open>n\<close> accesses of the routine it is in.\<close>

primrec acquire_run :: "nat \<Rightarrow> nat \<Rightarrow> smp \<Rightarrow> smp" where
  "acquire_run 0 c s = s"
| "acquire_run (Suc n) c s = acquire_run n c (acquire_next c (cpc s c) s)"

primrec release_run :: "nat \<Rightarrow> nat \<Rightarrow> smp \<Rightarrow> smp" where
  "release_run 0 c s = s"
| "release_run (Suc n) c s = release_run n c (release_next c (cpc s c) s)"

section \<open>The invariant\<close>

text \<open>A CPU owns a lock from the swap that took it to the store that gives it back.\<close>

definition owns :: "smp \<Rightarrow> nat \<Rightarrow> lockid \<Rightarrow> bool" where
  "owns s c l \<longleftrightarrow> l \<in> mine s c \<or> cpc s c \<in> {Acq_own l, Rel_clear l, Rel_unlock l}"

definition lock_inv :: "smp \<Rightarrow> bool" where
  "lock_inv s \<longleftrightarrow>
     (\<forall>l c d. owns s c l \<and> owns s d l \<longrightarrow> c = d) \<and>
     (\<forall>l c. owns s c l \<longrightarrow> spl_locked (locks s l) \<noteq> 0) \<and>
     (\<forall>l c. spl_cpu (locks s l) = Some c \<longleftrightarrow> l \<in> mine s c \<or> cpc s c = Rel_clear l) \<and>
     (\<forall>l c. cpc s c \<in> {Acq_swap l, Acq_own l, Rel_clear l, Rel_unlock l} \<longrightarrow> l \<notin> mine s c)"

definition busy :: "pc \<Rightarrow> int" where
  "busy v = (case v of Acq_locked _ \<Rightarrow> 1 | Acq_cpu _ \<Rightarrow> 1 | Acq_swap _ \<Rightarrow> 1 | Acq_own _ \<Rightarrow> 1
     | Rel_clear _ \<Rightarrow> 1 | Rel_unlock _ \<Rightarrow> 1 | _ \<Rightarrow> 0)"

text \<open>What the nesting depth and the locks of a CPU have to be at a program counter.\<close>

fun pc_ok :: "int \<Rightarrow> nat \<Rightarrow> lockid set \<Rightarrow> pc \<Rightarrow> bool" where
  "pc_ok n k H (Dead msg l) \<longleftrightarrow> msg = ''acquire'' \<and> l \<in> H \<or> msg = ''release'' \<and> l \<notin> H"
| "pc_ok n k H (Dead_pop msg) \<longleftrightarrow> False"
| "pc_ok n k H v \<longleftrightarrow> n = int (card H) + int k + busy v"

definition cpu_inv :: "smp \<Rightarrow> nat \<Rightarrow> bool" where
  "cpu_inv s c \<longleftrightarrow> finite (mine s c) \<and> pc_ok (noff (cpus s c)) (pushed s c) (mine s c) (cpc s c) \<and>
     (0 < noff (cpus s c) \<longrightarrow> \<not> sie (cpus s c))"

lemmas smp_defs = set_pc_def set_lock_def set_cpu_def set_mine_def set_pushed_def owns_def

lemma lock_inv_start: "smp_init s \<Longrightarrow> lock_inv s"
proof -
  assume i: "smp_init s"
  have "spl_cpu (locks s l) = None" for l using i by (metis smp_init_def spl_initlock_def spinlock.select_convs(3))
  then show ?thesis using i by (simp add: lock_inv_def smp_init_def owns_def)
qed

lemma lock_inv_acquire:
  assumes "lock_inv s"
  shows "lock_inv (acquire_next c (cpc s c) s)"
proof (cases "cpc s c")
  case (Acq_locked l)
  then show ?thesis using assms unfolding lock_inv_def by (auto simp: smp_defs)
next
  case (Acq_cpu l)
  then show ?thesis using assms unfolding lock_inv_def by (auto simp: smp_defs)
next
  case (Acq_swap l)
  then show ?thesis using assms unfolding lock_inv_def by (auto simp: smp_defs Let_def)
next
  case (Acq_own l)
  then show ?thesis using assms unfolding lock_inv_def by (auto simp: smp_defs)
qed (use assms in simp_all)

lemma lock_inv_release:
  assumes "lock_inv s"
  shows "lock_inv (release_next c (cpc s c) s)"
proof (cases "cpc s c")
  case (Rel_locked l)
  then show ?thesis using assms unfolding lock_inv_def by (auto simp: smp_defs)
next
  case (Rel_cpu l)
  then show ?thesis using assms unfolding lock_inv_def by (auto simp: smp_defs)
next
  case (Rel_clear l)
  then show ?thesis using assms unfolding lock_inv_def by (auto simp: smp_defs)
next
  case (Rel_unlock l)
  then show ?thesis using assms unfolding lock_inv_def by (auto simp: smp_defs Let_def split: sum.splits)
qed (use assms in simp_all)

lemma lock_inv_step: "smp_step s t \<Longrightarrow> lock_inv s \<Longrightarrow> lock_inv t"
proof (induction rule: smp_step.induct)
  case (call_acquire s c l)
  then show ?case unfolding lock_inv_def by (auto simp: smp_defs acquire_enter_def)
next
  case (call_release s c l)
  then show ?case unfolding lock_inv_def by (auto simp: smp_defs)
next
  case (call_push s c)
  then show ?case unfolding lock_inv_def by (simp add: smp_defs direct_push_def)
next
  case (call_pop s c)
  then show ?case unfolding lock_inv_def by (auto simp: smp_defs direct_pop_def split: sum.splits)
next
  case (sched_intena s c b)
  then show ?case unfolding lock_inv_def by (simp add: smp_defs)
next
  case (interrupts s c b)
  then show ?case unfolding lock_inv_def by (simp add: smp_defs)
qed (simp_all add: lock_inv_acquire lock_inv_release)

lemma cpu_inv_other: "cpus t c = cpus s c \<Longrightarrow> cpc t c = cpc s c \<Longrightarrow> mine t c = mine s c \<Longrightarrow> pushed t c = pushed s c \<Longrightarrow>
  cpu_inv s c \<Longrightarrow> cpu_inv t c"
  by (simp add: cpu_inv_def)

lemma next_other:
  assumes "d \<noteq> c"
  shows "cpus (acquire_next c v s) d = cpus s d" "cpc (acquire_next c v s) d = cpc s d" "mine (acquire_next c v s) d = mine s d"
    "pushed (acquire_next c v s) d = pushed s d"
    "cpus (release_next c v s) d = cpus s d" "cpc (release_next c v s) d = cpc s d" "mine (release_next c v s) d = mine s d"
    "pushed (release_next c v s) d = pushed s d"
  using assms by (cases v; auto simp: smp_defs Let_def split: sum.splits)+

lemma push_off_facts [simp]: "noff (push_off c) = noff c + 1" "\<not> sie (push_off c)"
  by (simp_all add: push_off_def Let_def)

lemma lock_invD:
  assumes "lock_inv s"
  shows "spl_cpu (locks s l) = Some c \<longleftrightarrow> l \<in> mine s c \<or> cpc s c = Rel_clear l"
    and "owns s c l \<Longrightarrow> spl_locked (locks s l) \<noteq> 0"
    and "owns s c l \<Longrightarrow> owns s d l \<Longrightarrow> c = d"
    and "cpc s c = Acq_own l \<Longrightarrow> l \<notin> mine s c"
  using assms unfolding lock_inv_def by blast+

lemma cpu_inv_acquire:
  assumes i: "lock_inv s" and c: "cpu_inv s c"
  shows "cpu_inv (acquire_next c (cpc s c) s) c"
proof (cases "cpc s c")
  case (Acq_locked l)
  then show ?thesis using c by (simp add: cpu_inv_def smp_defs busy_def)
next
  case (Acq_cpu l)
  then show ?thesis using c lock_invD(1) [OF i, of l c] by (simp add: cpu_inv_def smp_defs busy_def)
next
  case (Acq_swap l)
  then show ?thesis using c by (simp add: cpu_inv_def smp_defs busy_def Let_def)
next
  case (Acq_own l)
  then show ?thesis using c lock_invD(4) [OF i Acq_own] by (simp add: cpu_inv_def smp_defs busy_def)
qed (use c in simp_all)

lemma cpu_inv_release:
  assumes i: "lock_inv s" and c: "cpu_inv s c"
  shows "cpu_inv (release_next c (cpc s c) s) c"
proof (cases "cpc s c")
  case (Rel_locked l)
  then have "spl_locked (locks s l) = 0 \<Longrightarrow> l \<notin> mine s c"
    using lock_invD(2) [OF i, of c l] by (auto simp: owns_def)
  then show ?thesis using c Rel_locked by (simp add: cpu_inv_def smp_defs busy_def)
next
  case (Rel_cpu l)
  have "finite (mine s c)" using c by (simp add: cpu_inv_def)
  then have "l \<in> mine s c \<Longrightarrow> int (card (mine s c - {l})) = int (card (mine s c)) - 1"
    by (metis card_Suc_Diff1 diff_add_cancel of_nat_Suc add.commute add_diff_cancel_left')
  then show ?thesis
    using c Rel_cpu lock_invD(1) [OF i, of l c] by (simp add: cpu_inv_def smp_defs busy_def)
next
  case (Rel_clear l)
  then show ?thesis using c by (simp add: cpu_inv_def smp_defs busy_def)
next
  case (Rel_unlock l)
  then have "noff (cpus s c) = int (card (mine s c)) + int (pushed s c) + 1" and "\<not> sie (cpus s c)"
    using c by (simp_all add: cpu_inv_def busy_def)
  then show ?thesis using c Rel_unlock by (simp add: cpu_inv_def smp_defs busy_def Let_def pop_off_def)
qed (use c in simp_all)

lemma cpu_inv_step: "smp_step s t \<Longrightarrow> lock_inv s \<Longrightarrow> \<forall>d. cpu_inv s d \<Longrightarrow> cpu_inv t d"
proof (induction arbitrary: d rule: smp_step.induct)
  case (call_acquire s c l d)
  then have "cpu_inv s c" "cpu_inv s d" by auto
  then show ?case using call_acquire(1)
    by (cases "d = c") (simp_all add: cpu_inv_def smp_defs acquire_enter_def busy_def)
next
  case (call_release s c l d)
  then have "cpu_inv s c" "cpu_inv s d" by auto
  then show ?case using call_release(1) by (cases "d = c") (simp_all add: cpu_inv_def smp_defs busy_def)
next
  case (in_acquire s c d)
  then show ?case using cpu_inv_acquire cpu_inv_other [OF next_other(1-4)] by (cases "d = c") auto
next
  case (in_release s c d)
  then show ?case using cpu_inv_release cpu_inv_other [OF next_other(5-8)] by (cases "d = c") auto
next
  case (call_push s c d)
  then have "cpu_inv s c" "cpu_inv s d" by auto
  then show ?case using call_push(1) by (cases "d = c") (simp_all add: cpu_inv_def smp_defs direct_push_def busy_def)
next
  case (call_pop s c d)
  then have "cpu_inv s c" "cpu_inv s d" by auto
  moreover have "noff (cpus s c) = int (card (mine s c)) + int (pushed s c)" "\<not> sie (cpus s c)"
    using \<open>cpu_inv s c\<close> call_pop(1,2) by (simp_all add: cpu_inv_def busy_def)
  ultimately show ?case using call_pop(1,2)
    by (cases "d = c") (auto simp: cpu_inv_def smp_defs direct_pop_def pop_off_def busy_def Let_def split: if_splits)
next
  case (sched_intena s c b d)
  then have "cpu_inv s c" "cpu_inv s d" by auto
  then show ?case using sched_intena(1,2) by (cases "d = c") (simp_all add: cpu_inv_def smp_defs)
next
  case (interrupts s c b d)
  then have "cpu_inv s c" "cpu_inv s d" by auto
  then show ?case using interrupts(1,2) by (cases "d = c") (simp_all add: cpu_inv_def smp_defs)
qed

lemma reachable_inv: "smp_reachable s \<Longrightarrow> lock_inv s \<and> (\<forall>c. cpu_inv s c)"
proof (induction rule: smp_reachable.induct)
  case (start s)
  then show ?case using lock_inv_start by (simp add: smp_init_def cpu_inv_def busy_def)
next
  case (step s t)
  then show ?case using lock_inv_step cpu_inv_step by blast
qed

text \<open>A lock word that is not 0 belongs to some CPU: no lock is lost.\<close>

definition owned :: "smp \<Rightarrow> bool" where
  "owned s \<longleftrightarrow> (\<forall>l. spl_locked (locks s l) \<noteq> 0 \<longrightarrow> (\<exists>c. owns s c l))"

lemma ownedI:
  assumes "owned s"
    and "\<And>k. spl_locked (locks t k) \<noteq> 0 \<Longrightarrow> k \<noteq> l \<Longrightarrow> spl_locked (locks s k) \<noteq> 0"
    and "\<And>d k. k \<noteq> l \<Longrightarrow> owns s d k \<Longrightarrow> owns t d k"
    and "spl_locked (locks t l) \<noteq> 0 \<Longrightarrow> \<exists>d. owns t d l"
  shows "owned t"
  unfolding owned_def
proof (intro allI impI)
  fix k assume k: "spl_locked (locks t k) \<noteq> 0"
  show "\<exists>d. owns t d k"
  proof (cases "k = l")
    case False
    then show ?thesis using assms(1-3) k unfolding owned_def by meson
  qed (use k assms(4) in blast)
qed

lemma owned_start: "smp_init s \<Longrightarrow> owned s"
  unfolding owned_def smp_init_def spl_initlock_def by (metis spinlock.select_convs(1))

lemma owned_mono:
  assumes "owned s"
    and "\<And>k. spl_locked (locks t k) \<noteq> 0 \<Longrightarrow> spl_locked (locks s k) \<noteq> 0"
    and "\<And>d k. owns s d k \<Longrightarrow> owns t d k"
  shows "owned t"
  using assms unfolding owned_def by meson

lemma owned_acquire:
  assumes "owned s"
  shows "owned (acquire_next c (cpc s c) s)"
proof (cases "cpc s c")
  case (Acq_locked l)
  show ?thesis
    by (rule owned_mono [OF assms]) (use Acq_locked in \<open>auto simp: smp_defs Let_def split: if_splits\<close>)
next
  case (Acq_cpu l)
  show ?thesis
    by (rule owned_mono [OF assms]) (use Acq_cpu in \<open>auto simp: smp_defs Let_def split: if_splits\<close>)
next
  case (Acq_own l)
  show ?thesis
    by (rule owned_mono [OF assms]) (use Acq_own in \<open>auto simp: smp_defs Let_def split: if_splits\<close>)
next
  case (Acq_swap l)
  show ?thesis
  proof (cases "spl_locked (locks s l) = 0")
    case True
    show ?thesis
      by (rule ownedI [OF assms, where l = l]) (use True Acq_swap in \<open>auto simp: smp_defs Let_def split: if_splits\<close>)
  next
    case False
    show ?thesis
      by (rule owned_mono [OF assms]) (use False Acq_swap in \<open>auto simp: smp_defs Let_def split: if_splits\<close>)
  qed
qed (use assms in simp_all)

lemma owned_release:
  assumes "owned s"
  shows "owned (release_next c (cpc s c) s)"
proof (cases "cpc s c")
  case (Rel_locked l)
  show ?thesis
    by (rule owned_mono [OF assms]) (use Rel_locked in \<open>auto simp: smp_defs Let_def split: if_splits\<close>)
next
  case (Rel_cpu l)
  show ?thesis
    by (rule owned_mono [OF assms]) (use Rel_cpu in \<open>auto simp: smp_defs Let_def split: if_splits\<close>)
next
  case (Rel_clear l)
  show ?thesis
    by (rule owned_mono [OF assms]) (use Rel_clear in \<open>auto simp: smp_defs Let_def split: if_splits\<close>)
next
  case (Rel_unlock l)
  show ?thesis
    by (rule ownedI [OF assms, where l = l]) (use Rel_unlock in \<open>auto simp: smp_defs Let_def split: if_splits sum.splits\<close>)
qed (use assms in simp_all)

lemma owned_step: "smp_step s t \<Longrightarrow> owned s \<Longrightarrow> owned t"
proof (induction rule: smp_step.induct)
  case (call_acquire s c l)
  show ?case
    by (rule owned_mono [OF call_acquire(2)]) (use call_acquire(1) in \<open>auto simp: smp_defs acquire_enter_def\<close>)
next
  case (call_release s c l)
  show ?case
    by (rule owned_mono [OF call_release(2)]) (use call_release(1) in \<open>auto simp: smp_defs\<close>)
next
  case (call_push s c)
  then show ?case by (simp add: owned_def smp_defs direct_push_def)
next
  case (call_pop s c)
  show ?case
    by (rule owned_mono [OF call_pop(3)]) (use call_pop(1) in \<open>auto simp: smp_defs direct_pop_def split: sum.splits\<close>)
next
  case (sched_intena s c b)
  then show ?case by (simp add: owned_def smp_defs)
next
  case (interrupts s c b)
  then show ?case by (simp add: owned_def smp_defs)
qed (simp_all add: owned_acquire owned_release)

lemma reachable_owned: "smp_reachable s \<Longrightarrow> owned s"
  by (induction rule: smp_reachable.induct) (blast intro: owned_start owned_step)+

lemma acquire_run_reachable: "smp_reachable s \<Longrightarrow> smp_reachable (acquire_run n c s)"
  by (induction n arbitrary: s) (auto intro: smp_reachable.step in_acquire)

lemma release_run_reachable: "smp_reachable s \<Longrightarrow> smp_reachable (release_run n c s)"
  by (induction n arbitrary: s) (auto intro: smp_reachable.step in_release)

lemma enter_reachable:
  assumes "smp_reachable s" and "cpc s c = Running"
  shows "smp_reachable (acquire_enter c l s)" and "smp_reachable (set_pc c (Rel_locked l) s)"
  using assms by (auto intro: smp_reachable.step call_acquire call_release)

text \<open>A boot state, CPU 0 inside a critical section, and CPU 0 after it took a lock twice.\<close>

definition sample_smp :: smp where
  "sample_smp = \<lparr>locks = \<lambda>_. spl_initlock ''lk'', cpus = \<lambda>_. \<lparr>sie = True, noff = 0, intena = False\<rparr>,
     cpc = \<lambda>_. Running, mine = \<lambda>_. {}, pushed = \<lambda>_. 0\<rparr>"

definition sample_section :: smp where
  "sample_section = acquire_run 3 0 (acquire_enter 0 L_bcache sample_smp)"

definition sample_dead :: smp where
  "sample_dead = acquire_run 2 0 (acquire_enter 0 L_bcache sample_section)"

lemmas smp_run = numeral_eq_Suc smp_defs acquire_enter_def push_off_def pop_off_def Let_def

lemma sample_smp_reachable: "smp_reachable sample_smp"
  by (rule start) (auto simp: smp_init_def sample_smp_def)

lemma sample_section_reachable: "smp_reachable sample_section"
proof -
  have "cpc sample_smp 0 = Running" by (simp add: sample_smp_def)
  then show ?thesis
    by (simp add: sample_section_def acquire_run_reachable enter_reachable sample_smp_reachable)
qed

lemma sample_section_facts: "mine sample_section 0 = {L_bcache}" "cpc sample_section 0 = Running"
  by (simp_all add: sample_section_def sample_smp_def spl_initlock_def smp_run)

lemma sample_dead_reachable: "smp_reachable sample_dead"
  by (simp add: sample_dead_def acquire_run_reachable enter_reachable sample_section_reachable sample_section_facts)

lemma sample_dead_facts: "cpc sample_dead 0 = Dead ''acquire'' L_bcache"
  by (simp add: sample_dead_def sample_section_def sample_smp_def spl_initlock_def smp_run)

section \<open>Properties\<close>

text \<open>
  C3: at most one CPU is between the end of \<^verbatim>\<open>acquire\<close> and the start of \<^verbatim>\<open>release\<close> of a lock, whatever the
  interleaving of the CPUs' accesses: while a CPU is in that section no other CPU is, the lock word is
  set, \<^verbatim>\<open>holding\<close> is true on that CPU and on no other, and unless it panicked its interrupts are off and
  its \<^verbatim>\<open>push_off\<close> depth is not 0.
\<close>

theorem spinlocks_exclude:
  assumes "smp_reachable s" and "l \<in> mine s c"
  shows "(\<forall>d. l \<in> mine s d \<longrightarrow> d = c) \<and> (\<forall>d. holding (locks s l) d \<longleftrightarrow> d = c) \<and>
     ((\<forall>msg k. cpc s c \<noteq> Dead msg k) \<longrightarrow> \<not> sie (cpus s c) \<and> noff (cpus s c) \<ge> 1)"
proof -
  have i: "lock_inv s" and c: "cpu_inv s c" using reachable_inv [OF assms(1)] by auto
  have o: "owns s c l" using assms(2) by (simp add: owns_def)
  then have "owns s d l \<Longrightarrow> d = c" for d using lock_invD(3) [OF i] by blast
  then have one: "l \<in> mine s d \<or> cpc s d = Rel_clear l \<Longrightarrow> d = c" for d by (auto simp: owns_def)
  have h: "holding (locks s l) d \<longleftrightarrow> d = c" for d
    using lock_invD(1) [OF i, of l d] lock_invD(2) [OF i o] one assms(2) by (auto simp: holding_def)
  have "0 < card (mine s c)" using c assms(2) by (auto simp: cpu_inv_def card_gt_0_iff)
  then have "noff (cpus s c) \<ge> 1" if "\<forall>msg k. cpc s c \<noteq> Dead msg k"
    using c that by (cases "cpc s c") (auto simp: cpu_inv_def busy_def)
  then show ?thesis using one h c unfolding cpu_inv_def by auto
qed

theorem spinlocks_exclude_witness: "\<not> holding (locks sample_section L_bcache) 1 \<and> \<not> sie (cpus sample_section 0)"
  using spinlocks_exclude [of sample_section L_bcache 0] sample_section_reachable sample_section_facts by simp

text \<open>
  C4: the only panics of spin locks are a second \<^verbatim>\<open>acquire\<close> of a lock by the CPU that holds it and a \<^verbatim>\<open>release\<close>
  of a lock by a CPU that does not hold it; \<^verbatim>\<open>pop_off\<close> never panics, neither in \<^verbatim>\<open>release\<close> nor where it undoes a
  direct call of \<^verbatim>\<open>push_off\<close>. Outside of the lock routines the \<^verbatim>\<open>push_off\<close> depth of a CPU is the number of
  locks it holds plus the number of its direct calls that are still open, and a CPU at a depth above 0 has its
  interrupts off.
\<close>

theorem spinlock_panics:
  assumes "smp_reachable s"
  shows "(\<forall>msg l. cpc s c = Dead msg l \<longrightarrow> msg = ''acquire'' \<and> l \<in> mine s c \<or> msg = ''release'' \<and> l \<notin> mine s c) \<and>
     (\<forall>msg. cpc s c \<noteq> Dead_pop msg) \<and>
     (cpc s c = Running \<longrightarrow> noff (cpus s c) = int (card (mine s c)) + int (pushed s c)) \<and>
     (0 < noff (cpus s c) \<longrightarrow> \<not> sie (cpus s c))"
proof -
  have "pc_ok (noff (cpus s c)) (pushed s c) (mine s c) (cpc s c)" "0 < noff (cpus s c) \<longrightarrow> \<not> sie (cpus s c)"
    using reachable_inv [OF assms] by (auto simp: cpu_inv_def)
  then show ?thesis by (auto simp: busy_def)
qed

text \<open>CPU 0 calls \<^verbatim>\<open>myproc\<close> while it holds a lock.\<close>

definition sample_pushed :: smp where
  "sample_pushed = direct_push 0 sample_section"

lemma sample_pushed_facts: "smp_reachable sample_pushed" "cpc sample_pushed 0 = Running" "pushed sample_pushed 0 = 1"
  "mine sample_pushed 0 = {L_bcache}"
proof -
  show "smp_reachable sample_pushed"
    unfolding sample_pushed_def by (rule smp_reachable.step [OF sample_section_reachable call_push]) (fact sample_section_facts)
  have "pushed sample_section 0 = 0" by (simp add: sample_section_def sample_smp_def spl_initlock_def smp_run)
  then show "cpc sample_pushed 0 = Running" "pushed sample_pushed 0 = 1" "mine sample_pushed 0 = {L_bcache}"
    using sample_section_facts by (simp_all add: sample_pushed_def direct_push_def smp_defs)
qed

theorem spinlock_panics_witness: "L_bcache \<in> mine sample_dead 0 \<and> noff (cpus sample_pushed 0) = 2 \<and> \<not> sie (cpus sample_pushed 0)"
  using spinlock_panics [of sample_dead 0] sample_dead_reachable sample_dead_facts
    spinlock_panics [of sample_pushed 0] sample_pushed_facts by simp

text \<open>
  C5: a lock that no CPU owns can be taken: \<^verbatim>\<open>acquire\<close> then returns after three accesses with the lock held
  and interrupts off, and the \<^verbatim>\<open>release\<close> that follows leaves the lock free, the CPU's locks and \<^verbatim>\<open>push_off\<close>
  depth as they were, and its interrupts enabled exactly when they were before.
\<close>

theorem spinlock_section:
  assumes "smp_reachable s" and "cpc s c = Running" and "\<forall>d. \<not> owns s d l"
    and "t = acquire_run 3 c (acquire_enter c l s)" and "u = release_run 4 c (set_pc c (Rel_locked l) t)"
  shows "cpc t c = Running \<and> mine t c = insert l (mine s c) \<and> \<not> sie (cpus t c) \<and>
     cpc u c = Running \<and> mine u c = mine s c \<and> noff (cpus u c) = noff (cpus s c) \<and>
     sie (cpus u c) = sie (cpus s c) \<and> spl_locked (locks u l) = 0 \<and> spl_cpu (locks u l) = None"
proof -
  have z: "spl_locked (locks s l) = 0" using reachable_owned [OF assms(1)] assms(3) by (auto simp: owned_def)
  have n: "l \<notin> mine s c" using assms(3) by (simp add: owns_def)
  have "cpu_inv s c" using reachable_inv [OF assms(1)] by simp
  then have d: "noff (cpus s c) \<ge> 0" "noff (cpus s c) \<noteq> 0 \<Longrightarrow> \<not> sie (cpus s c)"
    using assms(2) by (auto simp: cpu_inv_def busy_def)
  have t: "t = s\<lparr>locks := (locks s)(l := (locks s l)\<lparr>spl_locked := 1, spl_cpu := Some c\<rparr>),
      cpus := (cpus s)(c := push_off (cpus s c)), cpc := (cpc s)(c := Running), mine := (mine s)(c := insert l (mine s c))\<rparr>"
    unfolding assms(4) using z by (simp add: numeral_eq_Suc smp_defs acquire_enter_def Let_def)
  have "noff (cpus s c) \<ge> 1 \<or> noff (cpus s c) = 0" using d(1) by linarith
  then show ?thesis
    unfolding assms(5) t using n d by (auto simp: smp_run)
qed

theorem spinlock_section_witness:
  "mine (acquire_run 3 1 (acquire_enter 1 L_bcache sample_smp)) 1 = {L_bcache} \<and>
   sie (cpus (release_run 4 1 (set_pc 1 (Rel_locked L_bcache) (acquire_run 3 1 (acquire_enter 1 L_bcache sample_smp)))) 1)"
proof -
  have "cpc sample_smp 1 = Running" "\<forall>d. \<not> owns sample_smp d L_bcache" "mine sample_smp 1 = {}" "sie (cpus sample_smp 1)"
    by (simp_all add: sample_smp_def owns_def)
  then show ?thesis using spinlock_section [OF sample_smp_reachable _ _ refl refl, of 1 L_bcache] by simp
qed

end
