(* ===== verification/User_Program.thy ===== *)
theory User_Program
  imports Printf
begin

text \<open>
  What the user programs share. A user program is a routine whose state is the window between the program
  and the kernel: a system call is a context switch that leaves the request in the state, and the program
  goes on with the answer it finds there. \<open>okU\<close> is total correctness against a kernel, given as a relation
  between the world before a call, the call, its answer and the world after it: the program ends whatever
  the kernel answers, by returning with \<open>Q\<close> or by \<^verbatim>\<open>exit\<close> with \<open>E\<close>.

  The second half is \<^verbatim>\<open>user/ulib.c\<close> and \<^verbatim>\<open>user/printf.c\<close>.
\<close>

section \<open>System calls\<close>

datatype ucall =
    SysFork | SysExit int | SysWait | SysPipe | SysRead int nat | SysKill int
  | SysExec "u8 list" "u8 list list" | SysFstat int | SysChdir "u8 list" | SysDup int | SysGetpid
  | SysSbrk int | SysSleep int | SysUptime | SysOpen "u8 list" int | SysWrite int "u8 list"
  | SysMknod "u8 list" int int | SysUnlink "u8 list" | SysLink "u8 list" "u8 list"
  | SysMkdir "u8 list" | SysClose int

record ustat =
  st_type :: int
  st_ino :: int
  st_nlink :: int
  st_size :: u64

text \<open>An answer: the return value, and what the kernel stored through the call's pointer argument.\<close>

record uans =
  a_ret :: int
  a_data :: "u8 list"
  a_fds :: "int \<times> int"
  a_stat :: ustat

record ustate =
  req :: ucall
  ans :: uans

type_synonym 'a U = "('a, ustate) routine"

definition sysU :: "ucall \<Rightarrow> uans U" where
  "sysU c = (\<lambda>s. Swtch (s\<lparr>req := c\<rparr>) (\<lambda>t. Ret (ans t) t))"

definition callU :: "ucall \<Rightarrow> int U" where
  "callU c = bindK (sysU c) (\<lambda>a. retK (a_ret a))"

definition doU :: "ucall \<Rightarrow> unit U" where
  "doU c = bindK (sysU c) (\<lambda>_. retK ())"

text \<open>\<^verbatim>\<open>exit\<close> does not return.\<close>

definition exitU :: "int \<Rightarrow> 'a U" where
  "exitU n = bindK (sysU (SysExit n)) (\<lambda>_. panicK ''exit returned'')"

text \<open>A loop with variables: the body returns \<open>Inl\<close> the new values to go on and \<open>Inr\<close> to leave the loop.\<close>

primcorec iter_out :: "('v \<Rightarrow> ('v + 'a, 's) routine) \<Rightarrow> ('v + 'a, 's) outcome \<Rightarrow> ('a, 's) outcome" where
  "iter_out body m =
     (case m of
        Panic msg \<Rightarrow> Panic msg
      | Swtch t k \<Rightarrow> Swtch t (\<lambda>u. iter_out body (k u))
      | Ret r t \<Rightarrow>
          (case r of
             Inr x \<Rightarrow> Ret x t
           | Inl v \<Rightarrow>
               (case body v t of
                  Panic msg \<Rightarrow> Panic msg
                | Swtch t' k \<Rightarrow> Swtch t' (\<lambda>u. iter_out body (k u))
                | Ret r' t' \<Rightarrow> (case r' of Inr x \<Rightarrow> Ret x t' | Inl _ \<Rightarrow> Panic ''busy loop''))))"

definition iterK :: "('v \<Rightarrow> ('v + 'a, 's) routine) \<Rightarrow> 'v \<Rightarrow> ('a, 's) routine" where
  "iterK body v = (\<lambda>s. iter_out body (body v s))"

section \<open>Total correctness\<close>

inductive okU :: "('w \<Rightarrow> ucall \<Rightarrow> uans \<Rightarrow> 'w \<Rightarrow> bool) \<Rightarrow> ('a \<Rightarrow> 'w \<Rightarrow> bool) \<Rightarrow> (int \<Rightarrow> 'w \<Rightarrow> bool) \<Rightarrow>
    ('a, ustate) outcome \<Rightarrow> 'w \<Rightarrow> bool" for h Q E where
  okU_Ret: "Q x w \<Longrightarrow> okU h Q E (Ret x s) w"
| okU_exit: "req s = SysExit n \<Longrightarrow> E n w \<Longrightarrow> okU h Q E (Swtch s k) w"
| okU_call: "(\<And>n. req s \<noteq> SysExit n) \<Longrightarrow> (\<And>a w'. h w (req s) a w' \<Longrightarrow> okU h Q E (k (s\<lparr>ans := a\<rparr>)) w') \<Longrightarrow>
    okU h Q E (Swtch s k) w"

definition okP :: "('w \<Rightarrow> ucall \<Rightarrow> uans \<Rightarrow> 'w \<Rightarrow> bool) \<Rightarrow> 'a U \<Rightarrow> 'w \<Rightarrow> ('a \<Rightarrow> 'w \<Rightarrow> bool) \<Rightarrow> (int \<Rightarrow> 'w \<Rightarrow> bool) \<Rightarrow> bool" where
  "okP h m w Q E \<longleftrightarrow> (\<forall>s. okU h Q E (m s) w)"

lemma okU_mono:
  "okU h Q E m w \<Longrightarrow> (\<And>x w. Q x w \<Longrightarrow> Q' x w) \<Longrightarrow> (\<And>n w. E n w \<Longrightarrow> E' n w) \<Longrightarrow> okU h Q' E' m w"
proof (induction rule: okU.induct)
  case (okU_call s w k)
  then show ?case by (intro okU.okU_call) auto
qed (auto intro: okU.okU_Ret okU.okU_exit)

lemma okP_mono:
  "okP h m w Q E \<Longrightarrow> (\<And>x w. Q x w \<Longrightarrow> Q' x w) \<Longrightarrow> (\<And>n w. E n w \<Longrightarrow> E' n w) \<Longrightarrow> okP h m w Q' E'"
  unfolding okP_def using okU_mono by metis

lemma okU_bind: "okU h (\<lambda>x w. okP h (f x) w Q E) E m w \<Longrightarrow> okU h Q E (bind_out m f) w"
proof (induction rule: okU.induct)
  case (okU_call s w k)
  then show ?case unfolding bind_out_simps by (intro okU.okU_call) auto
qed (auto simp: okP_def intro: okU.okU_exit)

lemma okP_bind: "okP h m w (\<lambda>x w. okP h (f x) w Q E) E \<Longrightarrow> okP h (bindK m f) w Q E"
  by (subst okP_def) (auto simp: bindK_def okP_def [of h m] intro: okU_bind)

lemma okP_then: "okP h m w (\<lambda>x w. okP h n w Q E) E \<Longrightarrow> okP h (thenK m n) w Q E"
  unfolding thenK_def by (rule okP_bind)

lemma okP_ret: "Q x w \<Longrightarrow> okP h (retK x) w Q E"
  by (simp add: okP_def okU_Ret)

lemma okP_sys:
  assumes "\<And>n. c \<noteq> SysExit n" and "\<And>a w'. h w c a w' \<Longrightarrow> Q a w'"
  shows "okP h (sysU c) w Q E"
  unfolding okP_def sysU_def using assms by (auto intro!: okU_call okU_Ret)

lemma okP_call:
  assumes "\<And>n. c \<noteq> SysExit n" and "\<And>a w'. h w c a w' \<Longrightarrow> Q (a_ret a) w'"
  shows "okP h (callU c) w Q E"
  unfolding callU_def by (rule okP_bind [OF okP_sys]) (use assms in \<open>auto intro: okP_ret\<close>)

lemma okP_do:
  assumes "\<And>n. c \<noteq> SysExit n" and "\<And>a w'. h w c a w' \<Longrightarrow> Q () w'"
  shows "okP h (doU c) w Q E"
  unfolding doU_def by (rule okP_bind [OF okP_sys]) (use assms in \<open>auto intro: okP_ret\<close>)

lemma okP_exit: "E n w \<Longrightarrow> okP h (exitU n) w Q E"
  unfolding okP_def exitU_def bindK_def sysU_def by (auto intro: okU_exit)

lemma iter_out_again:
  assumes "\<And>r t'. body v t \<noteq> Ret (Inl r) t'"
  shows "iter_out body (Ret (Inl v) t) = iterK body v t"
  unfolding iterK_def using assms
  by (subst (1 2) iter_out.code) (auto split: outcome.splits sum.splits)

lemma okU_iter:
  assumes "\<And>v t r t'. body v t \<noteq> Ret (Inl r) t'"
  shows "okU h (\<lambda>r w. case r of Inr x \<Rightarrow> Q x w | Inl v \<Rightarrow> okP h (iterK body v) w Q E) E m w \<Longrightarrow>
    okU h Q E (iter_out body m) w"
proof (induction rule: okU.induct)
  case (okU_Ret r w s)
  show ?case
  proof (cases r)
    case (Inl v)
    then show ?thesis using okU_Ret iter_out_again [of body v s, OF assms] by (simp add: okP_def)
  next
    case (Inr x)
    then show ?thesis using okU_Ret by (subst iter_out.code) (simp add: okU.okU_Ret)
  qed
next
  case (okU_exit s n w k)
  then show ?case by (subst iter_out.code) (simp add: okU.okU_exit)
next
  case (okU_call s w k)
  have eq: "iter_out body (Swtch s k) = Swtch s (\<lambda>u. iter_out body (k u))" by (subst iter_out.code) simp
  show ?case unfolding eq by (rule okU.okU_call) (use okU_call in auto)
qed

lemma okP_iter:
  assumes "\<And>v t r t'. body v t \<noteq> Ret (Inl r) t'"
    and "okP h (body v) w (\<lambda>r w. case r of Inr x \<Rightarrow> Q x w | Inl v \<Rightarrow> okP h (iterK body v) w Q E) E"
  shows "okP h (iterK body v) w Q E"
  unfolding okP_def iterK_def
proof
  fix s
  show "okU h Q E (iter_out body (body v s)) w"
    by (rule okU_iter) (use assms in \<open>auto simp: okP_def [of h "body v"]\<close>)
qed

lemma bind_sys_not_Ret [simp]: "bindK (sysU c) f s \<noteq> Ret x t" "bindK (callU c) g s \<noteq> Ret x t"
  by (simp_all add: bindK_def sysU_def callU_def)

lemma okP_for:
  assumes "I [] w" and "\<And>pre x rest w. xs = pre @ x # rest \<Longrightarrow> I pre w \<Longrightarrow> okP h (f x) w (\<lambda>_. I (pre @ [x])) E"
    and "\<And>w. I xs w \<Longrightarrow> Q () w"
  shows "okP h (forK xs f) w Q E"
proof -
  have "I pre w \<Longrightarrow> xs = pre @ rest \<Longrightarrow> okP h (forK rest f) w Q E" for pre rest w
  proof (induction rest arbitrary: pre w)
    case Nil
    then show ?case using assms(3) by (auto intro: okP_ret)
  next
    case (Cons x rest)
    show ?case
      unfolding forK.simps
      by (rule okP_then, rule okP_mono [OF assms(2) [OF Cons.prems(2,1)]]) (use Cons in auto)
  qed
  then show ?thesis using assms(1) by simp
qed

section \<open>\<^verbatim>\<open>user/ulib.c\<close>\<close>

text \<open>Strings are byte lists that end at the first NUL or at the end of the list; \<open>ch\<close> reads the first character.\<close>

lemma ch_simps [simp]: "ch [] = 0" "ch (x # xs) = x"
  by (simp_all add: ch_def)

lemma ch_not_0 [termination_simp]: "ch s \<noteq> 0 \<Longrightarrow> length s - Suc 0 < length s"
  by (cases s) (auto simp: ch_def)

lemma ch_ge_digit [termination_simp]: "of_char CHR ''0'' \<le> ch s \<Longrightarrow> length s - Suc 0 < length s"
  by (cases s) (auto simp: ch_def)

fun u_strcpy :: "u8 list \<Rightarrow> u8 list" where
  "u_strcpy t = ch t # (if ch t \<noteq> 0 then u_strcpy (tl t) else [])"

declare u_strcpy.simps [simp del]

fun u_strcmp :: "u8 list \<Rightarrow> u8 list \<Rightarrow> int" where
  "u_strcmp p q =
     (if ch p \<noteq> 0 \<and> ch p = ch q then u_strcmp (tl p) (tl q) else int (unat (ch p)) - int (unat (ch q)))"

declare u_strcmp.simps [simp del]

fun u_strlen :: "u8 list \<Rightarrow> nat" where
  "u_strlen s = (if ch s \<noteq> 0 then Suc (u_strlen (tl s)) else 0)"

declare u_strlen.simps [simp del]

lemma u_strlen_simps [simp]: "u_strlen [] = 0" "u_strlen (x # xs) = (if x = 0 then 0 else Suc (u_strlen xs))"
  by (simp_all add: u_strlen.simps [of "[]"] u_strlen.simps [of "x # xs"])

definition u_memset :: "ram \<Rightarrow> u64 \<Rightarrow> u8 \<Rightarrow> nat \<Rightarrow> ram" where
  "u_memset m dst c n = memset_loop m dst c 0 n"

text \<open>The result is the rest of the string from the first occurrence on; \<open>None\<close> is the null pointer.\<close>

fun u_strchr :: "u8 list \<Rightarrow> u8 \<Rightarrow> u8 list option" where
  "u_strchr s c = (if ch s = 0 then None else if ch s = c then Some s else u_strchr (tl s) c)"

declare u_strchr.simps [simp del]

lemma u_strchr_simps [simp]:
  "u_strchr [] c = None"
  "u_strchr (x # xs) c = (if x = 0 then None else if x = c then Some (x # xs) else u_strchr xs c)"
  by (simp_all add: u_strchr.simps [of "[]"] u_strchr.simps [of "x # xs"])

text \<open>\<^verbatim>\<open>gets\<close> returns the characters it stored before the final NUL.\<close>

definition u_gets :: "nat \<Rightarrow> u8 list U" where
  "u_gets m =
     iterK (\<lambda>buf.
       if length buf + 1 < m
       then bindK (sysU (SysRead 0 1)) (\<lambda>a.
         if a_ret a < 1 then retK (Inr buf)
         else let c = ch (a_data a); buf = buf @ [c]
              in if c = of_char CHR 0x0A \<or> c = of_char CHR 0x0D then retK (Inr buf) else retK (Inl buf))
       else retK (Inr buf)) []"

definition u_stat :: "u8 list \<Rightarrow> ustat \<Rightarrow> (int \<times> ustat) U" where
  "u_stat n st =
     bindK (callU (SysOpen n 0)) (\<lambda>fd.
       if fd < 0 then retK (-1, st)
       else bindK (sysU (SysFstat fd)) (\<lambda>a.
            thenK (doU (SysClose fd)) (retK (a_ret a, if a_ret a < 0 then st else a_stat a))))"

text \<open>\<^verbatim>\<open>atoi\<close> on 32 bits; an overflow wraps.\<close>

fun u_atoi_loop :: "u32 \<Rightarrow> u8 list \<Rightarrow> u32" where
  "u_atoi_loop n s =
     (if of_char CHR ''0'' \<le> ch s \<and> ch s \<le> of_char CHR ''9''
      then u_atoi_loop (n * 10 + ucast (ch s) - of_char CHR ''0'') (tl s) else n)"

declare u_atoi_loop.simps [simp del]

definition u_atoi :: "u8 list \<Rightarrow> int" where
  "u_atoi s = sint (u_atoi_loop 0 s)"

text \<open>The length of \<^verbatim>\<open>memmove\<close> is an \<^verbatim>\<open>int\<close>: a negative one copies nothing. \<^verbatim>\<open>memcpy\<close> passes a \<^verbatim>\<open>uint\<close> to it.\<close>

definition u_memmove :: "ram \<Rightarrow> u64 \<Rightarrow> u64 \<Rightarrow> int \<Rightarrow> ram" where
  "u_memmove m dst src n =
     (if src > dst then memmove_up m dst src (nat n)
      else memmove_down m (dst + of_int n) (src + of_int n) (nat n))"

fun u_memcmp :: "u8 list \<Rightarrow> u8 list \<Rightarrow> nat \<Rightarrow> int" where
  "u_memcmp (x # xs) (y # ys) (Suc n) = (if x \<noteq> y then int (unat x) - int (unat y) else u_memcmp xs ys n)"
| "u_memcmp _ _ _ = 0"

definition u_memcpy :: "ram \<Rightarrow> u64 \<Rightarrow> u64 \<Rightarrow> u32 \<Rightarrow> ram" where
  "u_memcpy m dst src n = u_memmove m dst src (sint n)"

section \<open>\<^verbatim>\<open>user/printf.c\<close>\<close>

definition u_putc :: "int \<Rightarrow> u8 \<Rightarrow> unit U" where
  "u_putc fd c = doU (SysWrite fd [c])"

definition u_digits :: "u8 list" where
  "u_digits = str ''0123456789ABCDEF''"

function u_digit_loop :: "nat \<Rightarrow> nat \<Rightarrow> u8 list" where
  "u_digit_loop base x =
     u_digits ! (x mod base) # (if x div base \<noteq> 0 \<and> 2 \<le> base then u_digit_loop base (x div base) else [])"
  by pat_completeness auto
termination
proof (relation "measure (\<lambda>(base, x). x)")
  fix base x :: nat
  assume "x div base \<noteq> 0 \<and> 2 \<le> base"
  then have "0 < x" and "1 < base" by (auto intro: gr0I)
  then show "((base, x div base), base, x) \<in> measure (\<lambda>(base, x). x)" by simp
qed simp

declare u_digit_loop.simps [simp del]

definition u_printint :: "int \<Rightarrow> nat \<Rightarrow> bool \<Rightarrow> u8 list" where
  "u_printint xx base sign =
     (let neg = sign \<and> xx < 0;
          x = nat ((if neg then - xx else xx) mod 2 ^ 32);
          buf = u_digit_loop base x @ (if neg then str ''-'' else [])
      in rev buf)"

primrec u_ptr_loop :: "nat \<Rightarrow> u64 \<Rightarrow> u8 list" where
  "u_ptr_loop 0 x = []"
| "u_ptr_loop (Suc i) x = u_digits ! unat (drop_bit 60 x) # u_ptr_loop i (push_bit 4 x)"

definition u_printptr :: "u64 \<Rightarrow> u8 list" where
  "u_printptr x = str ''0x'' @ u_ptr_loop 16 x"

text \<open>The text \<^verbatim>\<open>vprintf\<close> prints; \<open>st\<close> is its \<^verbatim>\<open>state\<close> variable, true after a percent sign.\<close>

fun u_format :: "bool \<Rightarrow> u8 list \<Rightarrow> va list \<Rightarrow> u8 list" where
  "u_format st [] ap = []"
| "u_format st (c # fmt) ap =
     (if c = 0 then []
      else if \<not> st then (if c = of_char CHR ''%'' then u_format True fmt ap else c # u_format False fmt ap)
      else if c = of_char CHR ''d'' then u_printint (va_int (va_next ap)) 10 True @ u_format False fmt (tl ap)
      else if c = of_char CHR ''l'' then u_printint (va_int (va_next ap)) 10 False @ u_format False fmt (tl ap)
      else if c = of_char CHR ''x'' then u_printint (va_int (va_next ap)) 16 False @ u_format False fmt (tl ap)
      else if c = of_char CHR ''p'' then u_printptr (va_word (va_next ap)) @ u_format False fmt (tl ap)
      else if c = of_char CHR ''s'' then va_str (va_next ap) @ u_format False fmt (tl ap)
      else if c = of_char CHR ''c'' then ucast (va_word (va_next ap)) # u_format False fmt (tl ap)
      else if c = of_char CHR ''%'' then c # u_format False fmt ap
      else of_char CHR ''%'' # c # u_format False fmt ap)"

declare u_format.simps [simp del]

definition u_vprintf :: "int \<Rightarrow> u8 list \<Rightarrow> va list \<Rightarrow> unit U" where
  "u_vprintf fd fmt ap = forK (u_format False fmt ap) (u_putc fd)"

definition u_fprintf :: "int \<Rightarrow> string \<Rightarrow> va list \<Rightarrow> unit U" where
  "u_fprintf fd fmt ap = u_vprintf fd (str fmt) ap"

definition u_printf :: "string \<Rightarrow> va list \<Rightarrow> unit U" where
  "u_printf fmt ap = u_vprintf 1 (str fmt) ap"

section \<open>Copying memory\<close>

text \<open>
  The \<^verbatim>\<open>memmove\<close> of the user library and that of the kernel, which decide differently in which direction to copy,
  compute the same memory on ranges that do not wrap around the address space, whether they overlap or not; a
  negative length copies nothing, and \<^verbatim>\<open>memcpy\<close> of 2^31 bytes or more is such a call.
\<close>

lemma u_memmove_eq_memmove:
  assumes "unat src + n < 2 ^ 64" and "unat dst + n < 2 ^ 64"
  shows "u_memmove m dst src (int n) = memmove m dst src n" "u_memmove m dst src (int n) = wr_bytes m dst (rd_bytes m src n)"
proof -
  show "u_memmove m dst src (int n) = wr_bytes m dst (rd_bytes m src n)"
    unfolding u_memmove_def nat_int of_int_of_nat_eq
    using memmove_down_range [OF assms] memmove_up_range [OF assms] by (cases "dst < src") (simp_all add: not_less less_imp_le)
  then show "u_memmove m dst src (int n) = memmove m dst src n" by (simp add: memmove_correct [OF assms])
qed

lemma u_memmove_negative: "n < 0 \<Longrightarrow> u_memmove m dst src n = m"
  by (simp add: u_memmove_def)

lemma u_memcpy_large: "2 ^ 31 \<le> n \<Longrightarrow> u_memcpy m dst src n = m"
proof -
  assume "2 ^ 31 \<le> n"
  then have "2147483648 \<le> uint n" "uint n < 4294967296" using uint_lt2p [of n] by (simp_all add: word_le_def)
  then have "uint n div 2147483648 = 1" by (intro int_div_pos_eq [of _ _ _ "uint n - 2147483648"]) simp_all
  then have "bit (uint n) 31" by (simp add: bit_iff_odd)
  then have "sint n < 0" by (simp add: sint_uint signed_take_bit_eq_if_negative)
  then show ?thesis by (simp add: u_memcpy_def u_memmove_negative)
qed

end
