(* ===== verification/Filters.thy ===== *)
theory Filters
  imports File User_Program
begin

text \<open>
  The small user programs: \<^verbatim>\<open>cat\<close>, \<^verbatim>\<open>wc\<close>, \<^verbatim>\<open>grep\<close>, \<^verbatim>\<open>echo\<close>, \<^verbatim>\<open>ls\<close>, \<^verbatim>\<open>kill\<close>, \<^verbatim>\<open>ln\<close>, \<^verbatim>\<open>mkdir\<close>, \<^verbatim>\<open>rm\<close>, \<^verbatim>\<open>zombie\<close> and
  \<^verbatim>\<open>init\<close>. The filters are proved against a kernel that delivers the bytes of the files in order but in
  pieces of any size, as reads from a console, a pipe or a file do: what they print depends on the
  contents only. \<open>argv\<close> includes the program's name.
\<close>

section \<open>Programs\<close>

definition cat :: "int \<Rightarrow> unit U" where
  "cat fd =
     iterK (\<lambda>_. bindK (sysU (SysRead fd 512)) (\<lambda>a.
       if a_ret a > 0
       then bindK (callU (SysWrite 1 (a_data a))) (\<lambda>r.
         if r \<noteq> a_ret a then thenK (u_fprintf 2 ''cat: write error\<newline>'' []) (exitU 1) else retK (Inl ()))
       else if a_ret a < 0 then thenK (u_fprintf 2 ''cat: read error\<newline>'' []) (exitU 1)
       else retK (Inr ()))) ()"

definition cat_main :: "u8 list list \<Rightarrow> unit U" where
  "cat_main argv =
     (if length argv \<le> 1 then thenK (cat 0) (exitU 0)
      else thenK (forK (tl argv) (\<lambda>f.
             bindK (callU (SysOpen f 0)) (\<lambda>fd.
               if fd < 0 then thenK (u_fprintf 2 ''cat: cannot open %s\<newline>'' [VStr (Some f)]) (exitU 1)
               else thenK (cat fd) (doU (SysClose fd))))) (exitU 0))"

record wcs =
  wc_l :: u32
  wc_w :: u32
  wc_c :: u32
  inword :: bool

definition wc_char :: "u8 \<Rightarrow> wcs \<Rightarrow> wcs" where
  "wc_char b v =
     (let v = v\<lparr>wc_c := wc_c v + 1\<rparr>;
          v = (if b = of_char CHR 0x0A then v\<lparr>wc_l := wc_l v + 1\<rparr> else v)
      in if u_strchr (str '' '' @ [13, 9, 10, 11]) b \<noteq> None then v\<lparr>inword := False\<rparr>
         else if \<not> inword v then v\<lparr>wc_w := wc_w v + 1, inword := True\<rparr> else v)"

definition wc :: "int \<Rightarrow> u8 list \<Rightarrow> unit U" where
  "wc fd name =
     bindK (iterK (\<lambda>v. bindK (sysU (SysRead fd 512)) (\<lambda>a.
       if a_ret a > 0 then retK (Inl (fold wc_char (a_data a) v)) else retK (Inr (v, a_ret a))))
       \<lparr>wc_l = 0, wc_w = 0, wc_c = 0, inword = False\<rparr>)
     (\<lambda>(v, n).
       if n < 0 then thenK (u_printf ''wc: read error\<newline>'' []) (exitU 1)
       else u_printf ''%d %d %d %s\<newline>''
         [VWord (ucast (wc_l v)), VWord (ucast (wc_w v)), VWord (ucast (wc_c v)), VStr (Some name)])"

definition wc_main :: "u8 list list \<Rightarrow> unit U" where
  "wc_main argv =
     (if length argv \<le> 1 then thenK (wc 0 []) (exitU 0)
      else thenK (forK (tl argv) (\<lambda>f.
             bindK (callU (SysOpen f 0)) (\<lambda>fd.
               if fd < 0 then thenK (u_printf ''wc: cannot open %s\<newline>'' [VStr (Some f)]) (exitU 1)
               else thenK (wc fd f) (doU (SysClose fd))))) (exitU 0))"

text \<open>The matcher of \<^verbatim>\<open>grep\<close>; reading at the end of a list yields the NUL that ends a string.\<close>

function matchhere :: "u8 list \<Rightarrow> u8 list \<Rightarrow> bool"
  and matchstar :: "u8 \<Rightarrow> u8 list \<Rightarrow> u8 list \<Rightarrow> bool" where
  "matchhere re text =
     (if ch re = 0 then True
      else if ch (tl re) = of_char CHR ''*'' then matchstar (ch re) (tl (tl re)) text
      else if ch re = of_char CHR ''$'' \<and> ch (tl re) = 0 then ch text = 0
      else if ch text \<noteq> 0 \<and> (ch re = of_char CHR ''.'' \<or> ch re = ch text) then matchhere (tl re) (tl text)
      else False)"
| "matchstar c re text =
     (if matchhere re text then True
      else if ch text \<noteq> 0 \<and> (ch text = c \<or> c = of_char CHR ''.'') then matchstar c re (tl text)
      else False)"
  by pat_completeness auto
termination
proof (relation "inv_image (less_than <*lex*> less_than)
    (\<lambda>x. case x of Inl (re, text) \<Rightarrow> (length re, length text) | Inr (c, re, text) \<Rightarrow> (length re + 1, length text))")
qed (auto simp: ch_def less_Suc_eq_le split: list.splits)

declare matchhere.simps [simp del] matchstar.simps [simp del]

fun match_from :: "u8 list \<Rightarrow> u8 list \<Rightarrow> bool" where
  "match_from re text = (if matchhere re text then True else if ch text \<noteq> 0 then match_from re (tl text) else False)"

declare match_from.simps [simp del]

definition match :: "u8 list \<Rightarrow> u8 list \<Rightarrow> bool" where
  "match re text = (if ch re = of_char CHR ''^'' then matchhere (tl re) text else match_from re text)"

text \<open>\<open>p\<close> is the part of the buffer that is not yet looked at.\<close>

lemma strchr_le: "u_strchr s c = Some q \<Longrightarrow> length q \<le> length s \<and> q \<noteq> []"
  by (induction s) (auto split: if_splits)

function grep_lines :: "u8 list \<Rightarrow> u8 list \<Rightarrow> u8 list U" where
  "grep_lines pattern p =
     (case u_strchr p (of_char CHR 0x0A) of
        None \<Rightarrow> retK p
      | Some q \<Rightarrow>
          (let line = take (length p - length q) p
           in thenK (whenK (match pattern line) (doU (SysWrite 1 (line @ [of_char CHR 0x0A]))))
                (grep_lines pattern (tl q))))"
  by pat_completeness auto
termination
proof (relation "measure (\<lambda>(pattern, p). length p)")
  fix p q :: "u8 list" and pattern :: "u8 list"
  assume "u_strchr p (of_char CHR 0x0A) = Some q"
  then have "length q \<le> length p" "q \<noteq> []" using strchr_le by auto
  then show "((pattern, tl q), pattern, p) \<in> measure (\<lambda>(pattern, p). length p)" by (cases q) auto
qed simp

declare grep_lines.simps [simp del]

definition grep :: "u8 list \<Rightarrow> int \<Rightarrow> unit U" where
  "grep pattern fd =
     iterK (\<lambda>buf. bindK (sysU (SysRead fd (1024 - length buf - 1))) (\<lambda>a.
       if a_ret a > 0
       then bindK (grep_lines pattern (buf @ a_data a)) (\<lambda>p. retK (Inl p))
       else retK (Inr ()))) []"

definition grep_main :: "u8 list list \<Rightarrow> unit U" where
  "grep_main argv =
     (if length argv \<le> 1 then thenK (u_fprintf 2 ''usage: grep pattern [file ...]\<newline>'' []) (exitU 1)
      else let pattern = argv ! 1
        in if length argv \<le> 2 then thenK (grep pattern 0) (exitU 0)
           else thenK (forK (drop 2 argv) (\<lambda>f.
             bindK (callU (SysOpen f 0)) (\<lambda>fd.
               if fd < 0 then thenK (u_printf ''grep: cannot open %s\<newline>'' [VStr (Some f)]) (exitU 1)
               else thenK (grep pattern fd) (doU (SysClose fd))))) (exitU 0))"

definition echo_main :: "u8 list list \<Rightarrow> unit U" where
  "echo_main argv =
     thenK (forK [1..<length argv] (\<lambda>i.
       thenK (doU (SysWrite 1 (take (u_strlen (argv ! i)) (argv ! i))))
         (doU (SysWrite 1 (if i + 1 < length argv then str '' '' else str ''\<newline>''))))) (exitU 0)"

text \<open>\<^verbatim>\<open>ls\<close>: the last element of a path, padded with blanks.\<close>

definition fmtname :: "u8 list \<Rightarrow> u8 list" where
  "fmtname path =
     (let p = rev (takeWhile (\<lambda>c. c \<noteq> of_char CHR ''/'') (rev (take (u_strlen path) path)))
      in if length p \<ge> DIRSIZ then p else p @ replicate (DIRSIZ - length p) 32)"

definition ls_line :: "string \<Rightarrow> u8 list \<Rightarrow> ustat \<Rightarrow> unit U" where
  "ls_line fmt path st =
     u_printf fmt [VStr (Some (fmtname path)), VWord (of_int (st_type st)), VWord (of_int (st_ino st)), VWord (st_size st)]"

definition ls_dir :: "int \<Rightarrow> u8 list \<Rightarrow> ustat \<Rightarrow> unit U" where
  "ls_dir fd path st0 =
     iterK (\<lambda>st. bindK (sysU (SysRead fd 16)) (\<lambda>d.
       if a_ret d \<noteq> 16 then retK (Inr ())
       else if de_inum (a_data d) = 0 then retK (Inl st)
       else let buf = take (u_strlen path) path @ str ''/'' @ cstr DIRSIZ (de_name (a_data d))
            in bindK (u_stat buf st) (\<lambda>(r, st).
                 thenK (if r < 0 then u_printf ''ls: cannot stat %s\<newline>'' [VStr (Some buf)]
                        else ls_line ''%s %d %d %d\<newline>'' buf st)
                   (retK (Inl st))))) st0"

definition ls :: "u8 list \<Rightarrow> unit U" where
  "ls path =
     bindK (callU (SysOpen path 0)) (\<lambda>fd.
       if fd < 0 then u_fprintf 2 ''ls: cannot open %s\<newline>'' [VStr (Some path)]
       else bindK (sysU (SysFstat fd)) (\<lambda>a.
         if a_ret a < 0
         then thenK (u_fprintf 2 ''ls: cannot stat %s\<newline>'' [VStr (Some path)]) (doU (SysClose fd))
         else thenK
           (if st_type (a_stat a) = T_FILE then ls_line ''%s %d %d %l\<newline>'' path (a_stat a)
            else if st_type (a_stat a) = T_DIR
            then (if u_strlen path + 1 + DIRSIZ + 1 > 512 then u_printf ''ls: path too long\<newline>'' []
                  else ls_dir fd path (a_stat a))
            else retK ())
           (doU (SysClose fd))))"

definition ls_main :: "u8 list list \<Rightarrow> unit U" where
  "ls_main argv =
     (if length argv < 2 then thenK (ls (str ''.'')) (exitU 0) else thenK (forK (tl argv) ls) (exitU 0))"

definition kill_main :: "u8 list list \<Rightarrow> unit U" where
  "kill_main argv =
     (if length argv < 2 then thenK (u_fprintf 2 ''usage: kill pid...\<newline>'' []) (exitU 1)
      else thenK (forK (tl argv) (\<lambda>a. doU (SysKill (u_atoi a)))) (exitU 0))"

definition ln_main :: "u8 list list \<Rightarrow> unit U" where
  "ln_main argv =
     (if length argv \<noteq> 3 then thenK (u_fprintf 2 ''Usage: ln old new\<newline>'' []) (exitU 1)
      else bindK (callU (SysLink (argv ! 1) (argv ! 2))) (\<lambda>r.
             thenK (whenK (r < 0)
                 (u_fprintf 2 ''link %s %s: failed\<newline>'' [VStr (Some (argv ! 1)), VStr (Some (argv ! 2))]))
               (exitU 0)))"

definition mkdir_main :: "u8 list list \<Rightarrow> unit U" where
  "mkdir_main argv =
     (if length argv < 2 then thenK (u_fprintf 2 ''Usage: mkdir files...\<newline>'' []) (exitU 1)
      else thenK (loopK (tl argv) (\<lambda>f. bindK (callU (SysMkdir f)) (\<lambda>r.
             if r < 0 then thenK (u_fprintf 2 ''mkdir: %s failed to create\<newline>'' [VStr (Some f)]) (retK (Some ()))
             else retK None))) (exitU 0))"

definition rm_main :: "u8 list list \<Rightarrow> unit U" where
  "rm_main argv =
     (if length argv < 2 then thenK (u_fprintf 2 ''Usage: rm files...\<newline>'' []) (exitU 1)
      else thenK (loopK (tl argv) (\<lambda>f. bindK (callU (SysUnlink f)) (\<lambda>r.
             if r < 0 then thenK (u_fprintf 2 ''rm: %s failed to delete\<newline>'' [VStr (Some f)]) (retK (Some ()))
             else retK None))) (exitU 0))"

definition zombie_main :: "unit U" where
  "zombie_main = bindK (callU SysFork) (\<lambda>pid. thenK (whenK (pid > 0) (doU (SysSleep 5))) (exitU 0))"

text \<open>\<^verbatim>\<open>init\<close> starts the shell again whenever it exits, and reaps the other processes.\<close>

definition init_wait :: "int \<Rightarrow> unit U" where
  "init_wait sh =
     iterK (\<lambda>_. bindK (callU SysWait) (\<lambda>wpid.
       if wpid = sh then retK (Inr ())
       else if wpid < 0 then thenK (u_printf ''init: wait returned an error\<newline>'' []) (exitU 1)
       else retK (Inl ()))) ()"

definition init_main :: "unit U" where
  "init_main =
     bindK (callU (SysOpen (str ''console'') 2)) (\<lambda>fd.
       thenK (whenK (fd < 0) (thenK (doU (SysMknod (str ''console'') CONSOLE 0)) (doU (SysOpen (str ''console'') 2))))
       (thenK (doU (SysDup 0)) (thenK (doU (SysDup 0))
       (iterK (\<lambda>_.
          thenK (u_printf ''init: starting sh\<newline>'' [])
          (bindK (callU SysFork) (\<lambda>pid.
             if pid < 0 then thenK (u_printf ''init: fork failed\<newline>'' []) (exitU 1)
             else if pid = 0
             then thenK (doU (SysExec (str ''sh'') [str ''sh'']))
                    (thenK (u_printf ''init: exec sh failed\<newline>'' []) (exitU 1))
             else thenK (init_wait pid) (retK (Inl ()))))) ()))))"

section \<open>A kernel for filters\<close>

text \<open>
  The files, what each open descriptor has still to deliver, and what was written to each descriptor. A
  read delivers a piece of any size that fits, but not nothing before the end. \<^verbatim>\<open>open\<close> yields a free descriptor.
\<close>

record uworld =
  w_files :: "u8 list \<Rightarrow> u8 list option"
  w_fds :: "int \<Rightarrow> u8 list option"
  w_out :: "int \<Rightarrow> u8 list"

definition set_fd :: "int \<Rightarrow> u8 list option \<Rightarrow> uworld \<Rightarrow> uworld" where
  "set_fd fd v w = w\<lparr>w_fds := (w_fds w)(fd := v)\<rparr>"

definition add_out :: "int \<Rightarrow> u8 list \<Rightarrow> uworld \<Rightarrow> uworld" where
  "add_out fd bs w = w\<lparr>w_out := (w_out w)(fd := w_out w fd @ bs)\<rparr>"

fun stdio :: "uworld \<Rightarrow> ucall \<Rightarrow> uans \<Rightarrow> uworld \<Rightarrow> bool" where
  "stdio w (SysRead fd n) a w' \<longleftrightarrow>
     (case w_fds w fd of
        None \<Rightarrow> a_ret a = -1 \<and> w' = w
      | Some xs \<Rightarrow> \<exists>k. k \<le> n \<and> k \<le> length xs \<and> (k = 0 \<longrightarrow> n = 0 \<or> xs = []) \<and>
          a_ret a = int k \<and> a_data a = take k xs \<and> w' = set_fd fd (Some (drop k xs)) w)"
| "stdio w (SysWrite fd bs) a w' \<longleftrightarrow> a_ret a = int (length bs) \<and> w' = add_out fd bs w"
| "stdio w (SysOpen p mode) a w' \<longleftrightarrow>
     (case w_files w p of
        None \<Rightarrow> a_ret a = -1 \<and> w' = w
      | Some xs \<Rightarrow> 0 \<le> a_ret a \<and> w_fds w (a_ret a) = None \<and> w' = set_fd (a_ret a) (Some xs) w)"
| "stdio w (SysClose fd) a w' \<longleftrightarrow> w' = set_fd fd None w"
| "stdio w _ a w' \<longleftrightarrow> w' = w"

lemma world_fields [simp]:
  "w_fds (set_fd fd v w) = (w_fds w)(fd := v)" "w_files (set_fd fd v w) = w_files w" "w_out (set_fd fd v w) = w_out w"
  "w_fds (add_out fd bs w) = w_fds w" "w_files (add_out fd bs w) = w_files w"
  "w_out (add_out fd bs w) = (w_out w)(fd := w_out w fd @ bs)"
  by (simp_all add: set_fd_def add_out_def)

lemma set_fd_set_fd [simp]: "set_fd fd v (set_fd fd u w) = set_fd fd v w"
  by (simp add: set_fd_def)

lemma set_fd_add_out: "set_fd fd v (add_out g bs w) = add_out g bs (set_fd fd v w)"
  by (simp add: set_fd_def add_out_def)

lemma set_fd_id [simp]: "w_fds w fd = v \<Longrightarrow> set_fd fd v w = w"
  by (auto simp: set_fd_def)

lemma add_out_add_out [simp]: "add_out fd cs (add_out fd bs w) = add_out fd (bs @ cs) w"
  by (simp add: add_out_def)

lemma add_out_Nil [simp]: "add_out fd [] w = w"
  by (simp add: add_out_def)

lemma okP_vprintf:
  assumes "Q () (add_out fd (u_format False fmt ap) w)"
  shows "okP stdio (u_vprintf fd fmt ap) w Q E"
  unfolding u_vprintf_def
proof (rule okP_for [where I = "\<lambda>pre w'. w' = add_out fd pre w"])
  show "okP stdio (u_putc fd x) w' (\<lambda>_ v. v = add_out fd (pre @ [x]) w) E" if "w' = add_out fd pre w" for x pre w'
    unfolding u_putc_def by (rule okP_do) (use that in auto)
qed (use assms in auto)

text \<open>
  A loop that reads a descriptor to its end: \<open>I v pre w\<close> holds when \<open>pre\<close> has been read. The loop ends
  because every read but the last delivers something.
\<close>

lemma okP_read_loop:
  fixes fd :: int and n :: "'v \<Rightarrow> nat"
  defines "body f v \<equiv> bindK (sysU (SysRead fd (n v))) (f v)"
  assumes start: "w_fds w fd = Some xs" "I v [] w"
    and room: "\<And>v pre w. I v pre w \<Longrightarrow> 0 < n v \<or> pre = xs"
    and step: "\<And>v pre d rest w a. xs = pre @ d @ rest \<Longrightarrow> d \<noteq> [] \<Longrightarrow> length d \<le> n v \<Longrightarrow> I v pre w \<Longrightarrow>
      w_fds w fd = Some (d @ rest) \<Longrightarrow> a_ret a = int (length d) \<Longrightarrow> a_data a = d \<Longrightarrow>
      okP stdio (f v a) (set_fd fd (Some rest) w)
        (\<lambda>r w'. \<exists>v'. r = Inl v' \<and> I v' (pre @ d) w' \<and> w_fds w' fd = Some rest) E"
    and leave: "\<And>v w a. I v xs w \<Longrightarrow> w_fds w fd = Some [] \<Longrightarrow> a_ret a = 0 \<Longrightarrow>
      okP stdio (f v a) w (\<lambda>r w'. \<exists>x. r = Inr x \<and> Q x w') E"
  shows "okP stdio (iterK (body f) v) w Q E"
proof -
  have "okP stdio (iterK (body f) v) w Q E" if "xs = pre @ rest" "w_fds w fd = Some rest" "I v pre w" for v pre rest w
    using that
  proof (induction "length rest" arbitrary: v pre rest w rule: less_induct)
    case less
    note [simp] = body_def
    have go: "okP stdio (f v a) w' (\<lambda>r w. case r of Inl v \<Rightarrow> okP stdio (iterK (body f) v) w Q E | Inr x \<Rightarrow> Q x w) E"
      if h: "stdio w (SysRead fd (n v)) a w'" for a w'
    proof -
      obtain k where k: "k \<le> n v" "k \<le> length rest" "k = 0 \<longrightarrow> n v = 0 \<or> rest = []" "a_ret a = int k"
        "a_data a = take k rest" "w' = set_fd fd (Some (drop k rest)) w" using h less.prems(2) by auto
      show ?thesis
      proof (cases "k = 0")
        case True
        then have "rest = []" using k(3) room [OF less.prems(3)] less.prems(1) by auto
        then show ?thesis
          using leave [of v w a] less.prems k True by (auto elim!: okP_mono)
      next
        case False
        have "okP stdio (f v a) w' (\<lambda>r w'. \<exists>v'. r = Inl v' \<and> I v' (pre @ take k rest) w' \<and>
            w_fds w' fd = Some (drop k rest)) E"
          unfolding k(6) by (rule step) (use False k less.prems in auto)
        moreover have "okP stdio (iterK (body f) v') u Q E"
          if "I v' (pre @ take k rest) u" "w_fds u fd = Some (drop k rest)" for v' u
          by (rule less.hyps [OF _ _ that(2,1)]) (use less.prems(1) False k(2) in auto)
        ultimately show ?thesis by (auto elim: okP_mono)
      qed
    qed
    show ?case
      by (rule okP_iter) (auto intro!: okP_bind okP_sys intro: go)
  qed
  from this [of "[]" xs w v] show ?thesis using start by simp
qed

lemma cat_copies:
  assumes "w_fds w fd = Some xs" and "Q () (add_out 1 xs (set_fd fd (Some []) w))"
  shows "okP stdio (cat fd) w Q E"
  unfolding cat_def
proof (rule okP_read_loop [where n = "\<lambda>_. 512" and xs = xs and I = "\<lambda>v pre w'. w' = add_out 1 pre (set_fd fd (w_fds w' fd) w)"])
qed (use assms in \<open>auto intro!: okP_bind okP_call okP_ret simp: set_fd_add_out\<close>)

section \<open>The matcher\<close>

text \<open>
  The patterns of \<^verbatim>\<open>grep\<close> as a language: \<open>One c\<close> stands for one character, \<open>Many c\<close> for any number of them;
  a dot stands for every character. The flag says that the match has to reach the end of the text.
\<close>

datatype rx = One u8 | Many u8

fun rx_parse :: "u8 list \<Rightarrow> rx list \<times> bool" where
  "rx_parse [] = ([], False)"
| "rx_parse [c] = (if c = of_char CHR ''$'' then ([], True) else ([One c], False))"
| "rx_parse (c # d # re) =
     (if d = of_char CHR ''*'' then (Many c # fst (rx_parse re), snd (rx_parse re))
      else (One c # fst (rx_parse (d # re)), snd (rx_parse (d # re))))"

definition rx_char :: "u8 \<Rightarrow> u8 \<Rightarrow> bool" where
  "rx_char c x \<longleftrightarrow> c = of_char CHR ''.'' \<or> c = x"

fun rx_lang :: "rx list \<Rightarrow> u8 list \<Rightarrow> bool" where
  "rx_lang [] t \<longleftrightarrow> t = []"
| "rx_lang (One c # r) t \<longleftrightarrow> (\<exists>x t'. t = x # t' \<and> rx_char c x \<and> rx_lang r t')"
| "rx_lang (Many c # r) t \<longleftrightarrow> (\<exists>u v. t = u @ v \<and> list_all (rx_char c) u \<and> rx_lang r v)"

definition rx_here :: "u8 list \<Rightarrow> u8 list \<Rightarrow> bool" where
  "rx_here re ts \<longleftrightarrow> (\<exists>u v. ts = u @ v \<and> rx_lang (fst (rx_parse re)) u \<and> (snd (rx_parse re) \<longrightarrow> v = []))"

definition rx_match :: "u8 list \<Rightarrow> u8 list \<Rightarrow> bool" where
  "rx_match re ts \<longleftrightarrow>
     (if ch re = of_char CHR ''^'' then rx_here (tl re) ts else \<exists>u v. ts = u @ v \<and> rx_here re v)"

lemma ex_split_Cons:
  "(\<exists>u v. x # xs = u @ v \<and> P u v) \<longleftrightarrow> P [] (x # xs) \<or> (\<exists>u v. xs = u @ v \<and> P (x # u) v)" (is "?l = ?r")
proof
  assume ?l
  then obtain u v where uv: "x # xs = u @ v" "P u v" by blast
  then show ?r by (cases u) auto
next
  assume ?r
  then show ?l
  proof
    assume "P [] (x # xs)"
    then show ?l by (intro exI [of _ "[]"] exI [of _ "x # xs"]) simp
  next
    assume "\<exists>u v. xs = u @ v \<and> P (x # u) v"
    then obtain u v where "xs = u @ v" "P (x # u) v" by blast
    then show ?l by (intro exI [of _ "x # u"] exI [of _ v]) simp
  qed
qed

lemma rx_here_One:
  assumes "d \<noteq> of_char CHR ''*''"
  shows "rx_here (c # d # re) ts \<longleftrightarrow> ts \<noteq> [] \<and> rx_char c (hd ts) \<and> rx_here (d # re) (tl ts)"
  using assms by (cases ts) (auto simp: rx_here_def ex_split_Cons)

lemma rx_here_last:
  assumes "c \<noteq> of_char CHR ''$''"
  shows "rx_here [c] ts \<longleftrightarrow> ts \<noteq> [] \<and> rx_char c (hd ts)"
proof (cases ts)
  case (Cons x xs)
  show ?thesis unfolding Cons rx_here_def ex_split_Cons using assms by simp
qed (use assms in \<open>simp add: rx_here_def\<close>)

lemma rx_here_end: "rx_here [of_char CHR ''$''] ts \<longleftrightarrow> ts = []"
  by (auto simp: rx_here_def)

lemma rx_here_Nil [simp]: "rx_here [] ts"
  by (auto simp: rx_here_def)

definition rx_many :: "u8 \<Rightarrow> u8 list \<Rightarrow> u8 list \<Rightarrow> bool" where
  "rx_many c re ts \<longleftrightarrow> (\<exists>u v. ts = u @ v \<and> list_all (rx_char c) u \<and> rx_here re v)"

lemma rx_here_Many: "rx_here (c # of_char CHR ''*'' # re) ts \<longleftrightarrow> rx_many c re ts"
  unfolding rx_here_def rx_many_def by simp (metis (no_types, lifting) append.assoc)

lemma rx_many_step:
  "rx_many c re ts \<longleftrightarrow> rx_here re ts \<or> ts \<noteq> [] \<and> rx_char c (hd ts) \<and> rx_many c re (tl ts)"
proof (cases ts)
  case (Cons x xs)
  have "rx_many c re (x # xs) \<longleftrightarrow> rx_here re (x # xs) \<or> rx_char c x \<and> rx_many c re xs"
    unfolding rx_many_def ex_split_Cons by auto
  then show ?thesis using Cons by simp
qed (auto simp: rx_many_def)

lemma matchhere_rx:
  "0 \<notin> set re \<Longrightarrow> 0 \<notin> set ts \<Longrightarrow> matchhere re ts \<longleftrightarrow> rx_here re ts"
  "0 \<notin> set re \<Longrightarrow> 0 \<notin> set ts \<Longrightarrow> matchstar c re ts \<longleftrightarrow> rx_many c re ts"
proof (induction re ts and c re ts rule: matchhere_matchstar.induct)
  case (1 re ts)
  show ?case
  proof (cases re)
    case Nil
    then show ?thesis by (simp add: matchhere.simps)
  next
    case (Cons c res)
    show ?thesis
    proof (cases res)
      case Nil
      then show ?thesis using 1 Cons
        by (cases ts) (auto simp: matchhere.simps [of "[c]"] matchhere.simps [of "[]"] rx_here_last rx_here_end [simplified] rx_char_def)
    next
      case (Cons d res')
      then show ?thesis using 1 \<open>re = c # res\<close>
        by (cases ts) (auto simp: matchhere.simps [of "c # d # res'"] rx_here_Many [simplified] rx_here_One rx_char_def)
    qed
  qed
next
  case (2 c re ts)
  then show ?case
    by (subst matchstar.simps, subst rx_many_step) (cases ts; auto simp: rx_char_def)
qed

lemma match_from_rx:
  "0 \<notin> set re \<Longrightarrow> 0 \<notin> set ts \<Longrightarrow> match_from re ts \<longleftrightarrow> (\<exists>u v. ts = u @ v \<and> rx_here re v)"
proof (induction ts)
  case Nil
  then show ?case by (simp add: match_from.simps matchhere_rx)
next
  case (Cons x xs)
  have "(\<exists>u v. x # xs = u @ v \<and> rx_here re v) \<longleftrightarrow> rx_here re (x # xs) \<or> (\<exists>u v. xs = u @ v \<and> rx_here re v)"
    by (rule ex_split_Cons)
  then show ?case using Cons by (subst match_from.simps) (simp add: matchhere_rx)
qed

lemma match_rx: "0 \<notin> set re \<Longrightarrow> 0 \<notin> set ts \<Longrightarrow> match re ts \<longleftrightarrow> rx_match re ts"
  unfolding match_def rx_match_def by (cases re) (simp_all add: matchhere_rx match_from_rx)

section \<open>The filters\<close>

abbreviation newline :: u8 where "newline \<equiv> of_char CHR 0x0A"

text \<open>The lines of a text that end with a newline, without it, and the rest after the last newline; \<open>acc\<close> is the start of the first line.\<close>

primrec split_lines :: "u8 list \<Rightarrow> u8 list \<Rightarrow> u8 list list \<times> u8 list" where
  "split_lines acc [] = ([], acc)"
| "split_lines acc (c # xs) =
     (if c = newline then (acc # fst (split_lines [] xs), snd (split_lines [] xs)) else split_lines (acc @ [c]) xs)"

lemma split_lines_append:
  "split_lines acc (xs @ ys) =
     (fst (split_lines acc xs) @ fst (split_lines (snd (split_lines acc xs)) ys), snd (split_lines (snd (split_lines acc xs)) ys))"
  by (induction xs arbitrary: acc) simp_all

lemma split_lines_acc: "newline \<notin> set r \<Longrightarrow> split_lines acc (r @ ys) = split_lines (acc @ r) ys"
  by (induction r arbitrary: acc) auto

lemma split_lines_rest: "newline \<notin> set acc \<Longrightarrow> newline \<notin> set (snd (split_lines acc xs))"
  by (induction xs arbitrary: acc) auto

lemma split_lines_sub: "set (snd (split_lines acc xs)) \<subseteq> set acc \<union> set xs"
proof (induction xs arbitrary: acc)
  case (Cons c xs)
  show ?case using Cons.IH [of "[]"] Cons.IH [of "acc @ [c]"] by auto
qed simp

lemma split_lines_len:
  "\<exists>l \<in> insert (snd (split_lines r ys)) (set (fst (split_lines r ys))). length r \<le> length l"
proof (induction ys arbitrary: r)
  case (Cons c ys)
  show ?case using Cons.IH [of "r @ [c]"] by (auto dest: Suc_leD)
qed simp

text \<open>What \<^verbatim>\<open>grep\<close> prints for a list of lines.\<close>

definition grep_out :: "u8 list \<Rightarrow> u8 list list \<Rightarrow> u8 list" where
  "grep_out re ll = concat (map (\<lambda>l. l @ [newline]) (filter (rx_match re) ll))"

lemma grep_out_simps [simp]: "grep_out re [] = []" "grep_out re (ll @ kk) = grep_out re ll @ grep_out re kk"
  "grep_out re (l # ll) = (if rx_match re l then l @ [newline] else []) @ grep_out re ll"
  by (simp_all add: grep_out_def)

lemma strchr_None: "0 \<notin> set p \<Longrightarrow> u_strchr p c = None \<Longrightarrow> c \<notin> set p"
  by (induction p) (auto split: if_splits)

lemma strchr_Some: "u_strchr p c = Some q \<Longrightarrow> \<exists>l r. p = l @ c # r \<and> q = c # r \<and> c \<notin> set l"
proof (induction p)
  case (Cons x p)
  show ?case
  proof (cases "x = c")
    case True
    then show ?thesis using Cons.prems by (intro exI [of _ "[]"] exI [of _ p]) (auto split: if_splits)
  next
    case False
    then obtain l r where "p = l @ c # r" "q = c # r" "c \<notin> set l" using Cons by (auto split: if_splits)
    then show ?thesis using False by (intro exI [of _ "x # l"] exI [of _ r]) auto
  qed
qed simp

lemma okP_when: "(c \<Longrightarrow> okP h m w Q E) \<Longrightarrow> (\<not> c \<Longrightarrow> Q () w) \<Longrightarrow> okP h (whenK c m) w Q E"
  by (auto simp: whenK_def intro: okP_ret)

lemma grep_lines_correct:
  assumes "0 \<notin> set re" and "0 \<notin> set p" and "Q (snd (split_lines [] p)) (add_out 1 (grep_out re (fst (split_lines [] p))) w)"
  shows "okP stdio (grep_lines re p) w Q E"
  using assms
proof (induction re p arbitrary: w rule: grep_lines.induct)
  case (1 re p)
  show ?case
  proof (cases "u_strchr p newline")
    case None
    then have "split_lines [] p = ([], p)"
      using strchr_None [OF 1(3)] split_lines_acc [of p "[]" "[]"] by simp
    then show ?thesis using 1(4) None by (subst grep_lines.simps) (auto intro: okP_ret)
  next
    case (Some q)
    obtain l r where p: "p = l @ newline # r" "q = newline # r" "newline \<notin> set l" using strchr_Some [OF Some] by blast
    have sl: "split_lines [] p = (l # fst (split_lines [] r), snd (split_lines [] r))"
      unfolding p(1) split_lines_acc [OF p(3)] by simp
    have line: "take (length p - length q) p = l" and "tl q = r" using p(1,2) by simp_all
    have m: "match re l \<longleftrightarrow> rx_match re l" using match_rx 1(2,3) p(1) by simp
    have IH: "okP stdio (grep_lines re r) w' Q E"
      if "w' = add_out 1 (if rx_match re l then l @ [newline] else []) w" for w'
      by (rule "1.IH" [OF Some line [symmetric], unfolded \<open>tl q = r\<close>]) (use 1 p(1) sl that in auto)
    have "grep_lines re p = thenK (whenK (match re l) (doU (SysWrite 1 (l @ [newline])))) (grep_lines re r)"
      by (subst grep_lines.simps) (simp only: Some option.case line \<open>tl q = r\<close> Let_def)
    then show ?thesis using m by (auto intro!: okP_then okP_when okP_do IH)
  qed
qed

lemma grep_correct:
  assumes "w_fds w fd = Some xs" and "0 \<notin> set re" and "0 \<notin> set xs"
    and "\<And>l. l \<in> insert (snd (split_lines [] xs)) (set (fst (split_lines [] xs))) \<Longrightarrow> length l < 1023"
    and "Q () (add_out 1 (grep_out re (fst (split_lines [] xs))) (set_fd fd (Some []) w))"
  shows "okP stdio (grep re fd) w Q E"
  unfolding grep_def
proof (rule okP_read_loop [where n = "\<lambda>buf. 1024 - length buf - 1" and xs = xs and I = "\<lambda>buf pre w'.
    (\<exists>post. xs = pre @ post) \<and> buf = snd (split_lines [] pre) \<and>
    w' = add_out 1 (grep_out re (fst (split_lines [] pre))) (set_fd fd (w_fds w' fd) w)"])
  fix buf pre w'
  assume "(\<exists>post. xs = pre @ post) \<and> buf = snd (split_lines [] pre) \<and>
    w' = add_out 1 (grep_out re (fst (split_lines [] pre))) (set_fd fd (w_fds w' fd) w)"
  then obtain post where p: "xs = pre @ post" "buf = snd (split_lines [] pre)" by blast
  then have "length buf < 1023"
    using split_lines_len [of buf post] assms(4) unfolding p(1) split_lines_append [of "[]" pre post] by fastforce
  then show "0 < 1024 - length buf - 1 \<or> pre = xs" by simp
next
  fix buf pre d rest w' and a :: uans
  assume xs: "xs = pre @ d @ rest" and I: "(\<exists>post. xs = pre @ post) \<and> buf = snd (split_lines [] pre) \<and>
    w' = add_out 1 (grep_out re (fst (split_lines [] pre))) (set_fd fd (w_fds w' fd) w)"
    and a: "d \<noteq> []" "a_ret a = int (length d)" "a_data a = d"
  have nl: "newline \<notin> set buf" using I split_lines_rest by simp
  have sp: "split_lines [] (buf @ d) = split_lines buf d" using split_lines_acc [OF nl] by simp
  have z: "0 \<notin> set (buf @ d)" using I assms(3) split_lines_sub [of "[]" pre] unfolding xs by auto
  have w': "w' = add_out 1 (grep_out re (fst (split_lines [] pre))) (set_fd fd (w_fds w' fd) w)" using I by blast
  have w'': "set_fd fd (Some rest) w' = add_out 1 (grep_out re (fst (split_lines [] pre))) (set_fd fd (Some rest) w)"
    by (subst w') (simp add: set_fd_add_out)
  have buf: "snd (split_lines [] pre) = buf" using I by simp
  have "okP stdio (grep_lines re (buf @ a_data a)) (set_fd fd (Some rest) w')
      (\<lambda>p w''. p = snd (split_lines [] (pre @ d)) \<and>
         w'' = add_out 1 (grep_out re (fst (split_lines [] (pre @ d)))) (set_fd fd (Some rest) w)) E"
    unfolding a(3) w'' split_lines_append [of "[]" pre d] buf
    by (rule grep_lines_correct) (use assms(2) z in \<open>simp_all add: sp del: set_append\<close>)
  then show "okP stdio (if a_ret a > 0 then bindK (grep_lines re (buf @ a_data a)) (\<lambda>p. retK (Inl p)) else retK (Inr ()))
      (set_fd fd (Some rest) w')
      (\<lambda>r u. \<exists>v'. r = Inl v' \<and> ((\<exists>post. xs = (pre @ d) @ post) \<and> v' = snd (split_lines [] (pre @ d)) \<and>
         u = add_out 1 (grep_out re (fst (split_lines [] (pre @ d)))) (set_fd fd (w_fds u fd) w)) \<and> w_fds u fd = Some rest) E"
    using a xs by (auto intro!: okP_bind okP_ret elim!: okP_mono)
qed (use assms in \<open>auto intro: okP_ret\<close>)

text \<open>The loop of the filters over their file arguments: \<open>g\<close> is what one file adds to the output, \<open>msg\<close> the complaint about a missing one.\<close>

definition files_out :: "(u8 list \<Rightarrow> u8 list \<Rightarrow> u8 list) \<Rightarrow> uworld \<Rightarrow> u8 list list \<Rightarrow> u8 list" where
  "files_out g w fs = concat (map (\<lambda>f. g f (the (w_files w f))) fs)"

definition filter_end :: "(u8 list \<Rightarrow> u8 list \<Rightarrow> u8 list) \<Rightarrow> int \<Rightarrow> (u8 list \<Rightarrow> u8 list) \<Rightarrow> uworld \<Rightarrow> u8 list list \<Rightarrow>
    int \<Rightarrow> uworld \<Rightarrow> bool" where
  "filter_end g e msg w fs n w' \<longleftrightarrow>
     (case find (\<lambda>f. w_files w f = None) fs of
        None \<Rightarrow> n = 0 \<and> w' = add_out 1 (files_out g w fs) w
      | Some f \<Rightarrow> n = 1 \<and>
          w' = add_out e (msg f) (add_out 1 (files_out g w (takeWhile (\<lambda>f. w_files w f \<noteq> None) fs)) w))"

lemma filter_end_missing:
  assumes "fs = pre @ f # post" and "\<forall>x \<in> set pre. w_files w x \<noteq> None" and "w_files w f = None"
    and "w' = add_out e (msg f) (add_out 1 (files_out g w pre) w)"
  shows "filter_end g e msg w fs 1 w'"
proof -
  have "find (\<lambda>f. w_files w f = None) (pre @ f # post) = Some f"
    using assms(2,3) by (induction pre) auto
  moreover have "takeWhile (\<lambda>f. w_files w f \<noteq> None) (pre @ f # post) = pre"
    using assms(2,3) by (induction pre) auto
  ultimately show ?thesis using assms(1,4) by (simp add: filter_end_def)
qed

lemma okP_files:
  assumes P: "\<And>f fd xs u Q E. f \<in> set fs \<Longrightarrow> w_files w f = Some xs \<Longrightarrow> w_fds u fd = Some xs \<Longrightarrow>
      Q () (add_out 1 (g f xs) (set_fd fd (Some []) u)) \<Longrightarrow> okP stdio (P f fd) u Q E"
    and R: "\<And>f u Q E. Q () (add_out e (msg f) u) \<Longrightarrow> okP stdio (R f) u Q E"
  shows "okP stdio (thenK (forK fs (\<lambda>f. bindK (callU (SysOpen f 0)) (\<lambda>fd.
      if fd < 0 then thenK (R f) (exitU 1) else thenK (P f fd) (doU (SysClose fd))))) (exitU 0)) w
    (\<lambda>_ _. False) (filter_end g e msg w fs)"
proof (rule okP_then, rule okP_for [where I = "\<lambda>pre w'. (\<forall>f \<in> set pre. w_files w f \<noteq> None) \<and> w' = add_out 1 (files_out g w pre) w"])
  fix pre f rest u
  assume fs: "fs = pre @ f # rest" and I: "(\<forall>f \<in> set pre. w_files w f \<noteq> None) \<and> u = add_out 1 (files_out g w pre) w"
  show "okP stdio (bindK (callU (SysOpen f 0)) (\<lambda>fd. if fd < 0 then thenK (R f) (exitU 1)
        else thenK (P f fd) (doU (SysClose fd)))) u
      (\<lambda>_ w'. (\<forall>f \<in> set (pre @ [f]). w_files w f \<noteq> None) \<and> w' = add_out 1 (files_out g w (pre @ [f])) w)
      (filter_end g e msg w fs)"
  proof (cases "w_files w f")
    case None
    then have fin: "filter_end g e msg w fs 1 (add_out e (msg f) u)"
      using filter_end_missing [OF fs, of w] I by blast
    show ?thesis
      by (rule okP_bind, rule okP_call) (use None I fin in \<open>auto intro!: okP_then okP_exit R\<close>)
  next
    case (Some xs)
    have close: "okP stdio (doU (SysClose fd)) (add_out 1 (g f xs) (set_fd fd (Some []) (set_fd fd (Some xs) u)))
        (\<lambda>_ w'. w' = add_out 1 (files_out g w (pre @ [f])) w) E" if "w_fds w fd = None" for fd E
      by (rule okP_do) (use that Some I in \<open>auto simp: set_fd_add_out files_out_def\<close>)
    show ?thesis
    proof (rule okP_bind, rule okP_call)
      fix a v
      assume "stdio u (SysOpen f 0) a v"
      then have a: "0 \<le> a_ret a" "w_fds u (a_ret a) = None" "v = set_fd (a_ret a) (Some xs) u"
        using Some I by auto
      have "okP stdio (thenK (P f (a_ret a)) (doU (SysClose (a_ret a)))) v
          (\<lambda>_ w'. w' = add_out 1 (files_out g w (pre @ [f])) w) (filter_end g e msg w fs)"
        unfolding a(3) by (rule okP_then, rule P [OF _ Some]) (use fs I a close in auto)
      then show "okP stdio (if a_ret a < 0 then thenK (R f) (exitU 1) else thenK (P f (a_ret a)) (doU (SysClose (a_ret a)))) v
        (\<lambda>_ w'. (\<forall>f \<in> set (pre @ [f]). w_files w f \<noteq> None) \<and> w' = add_out 1 (files_out g w (pre @ [f])) w)
        (filter_end g e msg w fs)"
        using a(1) I Some by (auto elim!: okP_mono)
    qed simp
  qed
next
  fix u
  assume "(\<forall>f \<in> set fs. w_files w f \<noteq> None) \<and> u = add_out 1 (files_out g w fs) w"
  then show "okP stdio (exitU 0) u (\<lambda>_ _. False) (filter_end g e msg w fs)"
    by (auto intro!: okP_exit simp: filter_end_def find_None_iff split: option.split dest: find_Some_iff [THEN iffD1])
qed (simp add: files_out_def)

text \<open>Decimal numerals.\<close>

fun decimal :: "nat \<Rightarrow> u8 list" where
  "decimal n = (if n < 10 then [48 + of_nat n] else decimal (n div 10) @ [48 + of_nat (n mod 10)])"

declare decimal.simps [simp del]

lemma u_digits_nth: "k < 10 \<Longrightarrow> u_digits ! k = 48 + of_nat k"
proof -
  have "list_all (\<lambda>k. u_digits ! k = 48 + of_nat k) [0..<10]" by code_simp
  then show "k < 10 \<Longrightarrow> u_digits ! k = 48 + of_nat k" by (simp add: list_all_iff)
qed

lemma u_digit_loop_decimal: "rev (u_digit_loop 10 n) = decimal n"
proof (induction n rule: decimal.induct)
  case (1 n)
  show ?case
    by (subst u_digit_loop.simps, subst decimal.simps) (use 1 in \<open>auto simp: u_digits_nth div_eq_0_iff\<close>)
qed

lemma u_printint_decimal: "n < 2 ^ 31 \<Longrightarrow> u_printint (int n) 10 True = decimal n"
  by (simp add: u_printint_def u_digit_loop_decimal)

lemma va_int_count: "n < 2 ^ 31 \<Longrightarrow> va_int (VWord (ucast (of_nat n :: u32))) = int n"
  by (simp add: sint_uint unsigned_of_nat take_bit_nat_eq_self signed_take_bit_int_eq_self)

text \<open>Words: the positions where a character that is not a separator follows a separator or the start.\<close>

definition wc_sep :: "u8 \<Rightarrow> bool" where
  "wc_sep c \<longleftrightarrow> c \<in> {32, 13, 9, 10, 11}"

definition word_starts :: "u8 list \<Rightarrow> nat set" where
  "word_starts xs = {i. i < length xs \<and> \<not> wc_sep (xs ! i) \<and> (i = 0 \<or> wc_sep (xs ! (i - 1)))}"

lemma finite_word_starts [simp]: "finite (word_starts xs)"
  by (simp add: word_starts_def)

lemma word_starts_snoc:
  "word_starts (xs @ [c]) =
     (if \<not> wc_sep c \<and> (xs = [] \<or> wc_sep (last xs)) then insert (length xs) (word_starts xs) else word_starts xs)"
  by (cases "xs = []") (auto simp: word_starts_def nth_append last_conv_nth less_Suc_eq)

lemma length_not_start: "length xs \<notin> word_starts xs"
  by (simp add: word_starts_def)

lemma wc_sep_strchr: "u_strchr (str '' '' @ [13, 9, 10, 11]) b \<noteq> None \<longleftrightarrow> wc_sep b"
  by (auto simp: str_def wc_sep_def)

lemma wc_char_eq:
  "wc_char c \<lparr>wc_l = l, wc_w = n, wc_c = k, inword = b\<rparr> =
     \<lparr>wc_l = (if c = newline then l + 1 else l), wc_w = (if \<not> wc_sep c \<and> \<not> b then n + 1 else n),
      wc_c = k + 1, inword = (\<not> wc_sep c)\<rparr>"
  unfolding wc_char_def wc_sep_strchr Let_def by auto

lemma wc_fold:
  "fold wc_char xs \<lparr>wc_l = 0, wc_w = 0, wc_c = 0, inword = False\<rparr> =
     \<lparr>wc_l = of_nat (count_list xs newline), wc_w = of_nat (card (word_starts xs)), wc_c = of_nat (length xs),
      inword = (xs \<noteq> [] \<and> \<not> wc_sep (last xs))\<rparr>"
proof (induction xs rule: rev_induct)
  case (snoc c xs)
  show ?case
    unfolding fold_append fold_simps comp_def snoc wc_char_eq by (auto simp: word_starts_snoc length_not_start)
qed (simp add: word_starts_def)

definition wc_text :: "u8 list \<Rightarrow> u8 list \<Rightarrow> u8 list" where
  "wc_text name xs =
     decimal (count_list xs newline) @ str '' '' @ decimal (card (word_starts xs)) @ str '' '' @
     decimal (length xs) @ str '' '' @ name @ [newline]"

lemma card_word_starts: "card (word_starts xs) \<le> length xs"
proof -
  have "word_starts xs \<subseteq> {..<length xs}" by (auto simp: word_starts_def)
  then show ?thesis using card_mono [of "{..<length xs}" "word_starts xs"] by simp
qed

lemma wc_format:
  assumes "length xs < 2 ^ 31"
  shows "u_format False (str ''%d %d %d %s\<newline>'')
    [VWord (ucast (of_nat (count_list xs newline) :: u32)), VWord (ucast (of_nat (card (word_starts xs)) :: u32)),
     VWord (ucast (of_nat (length xs) :: u32)), VStr (Some name)] = wc_text name xs"
proof -
  have "count_list xs newline < 2 ^ 31" "card (word_starts xs) < 2 ^ 31"
    using assms card_word_starts [of xs] count_le_length [of xs newline] by linarith+
  then show ?thesis
    using assms by (simp add: str_def u_format.simps va_next_def va_int_count u_printint_decimal wc_text_def del: va_int.simps)
qed

lemma wc_correct:
  assumes "w_fds w fd = Some xs" and "length xs < 2 ^ 31"
    and "Q () (add_out 1 (wc_text name xs) (set_fd fd (Some []) w))"
  shows "okP stdio (wc fd name) w Q E"
  unfolding wc_def
proof (rule okP_bind, rule okP_read_loop [where n = "\<lambda>_. 512" and xs = xs and I = "\<lambda>v pre w'.
    v = fold wc_char pre \<lparr>wc_l = 0, wc_w = 0, wc_c = 0, inword = False\<rparr> \<and> w' = set_fd fd (w_fds w' fd) w"])
  fix v w' and a :: uans
  assume I: "v = fold wc_char xs \<lparr>wc_l = 0, wc_w = 0, wc_c = 0, inword = False\<rparr> \<and> w' = set_fd fd (w_fds w' fd) w"
    and w': "w_fds w' fd = Some []" and a: "a_ret a = 0"
  have v: "v = \<lparr>wc_l = of_nat (count_list xs newline), wc_w = of_nat (card (word_starts xs)), wc_c = of_nat (length xs),
      inword = (xs \<noteq> [] \<and> \<not> wc_sep (last xs))\<rparr>" using I wc_fold by simp
  have "okP stdio (u_printf ''%d %d %d %s\<newline>''
      [VWord (ucast (wc_l v)), VWord (ucast (wc_w v)), VWord (ucast (wc_c v)), VStr (Some name)]) w' Q E"
    unfolding u_printf_def v wcs.select_convs
    by (rule okP_vprintf) (use assms(2,3) I w' wc_format [of xs name] in auto)
  then show "okP stdio (if a_ret a > 0 then retK (Inl (fold wc_char (a_data a) v)) else retK (Inr (v, a_ret a))) w'
      (\<lambda>r u. \<exists>x. r = Inr x \<and> okP stdio ((\<lambda>(v, n). if n < 0 then thenK (u_printf ''wc: read error\<newline>'' []) (exitU 1)
         else u_printf ''%d %d %d %s\<newline>''
         [VWord (ucast (wc_l v)), VWord (ucast (wc_w v)), VWord (ucast (wc_c v)), VStr (Some name)]) x) u Q E) E"
    using a by (auto intro!: okP_ret)
qed (use assms in \<open>auto intro!: okP_ret\<close>)

section \<open>Properties\<close>

text \<open>
  C39: \<^verbatim>\<open>cat\<close> with file arguments ends whatever sizes the reads have: when all files exist it has written
  exactly their contents, in order, to descriptor 1, closed what it opened, and exits with 0; when one is
  missing it has written the files before it, complains about it on descriptor 2 and exits with 1.
\<close>

theorem cat_prints_files:
  "okP stdio (cat_main (name # f # fs)) w (\<lambda>_ _. False)
     (filter_end (\<lambda>f xs. xs) 2 (\<lambda>f. str ''cat: cannot open '' @ f @ [newline]) w (f # fs))"
proof -
  have fmt: "u_format False (str ''cat: cannot open %s\<newline>'') [VStr (Some x)] = str ''cat: cannot open '' @ x @ [newline]" for x
    by (simp add: str_def u_format.simps va_next_def)
  show ?thesis
    unfolding cat_main_def
    using okP_files [where fs = "f # fs" and w = w and g = "\<lambda>f xs. xs" and e = 2 and P = "\<lambda>_. cat"
        and R = "\<lambda>f. u_fprintf 2 ''cat: cannot open %s\<newline>'' [VStr (Some f)]"
        and msg = "\<lambda>f. str ''cat: cannot open '' @ f @ [newline]"]
    by (simp add: cat_copies u_fprintf_def okP_vprintf fmt del: forK.simps)
qed

text \<open>A world with two files and nothing open.\<close>

definition sample_world :: uworld where
  "sample_world = \<lparr>w_files = [str ''a'' \<mapsto> str ''ab c\<newline>d\<newline>'', str ''b'' \<mapsto> str ''abc\<newline>''],
     w_fds = \<lambda>_. None, w_out = \<lambda>_. []\<rparr>"

text \<open>
  C38: \<^verbatim>\<open>wc\<close> counts the whole file whatever sizes the reads have: it ends, and prints for each file the number
  of newlines, of words (maximal runs of characters other than blank, tab, newline, carriage return and
  vertical tab) and of bytes, and its name; a missing file is reported and ends it with exit code 1.
\<close>

theorem wc_counts_files:
  assumes "\<And>x xs. x \<in> set (f # fs) \<Longrightarrow> w_files w x = Some xs \<Longrightarrow> length xs < 2 ^ 31"
  shows "okP stdio (wc_main (name # f # fs)) w (\<lambda>_ _. False)
     (filter_end wc_text 1 (\<lambda>f. str ''wc: cannot open '' @ f @ [newline]) w (f # fs))"
proof -
  have fmt: "u_format False (str ''wc: cannot open %s\<newline>'') [VStr (Some x)] = str ''wc: cannot open '' @ x @ [newline]" for x
    by (simp add: str_def u_format.simps va_next_def)
  show ?thesis
    unfolding wc_main_def
    using okP_files [where fs = "f # fs" and w = w and g = wc_text and e = 1 and P = "\<lambda>f fd. wc fd f"
        and R = "\<lambda>f. u_printf ''wc: cannot open %s\<newline>'' [VStr (Some f)]"
        and msg = "\<lambda>f. str ''wc: cannot open '' @ f @ [newline]"] assms
    by (simp add: wc_correct u_printf_def okP_vprintf fmt del: forK.simps)
qed

theorem wc_counts_files_witness:
  "okP stdio (wc_main [str ''wc'', str ''a'']) sample_world (\<lambda>_ _. False)
     (\<lambda>n w'. n = 0 \<and> w_out w' 1 = str ''2 3 7 a\<newline>'')"
proof -
  have f: "w_files sample_world (str ''a'') = Some (str ''ab c\<newline>d\<newline>'')" by (simp add: sample_world_def str_def)
  have ws: "word_starts (str ''ab c\<newline>d\<newline>'') = {0, 3, 5}"
    by (auto simp: word_starts_def str_def wc_sep_def less_Suc_eq nth_Cons' split: if_splits)
  have wt: "wc_text (str ''a'') (str ''ab c\<newline>d\<newline>'') = str ''2 3 7 a\<newline>''"
    unfolding wc_text_def ws by (simp add: str_def decimal.simps)
  have "okP stdio (wc_main [str ''wc'', str ''a'']) sample_world (\<lambda>_ _. False)
     (filter_end wc_text 1 (\<lambda>f. str ''wc: cannot open '' @ f @ [newline]) sample_world [str ''a''])"
    by (rule wc_counts_files) (use f in \<open>auto simp: str_def\<close>)
  then show ?thesis
    by (rule okP_mono) (auto simp: filter_end_def f files_out_def wt, simp add: sample_world_def)
qed

text \<open>
  C36: the matcher of \<^verbatim>\<open>grep\<close> decides the language of its patterns: \<^verbatim>\<open>match\<close> is true exactly when some part of the
  text (the start of it after a caret, up to the end of it before a final dollar) is made of the
  characters and starred characters of the pattern, a dot standing for any character.
\<close>

theorem match_decides_language:
  assumes "0 \<notin> set re" and "0 \<notin> set ts"
  shows "match re ts \<longleftrightarrow> rx_match re ts"
  using assms by (rule match_rx)

theorem match_decides_language_witness:
  "rx_match (str ''^a.*c$'') (str ''abbc'') \<and> \<not> rx_match (str ''b*cd'') (str ''abbc'')"
proof -
  have "match (str ''^a.*c$'') (str ''abbc'')" "\<not> match (str ''b*cd'') (str ''abbc'')"
    by (simp_all add: str_def match_def match_from.simps matchhere.simps matchstar.simps)
  then show ?thesis
    using match_decides_language [of "str ''^a.*c$''" "str ''abbc''"] match_decides_language [of "str ''b*cd''" "str ''abbc''"]
    by (simp add: str_def)
qed

text \<open>
  C37: On files that hold no NUL and whose lines have at most 1022 bytes, \<^verbatim>\<open>grep\<close> prints exactly the lines
  that end in a newline and match, in order, whatever sizes the reads have; bytes after the last newline are not
  looked at. A missing file is reported and ends it with exit code 1.
\<close>

theorem grep_prints_matching_lines:
  assumes "0 \<notin> set re"
    and "\<And>x xs l. x \<in> set (f # fs) \<Longrightarrow> w_files w x = Some xs \<Longrightarrow> 0 \<notin> set xs \<and>
      (l \<in> insert (snd (split_lines [] xs)) (set (fst (split_lines [] xs))) \<longrightarrow> length l < 1023)"
  shows "okP stdio (grep_main (name # re # f # fs)) w (\<lambda>_ _. False)
     (filter_end (\<lambda>_ xs. grep_out re (fst (split_lines [] xs))) 1
        (\<lambda>f. str ''grep: cannot open '' @ f @ [newline]) w (f # fs))"
proof -
  have fmt: "u_format False (str ''grep: cannot open %s\<newline>'') [VStr (Some x)] = str ''grep: cannot open '' @ x @ [newline]" for x
    by (simp add: str_def u_format.simps va_next_def)
  have P: "okP stdio (grep re fd) u Q E"
    if "x \<in> set (f # fs)" "w_files w x = Some xs" "w_fds u fd = Some xs"
      "Q () (add_out 1 (grep_out re (fst (split_lines [] xs))) (set_fd fd (Some []) u))" for x fd xs u Q E
    by (rule grep_correct [OF that(3) assms(1)]) (use assms(2) [OF that(1,2)] that(4) in auto)
  have "okP stdio (thenK (forK (f # fs) (\<lambda>f. bindK (callU (SysOpen f 0)) (\<lambda>fd.
      if fd < 0 then thenK (u_printf ''grep: cannot open %s\<newline>'' [VStr (Some f)]) (exitU 1)
      else thenK (grep re fd) (doU (SysClose fd))))) (exitU 0)) w (\<lambda>_ _. False)
     (filter_end (\<lambda>_ xs. grep_out re (fst (split_lines [] xs))) 1
        (\<lambda>f. str ''grep: cannot open '' @ f @ [newline]) w (f # fs))"
    by (rule okP_files, rule P, assumption+) (simp add: u_printf_def okP_vprintf fmt)
  then show ?thesis by (simp add: grep_main_def Let_def del: forK.simps)
qed

theorem grep_prints_matching_lines_witness:
  "okP stdio (grep_main [str ''grep'', str ''^ab'', str ''a'', str ''b'']) sample_world (\<lambda>_ _. False)
     (\<lambda>n w'. n = 0 \<and> w_out w' 1 = str ''ab c\<newline>abc\<newline>'')"
proof -
  have f: "w_files sample_world (str ''a'') = Some (str ''ab c\<newline>d\<newline>'')"
    "w_files sample_world (str ''b'') = Some (str ''abc\<newline>'')" by (simp_all add: sample_world_def str_def)
  have m: "match (str ''^ab'') (str ''ab c'')" "match (str ''^ab'') (str ''abc'')" "\<not> match (str ''^ab'') (str ''d'')"
    by (simp_all add: str_def match_def matchhere.simps)
  then have "rx_match (str ''^ab'') (str ''ab c'')" "rx_match (str ''^ab'') (str ''abc'')" "\<not> rx_match (str ''^ab'') (str ''d'')"
    by (simp_all add: match_rx str_def)
  then have g: "grep_out (str ''^ab'') (fst (split_lines [] (str ''ab c\<newline>d\<newline>''))) = str ''ab c\<newline>''"
    "grep_out (str ''^ab'') (fst (split_lines [] (str ''abc\<newline>''))) = str ''abc\<newline>''"
    by (simp_all add: str_def)
  have "okP stdio (grep_main [str ''grep'', str ''^ab'', str ''a'', str ''b'']) sample_world (\<lambda>_ _. False)
     (filter_end (\<lambda>_ xs. grep_out (str ''^ab'') (fst (split_lines [] xs))) 1
        (\<lambda>f. str ''grep: cannot open '' @ f @ [newline]) sample_world [str ''a'', str ''b''])"
    by (rule grep_prints_matching_lines) (use f in \<open>auto simp: str_def\<close>)
  then show ?thesis
    by (rule okP_mono) (auto simp: filter_end_def f files_out_def g, simp_all add: sample_world_def str_def)
qed

end
