(* ===== verification/Shell.thy ===== *)
theory Shell
  imports User_Program "HOL-Library.Sublist"
begin

text \<open>
  \<^verbatim>\<open>user/sh.c\<close>. A pointer into the command line is the rest of the line from there on, so that reading at
  the end yields the NUL and \<^verbatim>\<open>s < es\<close> means that the rest is not empty. A parsed command holds its words
  as pairs of such pointers (\<^verbatim>\<open>argv[i]\<close> and \<^verbatim>\<open>eargv[i]\<close>); \<^verbatim>\<open>nulterminate\<close> cuts the line at their ends, after
  which a word is the string that starts at its pointer. \<^verbatim>\<open>panic\<close> of the shell prints its message and exits:
  in the parser it is the value \<open>Inl\<close>. The parser's routines call each other; \<open>None\<close> is running out of fuel,
  which does not happen with four units for every character and four more.
\<close>

section \<open>Commands\<close>

definition MAXARGS :: nat where "MAXARGS = 10"

definition O_RDONLY :: int where "O_RDONLY = 0"
definition O_WRONLY :: int where "O_WRONLY = 0x001"
definition O_RDWR :: int where "O_RDWR = 0x002"
definition O_CREATE :: int where "O_CREATE = 0x200"
definition O_TRUNC :: int where "O_TRUNC = 0x400"

datatype 'w cmd =
    EXEC "'w list" | REDIR "'w cmd" 'w int int | PIPE "'w cmd" "'w cmd" | LIST "'w cmd" "'w cmd" | BACK "'w cmd"

type_synonym token = "u8 list \<times> u8 list"

section \<open>Tokens\<close>

definition whitespace :: "u8 list" where "whitespace = str '' '' @ [9, 13, 10, 11]"
definition symbols :: "u8 list" where "symbols = str ''<|>&;()''"

definition is_ws :: "u8 \<Rightarrow> bool" where "is_ws c \<longleftrightarrow> u_strchr whitespace c \<noteq> None"
definition is_sym :: "u8 \<Rightarrow> bool" where "is_sym c \<longleftrightarrow> u_strchr symbols c \<noteq> None"

definition gettoken :: "u8 list \<Rightarrow> u8 \<times> token \<times> u8 list" where
  "gettoken s =
     (let s = dropWhile is_ws s; q = s; c = ch s;
          (ret, s) =
            (if c = 0 then (0, s)
             else if c \<in> {of_char CHR ''|'', of_char CHR ''('', of_char CHR '')'', of_char CHR '';'',
                          of_char CHR ''&'', of_char CHR ''<''} then (c, tl s)
             else if c = of_char CHR ''>''
             then (if ch (tl s) = of_char CHR ''>'' then (of_char CHR ''+'', tl (tl s)) else (c, tl s))
             else (of_char CHR ''a'', dropWhile (\<lambda>x. \<not> is_ws x \<and> \<not> is_sym x) s))
      in (ret, (q, s), dropWhile is_ws s))"

definition peek :: "u8 list \<Rightarrow> string \<Rightarrow> bool \<times> u8 list" where
  "peek s toks = (let s = dropWhile is_ws s in (ch s \<noteq> 0 \<and> u_strchr (str toks) (ch s) \<noteq> None, s))"

section \<open>Parser\<close>

type_synonym 'a parsed = "(string + 'a \<times> u8 list) option"

definition bindE :: "'a parsed \<Rightarrow> ('a \<Rightarrow> u8 list \<Rightarrow> 'b parsed) \<Rightarrow> 'b parsed" where
  "bindE m f = (case m of None \<Rightarrow> None | Some r \<Rightarrow> (case r of Inl e \<Rightarrow> Some (Inl e) | Inr (x, s) \<Rightarrow> f x s))"

definition okE :: "'a \<Rightarrow> u8 list \<Rightarrow> 'a parsed" where "okE x s = Some (Inr (x, s))"
definition panicE :: "string \<Rightarrow> 'a parsed" where "panicE msg = Some (Inl msg)"

text \<open>Every token but the end of the line is shorter than what it is taken from.\<close>

lemma is_ws_iff: "is_ws c \<longleftrightarrow> c \<in> {32, 9, 13, 10, 11}"
  by (auto simp: is_ws_def whitespace_def str_def)

lemma is_sym_iff: "is_sym c \<longleftrightarrow> c \<in> {60, 124, 62, 38, 59, 40, 41}"
  by (auto simp: is_sym_def symbols_def str_def)

lemma dropWhile_length: "length (dropWhile P x) \<le> length x"
  by (rule length_dropWhile_le)

lemma dropWhile_drops: "x \<noteq> [] \<Longrightarrow> P (hd x) \<Longrightarrow> length (dropWhile P x) < length x"
  using dropWhile_length [of P "tl x"] by (cases x) auto

lemma gettoken_length:
  assumes "gettoken s = (t, q, r)"
  shows "length r \<le> length s" and "t \<noteq> 0 \<Longrightarrow> length r < length s"
proof -
  define d where "d = dropWhile is_ws s"
  have e: "r = dropWhile is_ws (snd q)"
    using assms unfolding gettoken_def Let_def by (auto split: if_splits)
  have sh: "length (snd q) \<le> length d \<and> (t \<noteq> 0 \<longrightarrow> length (snd q) < length d)"
  proof (cases d)
    case Nil
    then show ?thesis using assms unfolding gettoken_def Let_def d_def [symmetric] by auto
  next
    case (Cons c d')
    have nw: "\<not> is_ws c" using hd_dropWhile [of is_ws s] Cons unfolding d_def by auto
    have "length (dropWhile (\<lambda>x. \<not> is_ws x \<and> \<not> is_sym x) d) \<le> length d'"
      if "c \<notin> {60, 124, 62, 38, 59, 40, 41}"
      using dropWhile_drops [of d "\<lambda>x. \<not> is_ws x \<and> \<not> is_sym x"] Cons nw that by (simp add: is_sym_iff)
    then show ?thesis
      using assms unfolding gettoken_def Let_def d_def [symmetric] Cons by (auto split: if_splits)
  qed
  have "length r \<le> length (snd q)" "length d \<le> length s" unfolding e d_def by (rule dropWhile_length)+
  then show "length r \<le> length s" and "t \<noteq> 0 \<Longrightarrow> length r < length s" using sh by linarith+
qed

lemma gettoken_0: "gettoken s = (t, q, r) \<Longrightarrow> t = 0 \<longleftrightarrow> ch (dropWhile is_ws s) = 0"
  unfolding gettoken_def Let_def by (auto split: if_splits)

lemma peek_length:
  assumes "peek s toks = (b, s')"
  shows "length s' \<le> length s" and "b \<Longrightarrow> gettoken s' = (t, q, r) \<Longrightarrow> length r < length s'"
proof -
  have s': "s' = dropWhile is_ws s" and b: "b \<Longrightarrow> ch s' \<noteq> 0" using assms by (auto simp: peek_def Let_def)
  then show "length s' \<le> length s" by (simp add: dropWhile_length)
  have "dropWhile is_ws s' = s'" unfolding s' by (induction s) auto
  then show "b \<Longrightarrow> gettoken s' = (t, q, r) \<Longrightarrow> length r < length s'"
    using gettoken_length(2) gettoken_0 b by metis
qed

abbreviation tok_kind :: "u8 \<times> token \<times> u8 list \<Rightarrow> u8" where "tok_kind g \<equiv> fst g"
abbreviation tok_word :: "u8 \<times> token \<times> u8 list \<Rightarrow> token" where "tok_word g \<equiv> fst (snd g)"
abbreviation tok_rest :: "u8 \<times> token \<times> u8 list \<Rightarrow> u8 list" where "tok_rest g \<equiv> snd (snd g)"

lemma peek_gettoken: "fst (peek s toks) \<Longrightarrow> length (tok_rest (gettoken (snd (peek s toks)))) < length s"
proof -
  assume b: "fst (peek s toks)"
  obtain s1 where p: "peek s toks = (True, s1)" using b by (cases "peek s toks") auto
  obtain t q r where g: "gettoken s1 = (t, q, r)" by (rule prod_cases3)
  show ?thesis using peek_length(1) [OF p] peek_length(2) [OF p _ g] p g by simp
qed

lemma gettoken_next: "length (tok_rest (gettoken s)) \<le> length s"
proof -
  obtain t q r where g: "gettoken s = (t, q, r)" by (rule prod_cases3)
  show ?thesis using gettoken_length(1) [OF g] g by simp
qed

function parseredirs :: "token cmd \<Rightarrow> u8 list \<Rightarrow> token cmd parsed" where
  "parseredirs c s =
     (let p = peek s ''<>'' in
      if \<not> fst p then okE c (snd p)
      else let g = gettoken (snd p); f = gettoken (tok_rest g) in
        if tok_kind f \<noteq> of_char CHR ''a'' then panicE ''missing file for redirection''
        else if tok_kind g = of_char CHR ''<'' then parseredirs (REDIR c (tok_word f) O_RDONLY 0) (tok_rest f)
        else if tok_kind g = of_char CHR ''>''
        then parseredirs (REDIR c (tok_word f) (or (or O_WRONLY O_CREATE) O_TRUNC) 1) (tok_rest f)
        else parseredirs (REDIR c (tok_word f) (or O_WRONLY O_CREATE) 1) (tok_rest f))"
  by pat_completeness auto
termination
proof (relation "measure (\<lambda>(c, s). length s)")
qed (auto intro: le_less_trans [OF gettoken_next peek_gettoken])

declare parseredirs.simps [simp del]

text \<open>\<^verbatim>\<open>cmd->argv[argc] = q\<close>: the execution command is shared by the redirections around it.\<close>

fun add_arg :: "'w \<Rightarrow> 'w cmd \<Rightarrow> 'w cmd" where
  "add_arg q (EXEC a) = EXEC (a @ [q])"
| "add_arg q (REDIR c f mode fd) = REDIR (add_arg q c) f mode fd"
| "add_arg q c = c"

function parseargs :: "nat \<Rightarrow> token cmd \<Rightarrow> u8 list \<Rightarrow> token cmd parsed" where
  "parseargs argc ret s =
     (let p = peek s ''|)&;'' in
      if fst p then okE ret (snd p)
      else let g = gettoken (snd p) in
        if tok_kind g = 0 then okE ret (tok_rest g)
        else if tok_kind g \<noteq> of_char CHR ''a'' then panicE ''syntax''
        else if argc + 1 \<ge> MAXARGS then panicE ''too many args''
        else bindE (parseredirs (add_arg (tok_word g) ret) (tok_rest g)) (\<lambda>ret s. parseargs (argc + 1) ret s))"
  by pat_completeness auto
termination
  by (relation "measure (\<lambda>(argc, ret, s). MAXARGS - argc)") auto

declare parseargs.simps [simp del]

function parseback :: "token cmd \<Rightarrow> u8 list \<Rightarrow> token cmd \<times> u8 list" where
  "parseback c s =
     (let p = peek s ''&'' in
      if fst p then parseback (BACK c) (tok_rest (gettoken (snd p))) else (c, snd p))"
  by pat_completeness auto
termination
  by (relation "measure (\<lambda>(c, s). length s)") (auto intro: peek_gettoken)

declare parseback.simps [simp del]

fun parseline :: "nat \<Rightarrow> u8 list \<Rightarrow> token cmd parsed"
  and parsepipe :: "nat \<Rightarrow> u8 list \<Rightarrow> token cmd parsed"
  and parseblock :: "nat \<Rightarrow> u8 list \<Rightarrow> token cmd parsed"
  and parseexec :: "nat \<Rightarrow> u8 list \<Rightarrow> token cmd parsed" where
  "parseline 0 s = None"
| "parseline (Suc n) s =
     bindE (parsepipe n s) (\<lambda>c s.
       let (c, s) = parseback c s; p = peek s '';'' in
       if fst p then bindE (parseline n (tok_rest (gettoken (snd p)))) (\<lambda>d s. okE (LIST c d) s)
       else okE c (snd p))"
| "parsepipe 0 s = None"
| "parsepipe (Suc n) s =
     bindE (parseexec n s) (\<lambda>c s.
       let p = peek s ''|'' in
       if fst p then bindE (parsepipe n (tok_rest (gettoken (snd p)))) (\<lambda>d s. okE (PIPE c d) s)
       else okE c (snd p))"
| "parseblock 0 s = None"
| "parseblock (Suc n) s =
     (let p = peek s ''('' in
      if \<not> fst p then panicE ''parseblock''
      else bindE (parseline n (tok_rest (gettoken (snd p)))) (\<lambda>c s.
        let p = peek s '')'' in
        if \<not> fst p then panicE ''syntax - missing )''
        else parseredirs c (tok_rest (gettoken (snd p)))))"
| "parseexec 0 s = None"
| "parseexec (Suc n) s =
     (let p = peek s ''('' in
      if fst p then parseblock n (snd p)
      else bindE (parseredirs (EXEC []) (snd p)) (\<lambda>ret s. parseargs 0 ret s))"

declare parseline.simps [simp del] parsepipe.simps [simp del] parseblock.simps [simp del] parseexec.simps [simp del]

text \<open>\<^verbatim>\<open>nulterminate\<close> on the buffer: a NUL is stored at the end of every word.\<close>

definition nul_at :: "u8 list \<Rightarrow> u8 list \<Rightarrow> u8 list" where
  "nul_at eq buf = buf[length buf - 1 - length eq := 0]"

primrec nulterminate :: "token cmd \<Rightarrow> u8 list \<Rightarrow> u8 list" where
  "nulterminate (EXEC argv) buf = fold (\<lambda>w. nul_at (snd w)) argv buf"
| "nulterminate (REDIR c f mode fd) buf = nul_at (snd f) (nulterminate c buf)"
| "nulterminate (PIPE l r) buf = nulterminate r (nulterminate l buf)"
| "nulterminate (LIST l r) buf = nulterminate r (nulterminate l buf)"
| "nulterminate (BACK c) buf = nulterminate c buf"

text \<open>The string at a pointer in a buffer that ends with a NUL.\<close>

definition str_at :: "u8 list \<Rightarrow> u8 list \<Rightarrow> u8 list" where
  "str_at buf p = (let r = drop (length buf - 1 - length p) buf in take (u_strlen r) r)"

text \<open>The errors of \<^verbatim>\<open>parsecmd\<close>: the characters it reports as left over, if any, and the message of the panic.\<close>

definition parsecmd :: "u8 list \<Rightarrow> (u8 list option \<times> string + u8 list cmd) option" where
  "parsecmd s =
     (case parseline (4 * length s + 4) s of
        None \<Rightarrow> None
      | Some (Inl e) \<Rightarrow> Some (Inl (None, e))
      | Some (Inr (c, r)) \<Rightarrow>
          if snd (peek r []) \<noteq> [] then Some (Inl (Some (snd (peek r [])), ''syntax''))
          else Some (Inr (map_cmd (\<lambda>w. str_at (nulterminate c (s @ [0])) (fst w)) c)))"

section \<open>Running commands\<close>

definition sh_panic :: "string \<Rightarrow> 'a U" where
  "sh_panic s = thenK (u_fprintf 2 ''%s\<newline>'' [VStr (Some (str s))]) (exitU 1)"

definition fork1 :: "int U" where
  "fork1 = bindK (callU SysFork) (\<lambda>pid. if pid = -1 then sh_panic ''fork'' else retK pid)"

text \<open>\<^verbatim>\<open>runcmd\<close> on the command with its words as strings; an \<^verbatim>\<open>exec\<close> that returns has failed.\<close>

primrec runcmd :: "u8 list cmd \<Rightarrow> unit U" where
  "runcmd (EXEC argv) =
     (if argv = [] then exitU 1
      else thenK (doU (SysExec (hd argv) argv))
        (thenK (u_fprintf 2 ''exec %s failed\<newline>'' [VStr (Some (hd argv))]) (exitU 0)))"
| "runcmd (REDIR c f mode fd) =
     thenK (doU (SysClose fd)) (bindK (callU (SysOpen f mode)) (\<lambda>r.
       if r < 0 then thenK (u_fprintf 2 ''open %s failed\<newline>'' [VStr (Some f)]) (exitU 1)
       else thenK (runcmd c) (exitU 0)))"
| "runcmd (PIPE l r) =
     bindK (sysU SysPipe) (\<lambda>a.
       if a_ret a < 0 then sh_panic ''pipe''
       else let p0 = fst (a_fds a); p1 = snd (a_fds a) in
         bindK fork1 (\<lambda>pid.
           thenK (whenK (pid = 0)
             (thenK (doU (SysClose 1)) (thenK (doU (SysDup p1)) (thenK (doU (SysClose p0))
               (thenK (doU (SysClose p1)) (runcmd l))))))
           (bindK fork1 (\<lambda>pid.
             thenK (whenK (pid = 0)
               (thenK (doU (SysClose 0)) (thenK (doU (SysDup p0)) (thenK (doU (SysClose p0))
                 (thenK (doU (SysClose p1)) (runcmd r))))))
             (thenK (doU (SysClose p0)) (thenK (doU (SysClose p1)) (thenK (doU SysWait) (thenK (doU SysWait) (exitU 0)))))))))"
| "runcmd (LIST l r) =
     bindK fork1 (\<lambda>pid. thenK (whenK (pid = 0) (runcmd l)) (thenK (doU SysWait) (thenK (runcmd r) (exitU 0))))"
| "runcmd (BACK c) = bindK fork1 (\<lambda>pid. thenK (whenK (pid = 0) (runcmd c)) (exitU 0))"

text \<open>\<^verbatim>\<open>getcmd\<close> returns \<open>None\<close> at the end of the input.\<close>

definition getcmd :: "nat \<Rightarrow> u8 list option U" where
  "getcmd nbuf =
     thenK (u_fprintf 2 ''$ '' []) (bindK (u_gets nbuf) (\<lambda>buf. retK (if ch buf = 0 then None else Some buf)))"

text \<open>
  One command line: \<^verbatim>\<open>cd\<close> is run by the shell itself, everything else by a child. The string ends at its
  first NUL; a syntax error makes the child print and exit.
\<close>

definition sh_line :: "u8 list \<Rightarrow> unit U" where
  "sh_line buf =
     (let s = take (u_strlen buf) buf in
      if take 3 buf = str ''cd ''
      then (let dir = drop 3 (butlast s) in
        bindK (callU (SysChdir dir)) (\<lambda>r.
          whenK (r < 0) (u_fprintf 2 ''cannot cd %s\<newline>'' [VStr (Some dir)])))
      else bindK fork1 (\<lambda>pid.
        thenK (whenK (pid = 0)
          (case parsecmd s of
             Some (Inr c) \<Rightarrow> runcmd c
           | Some (Inl (None, e)) \<Rightarrow> sh_panic e
           | Some (Inl (Some r, e)) \<Rightarrow> thenK (u_fprintf 2 ''leftovers: %s\<newline>'' [VStr (Some r)]) (sh_panic e)
           | None \<Rightarrow> panicK ''out of fuel''))
        (doU SysWait)))"

definition sh_main :: "unit U" where
  "sh_main =
     thenK (iterK (\<lambda>_. bindK (callU (SysOpen (str ''console'') O_RDWR)) (\<lambda>fd.
         if fd < 0 then retK (Inr ())
         else if fd \<ge> 3 then thenK (doU (SysClose fd)) (retK (Inr ())) else retK (Inl ()))) ())
     (iterK (\<lambda>_. bindK (getcmd 100) (\<lambda>r.
         case r of None \<Rightarrow> exitU 0 | Some buf \<Rightarrow> thenK (sh_line buf) (retK (Inl ())))) ())"

section \<open>Tokens and pointers\<close>

text \<open>A word of the line: it is not empty, has no blanks or symbols, and ends where one follows or the line ends.\<close>

definition word :: "token \<Rightarrow> u8 list" where
  "word w = take (length (fst w) - length (snd w)) (fst w)"

definition plain :: "u8 \<Rightarrow> bool" where
  "plain c \<longleftrightarrow> \<not> is_ws c \<and> \<not> is_sym c \<and> c \<noteq> 0"

definition tok_ok :: "u8 list \<Rightarrow> token \<Rightarrow> bool" where
  "tok_ok s w \<longleftrightarrow> suffix (fst w) s \<and> fst w = word w @ snd w \<and> word w \<noteq> [] \<and> list_all plain (word w) \<and>
     (snd w = [] \<or> \<not> plain (hd (snd w)))"

lemma suffix_dropWhile [simp]: "suffix (dropWhile P s) s"
  by (metis suffixI takeWhile_dropWhile_id)

lemma peek_suffix: "suffix (snd (peek s toks)) s"
  by (simp add: peek_def Let_def)

lemma gettoken_suffix: "suffix (tok_rest (gettoken s)) s"
proof -
  have "suffix (snd (tok_word (gettoken s))) (dropWhile is_ws s)"
    unfolding gettoken_def Let_def by (auto intro: suffix_tl suffix_order.trans [OF suffix_tl suffix_tl])
  moreover have "tok_rest (gettoken s) = dropWhile is_ws (snd (tok_word (gettoken s)))"
    unfolding gettoken_def Let_def by (auto split: if_splits)
  ultimately show ?thesis
    using suffix_order.trans [OF suffix_dropWhile [of is_ws "snd (tok_word (gettoken s))"]]
      suffix_order.trans [OF _ suffix_dropWhile [of is_ws s]] by simp
qed

lemma word_split: "x = a @ b \<Longrightarrow> word (x, b) = a"
  by (simp add: word_def)

lemma gettoken_word:
  assumes "tok_kind (gettoken s) = of_char CHR ''a''" and "0 \<notin> set s"
  shows "tok_ok s (tok_word (gettoken s))"
proof -
  let ?d = "dropWhile is_ws s" let ?P = "\<lambda>x. \<not> is_ws x \<and> \<not> is_sym x"
  have g: "tok_word (gettoken s) = (?d, dropWhile ?P ?d)" and c: "ch ?d \<notin> {0, 60, 124, 62, 38, 59, 40, 41}"
    using assms(1) unfolding gettoken_def Let_def by (auto split: if_splits)
  have w: "word (?d, dropWhile ?P ?d) = takeWhile ?P ?d"
    by (rule word_split) simp
  have ne: "?d \<noteq> []"
  proof
    assume "?d = []"
    then have "ch ?d = 0" by (simp only: ch_simps)
    then show False using c by blast
  qed
  then have "?P (hd ?d)" using c hd_dropWhile [OF ne] by (cases ?d) (auto simp: is_sym_iff)
  then have "takeWhile ?P ?d \<noteq> []" using ne by (cases ?d) auto
  moreover have "0 \<notin> set ?d" using assms(2) set_dropWhileD by fast
  then have "list_all plain (takeWhile ?P ?d)"
    unfolding list_all_iff plain_def using set_takeWhileD by fast
  moreover have "dropWhile ?P ?d = [] \<or> \<not> plain (hd (dropWhile ?P ?d))"
    using hd_dropWhile [of ?P ?d] by (auto simp: plain_def)
  ultimately show ?thesis unfolding g tok_ok_def w by simp
qed

lemma tok_ok_mono: "tok_ok s w \<Longrightarrow> suffix s t \<Longrightarrow> tok_ok t w"
  by (auto simp: tok_ok_def intro: suffix_order.trans)

section \<open>What the parser returns\<close>

definition tokens :: "u8 list \<Rightarrow> token cmd \<Rightarrow> bool" where
  "tokens s c \<longleftrightarrow> (\<forall>w \<in> set_cmd c. tok_ok s w)"

text \<open>The result of a routine: not out of fuel, the rest a suffix of the line, all words those of the line.\<close>

definition good :: "u8 list \<Rightarrow> u8 list \<Rightarrow> token cmd parsed \<Rightarrow> bool" where
  "good line s m \<longleftrightarrow> (\<exists>e. m = Some (Inl e)) \<or> (\<exists>c r. m = Some (Inr (c, r)) \<and> suffix r s \<and> tokens line c)"

lemma good_ok: "suffix r s \<Longrightarrow> tokens line c \<Longrightarrow> good line s (okE c r)"
  by (simp add: good_def okE_def)

lemma good_panic: "good line s (panicE msg)"
  by (simp add: good_def panicE_def)

lemma good_suffix: "good line r m \<Longrightarrow> suffix r s \<Longrightarrow> good line s m"
  unfolding good_def by (blast intro: suffix_order.trans)

lemma good_bind:
  assumes "good line s m" and "\<And>c r. suffix r s \<Longrightarrow> tokens line c \<Longrightarrow> good line r (f c r)"
  shows "good line s (bindE m f)"
proof -
  consider e where "m = Some (Inl e)" | c r where "m = Some (Inr (c, r))" "suffix r s" "tokens line c"
    using assms(1) unfolding good_def by blast
  then show ?thesis
  proof cases
    case 1
    then show ?thesis by (simp add: good_def bindE_def)
  next
    case 2
    then show ?thesis using good_suffix [OF assms(2) [OF 2(2,3)] 2(2)] by (simp add: bindE_def)
  qed
qed

lemma set_add_arg: "set_cmd (add_arg q c) \<subseteq> insert q (set_cmd c)"
  by (induction q c rule: add_arg.induct) auto

lemma parseredirs_good:
  assumes "0 \<notin> set line" and "suffix s line" and "tokens line c"
  shows "good line s (parseredirs c s)"
  using assms(2,3)
proof (induction c s rule: parseredirs.induct)
  case (1 c s)
  let ?p = "peek s ''<>''" let ?g = "gettoken (snd ?p)" let ?f = "gettoken (tok_rest ?g)"
  have s1: "suffix (snd ?p) s" by (rule peek_suffix)
  have s2: "suffix (tok_rest ?f) s"
    using s1 gettoken_suffix suffix_order.trans by blast
  have "suffix (tok_rest ?g) line" using s1 gettoken_suffix 1(4) suffix_order.trans by blast
  then have w: "tok_kind ?f = of_char CHR ''a'' \<Longrightarrow> tok_ok line (tok_word ?f)"
    using gettoken_word [of "tok_rest ?g"] assms(1) tok_ok_mono set_mono_suffix by blast
  have t: "tok_kind ?f = of_char CHR ''a'' \<Longrightarrow> tokens line (REDIR c (tok_word ?f) m fd)" for m fd
    using 1(5) w by (simp add: tokens_def)
  have s3: "suffix (tok_rest ?f) line" using s2 1(4) suffix_order.trans by blast
  show ?case
  proof (cases "fst ?p \<and> tok_kind ?f = of_char CHR ''a''")
    case True
    then have "good line (tok_rest ?f) (parseredirs (REDIR c (tok_word ?f) m fd) (tok_rest ?f))"
      if "(tok_kind ?g = of_char CHR ''<'' \<and> m = O_RDONLY \<and> fd = 0) \<or>
        (tok_kind ?g \<noteq> of_char CHR ''<'' \<and> tok_kind ?g = of_char CHR ''>'' \<and> m = or (or O_WRONLY O_CREATE) O_TRUNC \<and> fd = 1) \<or>
        (tok_kind ?g \<noteq> of_char CHR ''<'' \<and> tok_kind ?g \<noteq> of_char CHR ''>'' \<and> m = or O_WRONLY O_CREATE \<and> fd = 1)" for m fd
      using that "1.IH" [of ?p ?g ?f] s3 t by auto
    then show ?thesis
      by (subst parseredirs.simps) (use True s2 in \<open>auto simp: Let_def intro: good_suffix\<close>)
  next
    case False
    then show ?thesis
      by (subst parseredirs.simps) (use s1 1(5) in \<open>auto simp: Let_def intro: good_ok good_panic\<close>)
  qed
qed

lemma parseargs_good:
  assumes "0 \<notin> set line" and "suffix s line" and "tokens line c"
  shows "good line s (parseargs argc c s)"
  using assms(2,3)
proof (induction argc c s rule: parseargs.induct)
  case (1 argc c s)
  let ?p = "peek s ''|)&;''" let ?g = "gettoken (snd ?p)"
  have s1: "suffix (snd ?p) s" by (rule peek_suffix)
  then have s2: "suffix (tok_rest ?g) s" using gettoken_suffix suffix_order.trans by blast
  then have s3: "suffix (tok_rest ?g) line" using 1(2) suffix_order.trans by blast
  have "suffix (snd ?p) line" using s1 1(2) suffix_order.trans by blast
  then have w: "tok_kind ?g = of_char CHR ''a'' \<Longrightarrow> tok_ok line (tok_word ?g)"
    using gettoken_word [of "snd ?p"] assms(1) tok_ok_mono set_mono_suffix by blast
  show ?case
  proof (cases "\<not> fst ?p \<and> tok_kind ?g = of_char CHR ''a'' \<and> argc + 1 < MAXARGS")
    case True
    then have t: "tokens line (add_arg (tok_word ?g) c)"
      using w 1(3) set_add_arg [of "tok_word ?g" c] unfolding tokens_def by blast
    have "good line (tok_rest ?g) (bindE (parseredirs (add_arg (tok_word ?g) c) (tok_rest ?g)) (parseargs (argc + 1)))"
    proof (rule good_bind [OF parseredirs_good [OF assms(1) s3 t]])
      fix c' r
      assume "suffix r (tok_rest ?g)" "tokens line c'"
      moreover from this(1) have "suffix r line" using s3 suffix_order.trans by blast
      ultimately show "good line r (parseargs (argc + 1) c' r)" using "1.IH" [of ?p ?g] True by auto
    qed
    then show ?thesis
      by (subst parseargs.simps) (use True s2 in \<open>auto simp: Let_def intro: good_suffix\<close>)
  next
    case False
    then show ?thesis
      by (subst parseargs.simps) (use s1 s2 1(3) in \<open>auto simp: Let_def not_less intro: good_ok good_panic\<close>)
  qed
qed

lemma parseback_good:
  assumes "suffix s line" and "tokens line c"
  shows "suffix (snd (parseback c s)) s" and "tokens line (fst (parseback c s))"
  using assms
proof (induction c s rule: parseback.induct)
  case (1 c s)
  let ?p = "peek s ''&''" let ?r = "tok_rest (gettoken (snd ?p))"
  have s1: "suffix (snd ?p) s" by (rule peek_suffix)
  then have s2: "suffix ?r s" using gettoken_suffix suffix_order.trans by blast
  have s3: "suffix ?r line" if "suffix s line" using s2 that suffix_order.trans by blast
  { case 1
    then show ?case
      by (subst parseback.simps) (use "1.IH"(1) [of ?p] s1 s2 s3 in \<open>auto simp: Let_def tokens_def intro: suffix_order.trans\<close>) }
  { case 2
    then show ?case
      by (subst parseback.simps) (use "1.IH"(2) [of ?p] s3 in \<open>auto simp: Let_def tokens_def\<close>) }
qed

lemma peek_next:
  assumes "fst (peek r toks)" and "suffix r s" and "suffix s line"
  shows "suffix (tok_rest (gettoken (snd (peek r toks)))) line" "length (tok_rest (gettoken (snd (peek r toks)))) < length s"
    "suffix (tok_rest (gettoken (snd (peek r toks)))) r"
proof -
  show p: "suffix (tok_rest (gettoken (snd (peek r toks)))) r"
    using gettoken_suffix peek_suffix suffix_order.trans by blast
  then show "suffix (tok_rest (gettoken (snd (peek r toks)))) line" using assms suffix_order.trans by blast
  show "length (tok_rest (gettoken (snd (peek r toks)))) < length s"
    using peek_gettoken [OF assms(1)] suffix_length_le [OF assms(2)] by linarith
qed

lemma parse_good:
  assumes "0 \<notin> set line"
  shows "suffix s line \<Longrightarrow> 4 * length s + 4 \<le> n \<Longrightarrow> good line s (parseline n s)"
    and "suffix s line \<Longrightarrow> 4 * length s + 3 \<le> n \<Longrightarrow> good line s (parsepipe n s)"
    and "suffix s line \<Longrightarrow> 4 * length s + 1 \<le> n \<Longrightarrow> good line s (parseblock n s)"
    and "suffix s line \<Longrightarrow> 4 * length s + 2 \<le> n \<Longrightarrow> good line s (parseexec n s)"
proof (induction n s and n s and n s and n s rule: parseline_parsepipe_parseblock_parseexec.induct)
  case (2 n s)
  have "good line s (parsepipe n s)" using 2 by simp
  then show ?case
    unfolding parseline.simps
  proof (rule good_bind)
    fix c r
    assume r: "suffix r s" and c: "tokens line c"
    obtain c' r' where cr: "parseback c r = (c', r')" by fastforce
    have rl: "suffix r line" using r 2(3) suffix_order.trans by blast
    have r': "suffix r' r" "tokens line c'" using parseback_good [OF rl c] cr by auto
    let ?p = "peek r' '';''" let ?t = "tok_rest (gettoken (snd ?p))"
    have rs: "suffix r' s" using r'(1) r suffix_order.trans by blast
    have "good line r (if fst ?p then bindE (parseline n ?t) (\<lambda>d s. okE (LIST c' d) s) else okE c' (snd ?p))"
    proof (cases "fst ?p")
      case True
      note N = peek_next [OF True rs 2(3)]
      have "good line ?t (parseline n ?t)" using "2.IH"(2) [of "(c', r')" c r] cr True N 2(4) by simp
      then have "good line ?t (bindE (parseline n ?t) (\<lambda>d s. okE (LIST c' d) s))"
        by (rule good_bind) (use r'(2) in \<open>auto intro!: good_ok simp: tokens_def\<close>)
      moreover have "suffix ?t r" using N(3) r'(1) suffix_order.trans by blast
      ultimately show ?thesis using True good_suffix by auto
    next
      case False
      have "suffix (snd ?p) r" using peek_suffix r'(1) suffix_order.trans by blast
      then show ?thesis using False r'(2) by (simp add: good_ok)
    qed
    then show "good line r (let (c, s) = parseback c r; p = peek s '';'' in
        if fst p then bindE (parseline n (tok_rest (gettoken (snd p)))) (\<lambda>d s. okE (LIST c d) s) else okE c (snd p))"
      using cr by (simp add: Let_def)
  qed
next
  case (4 n s)
  have "good line s (parseexec n s)" using 4 by simp
  then show ?case
    unfolding parsepipe.simps Let_def
  proof (rule good_bind)
    fix c r
    assume r: "suffix r s" and c: "tokens line c"
    let ?p = "peek r ''|''" let ?t = "tok_rest (gettoken (snd ?p))"
    show "good line r (if fst ?p then bindE (parsepipe n ?t) (\<lambda>d s. okE (PIPE c d) s) else okE c (snd ?p))"
    proof (cases "fst ?p")
      case True
      note N = peek_next [OF True r 4(3)]
      have "good line ?t (parsepipe n ?t)" using "4.IH"(2) [of ?p] True N 4(4) by simp
      then have "good line ?t (bindE (parsepipe n ?t) (\<lambda>d s. okE (PIPE c d) s))"
        by (rule good_bind) (use c in \<open>auto intro!: good_ok simp: tokens_def\<close>)
      then show ?thesis using True N(3) good_suffix by auto
    next
      case False
      then show ?thesis using c peek_suffix by (simp add: good_ok)
    qed
  qed
next
  case (6 n s)
  let ?p = "peek s ''(''" let ?t = "tok_rest (gettoken (snd ?p))"
  show ?case
  proof (cases "fst ?p")
    case True
    note N = peek_next [OF True suffix_order.refl 6(2)]
    have "good line ?t (parseline n ?t)" using "6.IH" [of ?p] True N 6(3) by simp
    then have "good line ?t (bindE (parseline n ?t) (\<lambda>c s. let p = peek s '')'' in
        if \<not> fst p then panicE ''syntax - missing )'' else parseredirs c (tok_rest (gettoken (snd p)))))"
    proof (rule good_bind)
      fix c r
      assume r: "suffix r ?t" and c: "tokens line c"
      let ?q = "peek r '')''" let ?u = "tok_rest (gettoken (snd ?q))"
      show "good line r (let p = peek r '')'' in
        if \<not> fst p then panicE ''syntax - missing )'' else parseredirs c (tok_rest (gettoken (snd p))))"
      proof (cases "fst ?q")
        case True
        note M = peek_next [OF True r N(1)]
        show ?thesis using True good_suffix [OF parseredirs_good [OF assms M(1) c] M(3)] by (simp add: Let_def)
      qed (simp add: Let_def good_panic)
    qed
    then show ?thesis using True N(3) good_suffix by (auto simp: parseblock.simps Let_def)
  qed (simp add: parseblock.simps Let_def good_panic)
next
  case (8 n s)
  let ?p = "peek s ''(''"
  have p: "suffix (snd ?p) s" by (rule peek_suffix)
  then have pl: "suffix (snd ?p) line" using 8(2) suffix_order.trans by blast
  have "length (snd ?p) \<le> length s" using p by (rule suffix_length_le)
  then have b: "fst ?p \<Longrightarrow> good line (snd ?p) (parseblock n (snd ?p))" using "8.IH" [of ?p] pl 8(3) by simp
  have "good line (snd ?p) (bindE (parseredirs (EXEC []) (snd ?p)) (parseargs 0))"
  proof (rule good_bind [OF parseredirs_good [OF assms pl]])
    show "good line r (parseargs 0 c r)" if "suffix r (snd ?p)" "tokens line c" for c r
      using parseargs_good [OF assms suffix_order.trans [OF that(1) pl] that(2)] .
  qed (simp add: tokens_def)
  then show ?case using b p good_suffix by (auto simp: parseexec.simps Let_def)
qed simp_all

section \<open>Cutting the line\<close>

lemma length_nul_at [simp]: "length (nul_at eq buf) = length buf"
  by (simp add: nul_at_def)

lemma length_fold_nul [simp]: "length (fold (\<lambda>w. nul_at (snd w)) ws buf) = length buf"
  by (induction ws arbitrary: buf) simp_all

lemma length_nulterminate [simp]: "length (nulterminate c buf) = length buf"
  by (induction c arbitrary: buf) simp_all

definition nuls :: "nat \<Rightarrow> token set \<Rightarrow> nat set" where
  "nuls n W = (\<lambda>w. n - 1 - length (snd w)) ` W"

lemma nth_nul_at: "i < length buf \<Longrightarrow> nul_at (snd w) buf ! i = (if i \<in> nuls (length buf) {w} then 0 else buf ! i)"
  by (auto simp: nul_at_def nuls_def nth_list_update)

lemma nth_fold_nul:
  "i < length buf \<Longrightarrow> fold (\<lambda>w. nul_at (snd w)) ws buf ! i = (if i \<in> nuls (length buf) (set ws) then 0 else buf ! i)"
  by (induction ws arbitrary: buf) (auto simp: nth_nul_at nuls_def)

lemma nth_nulterminate:
  "i < length buf \<Longrightarrow> nulterminate c buf ! i = (if i \<in> nuls (length buf) (set_cmd c) then 0 else buf ! i)"
  by (induction c arbitrary: buf) (auto simp: nth_nul_at nth_fold_nul nuls_def)

lemma nth_suffix: "suffix x s \<Longrightarrow> j < length x \<Longrightarrow> s ! (length s - length x + j) = x ! j"
  by (auto simp: suffix_def nth_append)

lemma strlen_cut: "0 \<notin> set a \<Longrightarrow> u_strlen (a @ 0 # b) = length a"
  by (induction a) auto

lemma nul_not_plain:
  assumes "tok_ok s w" and "i \<in> nuls (length (s @ [0])) {w}"
  shows "i \<le> length s \<and> \<not> plain ((s @ [0]) ! i)"
proof -
  have i: "i = length s - length (snd w)" using assms(2) by (simp add: nuls_def)
  have sw: "suffix (snd w) s" using assms(1) unfolding tok_ok_def by (metis suffix_order.trans suffixI)
  show ?thesis
  proof (cases "snd w")
    case Nil
    then show ?thesis using i by (simp add: plain_def)
  next
    case (Cons c x)
    then have "\<not> plain c" using assms(1) unfolding tok_ok_def by simp
    moreover have "s ! i = c" using nth_suffix [OF sw, of 0] Cons i by simp
    moreover have "i < length s" using i Cons suffix_length_le [OF sw] by simp
    ultimately show ?thesis by (simp add: nth_append)
  qed
qed

lemma str_at_nulterminate:
  assumes "tokens s c" and "w \<in> set_cmd c"
  shows "str_at (nulterminate c (s @ [0])) (fst w) = word w"
proof -
  define B where "B = nulterminate c (s @ [0])"
  have w: "tok_ok s w" using assms by (simp add: tokens_def)
  then have sf: "suffix (fst w) s" and fs: "fst w = word w @ snd w" and pl: "list_all plain (word w)"
    unfolding tok_ok_def by blast+
  define q where "q = length s - length (fst w)"
  define k where "k = length (word w)"
  have lw: "length (fst w) = k + length (snd w)" unfolding k_def by (subst fs) simp
  have le: "q + k + length (snd w) = length s" using suffix_length_le [OF sf] lw by (simp add: q_def)
  have lB: "length B = length s + 1" by (simp add: B_def)
  have in_word: "B ! (q + j) = word w ! j" if "j < k" for j
  proof -
    have lt: "q + j < length s" using that le by simp
    have "fst w ! j = word w ! j" using that by (subst fs) (simp add: k_def nth_append)
    then have sj: "s ! (q + j) = word w ! j" using nth_suffix [OF sf, of j] that lw by (simp add: q_def)
    then have "plain (s ! (q + j))" using pl that by (simp add: list_all_length k_def)
    then have "q + j \<notin> nuls (length (s @ [0])) (set_cmd c)"
      using nul_not_plain assms(1) lt unfolding tokens_def nuls_def by (fastforce simp: nth_append)
    then show ?thesis using lt sj unfolding B_def by (simp add: nth_nulterminate nth_append)
  qed
  have at_end: "B ! (q + k) = 0"
  proof -
    have "q + k \<in> nuls (length (s @ [0])) (set_cmd c)"
      using assms(2) le unfolding nuls_def by (intro image_eqI [of _ _ w]) auto
    then show ?thesis using le unfolding B_def by (simp add: nth_nulterminate)
  qed
  have dr: "drop q B = word w @ 0 # drop (q + k + 1) B"
  proof (rule nth_equalityI)
    show "length (drop q B) = length (word w @ 0 # drop (q + k + 1) B)" using lB le by (simp add: k_def)
    fix i assume "i < length (drop q B)"
    then show "drop q B ! i = (word w @ 0 # drop (q + k + 1) B) ! i"
      using in_word [of i] at_end lB le by (auto simp: nth_append k_def nth_Cons')
  qed
  have "0 \<notin> set (word w)" using pl by (auto simp: list_all_iff plain_def)
  then show ?thesis
    using dr lB unfolding str_at_def B_def [symmetric] q_def [symmetric] Let_def
    by (simp add: q_def [symmetric] strlen_cut)
qed

lemma parsecmd_words:
  assumes "0 \<notin> set s" and "parseline (4 * length s + 4) s = Some (Inr (c, r))" and "snd (peek r []) = []"
  shows "parsecmd s = Some (Inr (map_cmd word c))"
proof -
  have "tokens s c" using parse_good(1) [OF assms(1) suffix_order.refl order.refl] assms(2) by (auto simp: good_def)
  then have "map_cmd (\<lambda>w. str_at (nulterminate c (s @ [0])) (fst w)) c = map_cmd word c"
    by (intro cmd.map_cong refl) (rule str_at_nulterminate)
  then show ?thesis using assms(2,3) by (simp add: parsecmd_def)
qed

section \<open>Printing commands\<close>

text \<open>
  A command as a line the shell accepts. The level says what the context takes without parentheses: 0 a
  list, 1 a background command, 2 a pipeline, 3 a simple command.
\<close>

definition redir_op :: "int \<Rightarrow> u8 list" where
  "redir_op mode = (if mode = O_RDONLY then str ''<'' else if mode = or O_WRONLY O_CREATE then str ''>>'' else str ''>'')"

definition paren :: "bool \<Rightarrow> u8 list \<Rightarrow> u8 list" where
  "paren b t = (if b then str ''( '' @ t @ str '') '' else t)"

definition argtext :: "u8 list list \<Rightarrow> u8 list" where
  "argtext ws = concat (map (\<lambda>w. w @ [32]) ws)"

definition redtext :: "(u8 list \<times> int \<times> int) list \<Rightarrow> u8 list" where
  "redtext rs = concat (map (\<lambda>(f, mode, fd). redir_op mode @ [32] @ f @ [32]) rs)"

primrec unparse :: "u8 list cmd \<Rightarrow> nat \<Rightarrow> u8 list" where
  "unparse (EXEC ws) lvl = argtext ws"
| "unparse (REDIR c f mode fd) lvl = unparse c 3 @ redtext [(f, mode, fd)]"
| "unparse (PIPE a b) lvl = paren (2 < lvl) (unparse a 3 @ str ''| '' @ unparse b 2)"
| "unparse (LIST a b) lvl = paren (0 < lvl) (unparse a 1 @ str ''; '' @ unparse b 0)"
| "unparse (BACK c) lvl = paren (1 < lvl) (unparse c 1 @ str ''& '')"

definition wf_word :: "u8 list \<Rightarrow> bool" where
  "wf_word w \<longleftrightarrow> w \<noteq> [] \<and> list_all plain w"

definition wf_redir :: "u8 list \<times> int \<times> int \<Rightarrow> bool" where
  "wf_redir r = (case r of (f, mode, fd) \<Rightarrow> wf_word f \<and>
     (mode = O_RDONLY \<and> fd = 0 \<or> mode = or (or O_WRONLY O_CREATE) O_TRUNC \<and> fd = 1 \<or> mode = or O_WRONLY O_CREATE \<and> fd = 1))"

primrec wf_cmd :: "u8 list cmd \<Rightarrow> bool" where
  "wf_cmd (EXEC ws) \<longleftrightarrow> list_all wf_word ws \<and> length ws < MAXARGS"
| "wf_cmd (REDIR c f mode fd) \<longleftrightarrow> wf_cmd c \<and> wf_redir (f, mode, fd)"
| "wf_cmd (PIPE a b) \<longleftrightarrow> wf_cmd a \<and> wf_cmd b"
| "wf_cmd (LIST a b) \<longleftrightarrow> wf_cmd a \<and> wf_cmd b"
| "wf_cmd (BACK c) \<longleftrightarrow> wf_cmd c"

subsection \<open>Tokens of printed text\<close>

abbreviation skip :: "u8 list \<Rightarrow> u8 list" where "skip \<equiv> dropWhile is_ws"

lemma skip_skip [simp]: "skip (skip s) = skip s"
  by (induction s) auto

lemma is_ws_blank [simp]: "is_ws 32"
  by (simp add: is_ws_iff)

lemma not_ws_sym [simp]:
  "\<not> is_ws 124" "\<not> is_ws 40" "\<not> is_ws 41" "\<not> is_ws 59" "\<not> is_ws 38" "\<not> is_ws 60" "\<not> is_ws 62"
  by (simp_all add: is_ws_iff)

lemma peek_skip [simp]: "peek (skip s) toks = peek s toks"
  by (simp add: peek_def)

lemma gettoken_skip [simp]: "gettoken (skip s) = gettoken s"
  by (simp add: gettoken_def)

lemma snd_peek [simp]: "snd (peek s toks) = skip s"
  by (simp add: peek_def Let_def)

lemma fst_peek: "fst (peek s toks) \<longleftrightarrow> ch (skip s) \<noteq> 0 \<and> u_strchr (str toks) (ch (skip s)) \<noteq> None"
  by (simp add: peek_def Let_def)

lemma plain_char: "plain c \<longleftrightarrow> c \<notin> {0, 32, 9, 13, 10, 11, 60, 124, 62, 38, 59, 40, 41}"
  by (auto simp: plain_def is_ws_iff is_sym_iff)

lemma skip_plain: "wf_word w \<Longrightarrow> skip (w @ s) = w @ s"
  by (cases w) (auto simp: wf_word_def plain_def)

lemma ch_word: "wf_word w \<Longrightarrow> plain (ch (w @ s))"
  by (cases w) (auto simp: wf_word_def)

lemma gettoken_wf_word:
  assumes "wf_word w"
  shows "gettoken (w @ 32 # s) = (of_char CHR ''a'', (w @ 32 # s, 32 # s), skip s)"
proof -
  have "dropWhile (\<lambda>x. \<not> is_ws x \<and> \<not> is_sym x) (w @ 32 # s) = 32 # s"
    using assms unfolding wf_word_def by (subst dropWhile_append2) (auto simp: list_all_iff plain_def is_ws_iff)
  then show ?thesis
    using ch_word [OF assms, of "32 # s"] unfolding gettoken_def Let_def skip_plain [OF assms]
    by (simp add: plain_char)
qed

lemma gettoken_sym:
  assumes "c \<in> {124, 40, 41, 59, 38, 60}"
  shows "tok_kind (gettoken (c # s)) = c" "tok_rest (gettoken (c # s)) = skip s"
proof -
  have "skip (c # s) = c # s" using assms by auto
  then show "tok_kind (gettoken (c # s)) = c" "tok_rest (gettoken (c # s)) = skip s"
    using assms unfolding gettoken_def Let_def by auto
qed

lemma gettoken_gt:
  "tok_kind (gettoken (62 # 32 # s)) = 62" "tok_rest (gettoken (62 # 32 # s)) = skip s"
  "tok_kind (gettoken (62 # 62 # s)) = 43" "tok_rest (gettoken (62 # 62 # s)) = skip s"
  unfolding gettoken_def Let_def by auto

lemma okE_inj [simp]: "okE a s = okE b t \<longleftrightarrow> a = b \<and> s = t"
  by (simp add: okE_def)

lemma bindE_ok [simp]: "bindE (okE c s) f = f c s"
  by (simp add: bindE_def okE_def)

lemma word_token: "word (w @ s, s) = w"
  by (rule word_split) simp

lemma map_add_arg: "map_cmd f (add_arg q c) = add_arg (f q) (map_cmd f c)"
  by (induction q c rule: add_arg.induct) auto

subsection \<open>Redirections and arguments\<close>

abbreviation redir :: "'w cmd \<Rightarrow> 'w \<times> int \<times> int \<Rightarrow> 'w cmd" where
  "redir c r \<equiv> REDIR c (fst r) (fst (snd r)) (snd (snd r))"

lemma O_consts: "O_RDONLY = 0" "or O_WRONLY O_CREATE = 513" "or 513 O_TRUNC = 1537"
  by (simp_all add: O_RDONLY_def O_WRONLY_def O_CREATE_def O_TRUNC_def)

lemma parseredirs_skip [simp]: "parseredirs c (skip s) = parseredirs c s"
  by (subst (1 2) parseredirs.simps) simp

lemma parseredirs_none: "ch (skip r) \<notin> {60, 62} \<Longrightarrow> parseredirs c r = okE c (skip r)"
  by (subst parseredirs.simps) (auto simp: fst_peek str_def)

lemma parseredirs_one:
  assumes "wf_redir (f, mode, fd)"
  shows "parseredirs c (redir_op mode @ 32 # f @ 32 # s) = parseredirs (REDIR c (f @ 32 # s, 32 # s) mode fd) s"
proof -
  have f: "wf_word f" and m: "mode = 0 \<and> fd = 0 \<or> mode = 1537 \<and> fd = 1 \<or> mode = 513 \<and> fd = 1"
    using assms by (auto simp: wf_redir_def O_consts)
  have sk: "skip (f @ 32 # s) = f @ 32 # s" by (rule skip_plain [OF f])
  from m show ?thesis
    by (elim disjE; subst parseredirs.simps)
      (auto simp: redir_op_def O_consts fst_peek str_def gettoken_sym gettoken_gt gettoken_wf_word [OF f] sk)
qed

lemma parseredirs_text:
  assumes "list_all wf_redir rs" and "ch (skip r) \<notin> {60, 62}"
  shows "\<exists>c'. parseredirs c (redtext rs @ r) = okE c' (skip r) \<and> map_cmd word c' = foldl redir (map_cmd word c) rs"
  using assms(1)
proof (induction rs arbitrary: c)
  case Nil
  then show ?case using parseredirs_none [OF assms(2)] by (simp add: redtext_def)
next
  case (Cons x rs)
  obtain f mode fd where x: "x = (f, mode, fd)" by (cases x)
  have wf: "wf_redir (f, mode, fd)" using Cons.prems x by simp
  have "redtext (x # rs) @ r = redir_op mode @ 32 # f @ 32 # redtext rs @ r" by (simp add: redtext_def x)
  then show ?case
    using Cons.IH [of "REDIR c (f @ 32 # redtext rs @ r, 32 # redtext rs @ r) mode fd"] Cons.prems
    by (simp add: parseredirs_one [OF wf] x word_token)
qed

lemma ch_skip_arg: "list_all wf_word ws \<Longrightarrow> ws \<noteq> [] \<Longrightarrow> plain (ch (skip (argtext ws @ s)))"
  by (cases ws) (auto simp: argtext_def skip_plain ch_word)

lemma parseargs_skip [simp]: "parseargs argc c (skip s) = parseargs argc c s"
  by (subst (1 2) parseargs.simps) simp

lemma parseargs_stop:
  assumes "ch (skip r) \<in> {0, 124, 41, 38, 59}"
  shows "parseargs argc c r = okE c (skip r)"
proof -
  have "ch (skip r) = 0 \<Longrightarrow> tok_kind (gettoken r) = 0 \<and> tok_rest (gettoken r) = skip r"
    unfolding gettoken_def Let_def by simp
  then show ?thesis using assms by (subst parseargs.simps) (auto simp: fst_peek str_def)
qed

lemma parseargs_text:
  assumes "list_all wf_redir rs" and "ch (skip r) \<in> {0, 124, 41, 38, 59}"
  shows "list_all wf_word ws \<Longrightarrow> ws \<noteq> [] \<or> rs = [] \<Longrightarrow> argc + length ws < MAXARGS \<Longrightarrow>
    \<exists>c'. parseargs argc c (argtext ws @ redtext rs @ r) = okE c' (skip r) \<and>
      map_cmd word c' = foldl redir (fold add_arg ws (map_cmd word c)) rs"
proof (induction ws arbitrary: argc c)
  case Nil
  then show ?case using parseargs_stop [OF assms(2)] by (simp add: argtext_def redtext_def)
next
  case (Cons w ws)
  have w: "wf_word w" using Cons.prems by simp
  let ?s = "argtext ws @ redtext rs @ r" let ?c = "add_arg (w @ 32 # ?s, 32 # ?s) c"
  have t: "argtext (w # ws) @ redtext rs @ r = w @ 32 # ?s" by (simp add: argtext_def)
  have "plain (ch (w @ 32 # ?s))" by (rule ch_word [OF w])
  then have st: "parseargs argc c (w @ 32 # ?s) = bindE (parseredirs ?c ?s) (parseargs (argc + 1))"
    using Cons.prems(3)
    by (subst parseargs.simps) (auto simp: fst_peek str_def skip_plain [OF w] gettoken_wf_word [OF w] plain_char Let_def)
  have mc: "map_cmd word ?c = add_arg w (map_cmd word c)" by (simp add: map_add_arg word_token)
  show ?case
  proof (cases "ws = []")
    case True
    have nr: "ch (skip r) \<notin> {60, 62}" using assms(2) by auto
    obtain c' where c': "parseredirs ?c (redtext rs @ r) = okE c' (skip r)"
      "map_cmd word c' = foldl redir (map_cmd word ?c) rs" using parseredirs_text [OF assms(1) nr] by blast
    have "parseargs argc c (w @ 32 # ?s) = parseargs (argc + 1) c' (skip r)"
      unfolding st using c'(1) True by (simp add: argtext_def)
    then show ?thesis using parseargs_stop [OF assms(2)] c'(2) True mc unfolding t by simp
  next
    case False
    have "plain (ch (skip ?s))" using ch_skip_arg [of ws] Cons.prems(1) False by simp
    then have "parseredirs ?c ?s = okE ?c (skip ?s)" by (intro parseredirs_none) (simp add: plain_char)
    then have "parseargs argc c (w @ 32 # ?s) = parseargs (argc + 1) ?c ?s"
      unfolding st by simp
    then show ?thesis using Cons.IH [of "argc + 1" ?c] Cons.prems False mc unfolding t by simp
  qed
qed

lemma fold_add_arg: "fold add_arg ws (EXEC a) = EXEC (a @ ws)"
  by (induction ws arbitrary: a) simp_all

subsection \<open>The levels of the grammar\<close>

text \<open>
  What each routine makes of a printed command: a simple command with further redirections, a pipeline, a
  pipeline with ampersands, a whole line. The text \<open>r\<close> that follows starts with a character that ends
  the construct.
\<close>

definition reads_exec :: "u8 list cmd \<Rightarrow> bool" where
  "reads_exec c \<longleftrightarrow> (\<forall>n rs r. list_all wf_redir rs \<longrightarrow> ch (skip r) \<in> {0, 124, 41, 38, 59} \<longrightarrow>
     4 * length (unparse c 3 @ redtext rs @ r) + 2 \<le> n \<longrightarrow>
     (\<exists>c'. parseexec n (unparse c 3 @ redtext rs @ r) = okE c' (skip r) \<and> map_cmd word c' = foldl redir c rs))"

definition reads_pipe :: "u8 list cmd \<Rightarrow> bool" where
  "reads_pipe c \<longleftrightarrow> (\<forall>n r. ch (skip r) \<in> {0, 41, 38, 59} \<longrightarrow> 4 * length (unparse c 2 @ r) + 3 \<le> n \<longrightarrow>
     (\<exists>c'. parsepipe n (unparse c 2 @ r) = okE c' (skip r) \<and> map_cmd word c' = c))"

definition amps :: "nat \<Rightarrow> u8 list" where
  "amps k = concat (replicate k (str ''& ''))"

definition reads_back :: "u8 list cmd \<Rightarrow> bool" where
  "reads_back c \<longleftrightarrow> (\<forall>n k r. ch (skip r) \<in> {0, 41, 59} \<longrightarrow> 4 * length (unparse c 1 @ amps k @ r) + 3 \<le> n \<longrightarrow>
     (\<exists>c' d s. parsepipe n (unparse c 1 @ amps k @ r) = okE d s \<and> parseback d s = (c', skip r) \<and>
        map_cmd word c' = (BACK ^^ k) c))"

definition reads_line :: "u8 list cmd \<Rightarrow> bool" where
  "reads_line c \<longleftrightarrow> (\<forall>n r. ch (skip r) \<in> {0, 41} \<longrightarrow> 4 * length (unparse c 0 @ r) + 4 \<le> n \<longrightarrow>
     (\<exists>c'. parseline n (unparse c 0 @ r) = okE c' (skip r) \<and> map_cmd word c' = c))"

lemma parsepipe_skip: "parsepipe n (skip s) = parsepipe n s" "parseexec n (skip s) = parseexec n s"
proof -
  show e: "parseexec m (skip s) = parseexec m s" for m by (cases m) (simp_all add: parseexec.simps)
  show "parsepipe n (skip s) = parsepipe n s" by (cases n) (simp_all add: parsepipe.simps e)
qed

lemma parseline_skip: "parseline n (skip s) = parseline n s"
  by (cases n) (simp_all add: parseline.simps parsepipe_skip)

lemma exec_pipe: "reads_exec c \<Longrightarrow> unparse c 2 = unparse c 3 \<Longrightarrow> reads_pipe c"
  unfolding reads_pipe_def
proof (intro allI impI)
  fix n r
  assume e: "reads_exec c" and u: "unparse c 2 = unparse c 3" and r: "ch (skip r) \<in> {0, 41, 38, 59}"
    and n: "4 * length (unparse c 2 @ r) + 3 \<le> n"
  obtain m where m: "n = Suc m" using n by (cases n) auto
  have "\<exists>c'. parseexec m (unparse c 3 @ redtext [] @ r) = okE c' (skip r) \<and> map_cmd word c' = foldl redir c []"
    using e r n u m unfolding reads_exec_def by (intro e [unfolded reads_exec_def, rule_format]) (auto simp: redtext_def)
  then obtain c' where c': "parseexec m (unparse c 3 @ r) = okE c' (skip r)" "map_cmd word c' = c" by (auto simp: redtext_def)
  have "\<not> fst (peek r ''|'')" using r by (auto simp: fst_peek str_def)
  then have "parsepipe n (unparse c 2 @ r) = okE c' (skip r)" unfolding m u parsepipe.simps by (simp add: c'(1))
  then show "\<exists>c'. parsepipe n (unparse c 2 @ r) = okE c' (skip r) \<and> map_cmd word c' = c" using c'(2) by blast
qed

lemma parseback_amps:
  "ch (skip r) \<noteq> 38 \<Longrightarrow> parseback c (amps k @ r) = ((BACK ^^ k) c, skip r)"
proof (induction k arbitrary: c)
  case 0
  then show ?case by (subst parseback.simps) (auto simp: amps_def fst_peek str_def)
next
  case (Suc k)
  have bs: "parseback c (skip s) = parseback c s" for c s by (subst (1 2) parseback.simps) simp
  have "amps (Suc k) @ r = 38 # 32 # amps k @ r" by (simp add: amps_def str_def)
  then have "parseback c (amps (Suc k) @ r) = parseback (BACK c) (amps k @ r)"
    by (subst parseback.simps) (simp add: fst_peek str_def gettoken_sym Let_def bs)
  then show ?case using Suc by (simp add: funpow_swap1)
qed

lemma map_back: "map_cmd f ((BACK ^^ k) c) = (BACK ^^ k) (map_cmd f c)"
  by (induction k) simp_all

lemma pipe_back: "reads_pipe c \<Longrightarrow> unparse c 1 = unparse c 2 \<Longrightarrow> reads_back c"
  unfolding reads_back_def
proof (intro allI impI)
  fix n k r
  assume p: "reads_pipe c" and u: "unparse c 1 = unparse c 2" and r: "ch (skip r) \<in> {0, 41, 59}"
    and n: "4 * length (unparse c 1 @ amps k @ r) + 3 \<le> n"
  have "ch (skip (amps k @ r)) \<in> {0, 41, 38, 59}" using r by (cases k) (auto simp: amps_def str_def)
  then obtain c' where c': "parsepipe n (unparse c 2 @ amps k @ r) = okE c' (skip (amps k @ r))" "map_cmd word c' = c"
    using p n unfolding reads_pipe_def u by blast
  have "parseback c' (skip (amps k @ r)) = ((BACK ^^ k) c', skip r)"
  proof -
    have "parseback c' (skip s) = parseback c' s" for s by (subst (1 2) parseback.simps) simp
    then show ?thesis using parseback_amps [of r c' k] r by auto
  qed
  then show "\<exists>c' d s. parsepipe n (unparse c 1 @ amps k @ r) = okE d s \<and> parseback d s = (c', skip r) \<and>
        map_cmd word c' = (BACK ^^ k) c"
    unfolding u using c' map_back by (metis (no_types, lifting))
qed

lemma back_line: "reads_back c \<Longrightarrow> unparse c 0 = unparse c 1 \<Longrightarrow> reads_line c"
  unfolding reads_line_def
proof (intro allI impI)
  fix n r
  assume b: "reads_back c" and u: "unparse c 0 = unparse c 1" and r: "ch (skip r) \<in> {0, 41}"
    and n: "4 * length (unparse c 0 @ r) + 4 \<le> n"
  obtain m where m: "n = Suc m" using n by (cases n) auto
  have "ch (skip r) \<in> {0, 41, 59}" "4 * length (unparse c 1 @ amps 0 @ r) + 3 \<le> m" using r n m u by (auto simp: amps_def)
  then obtain c' d s where h: "parsepipe m (unparse c 1 @ amps 0 @ r) = okE d s" "parseback d s = (c', skip r)"
    "map_cmd word c' = (BACK ^^ 0) c" using b unfolding reads_back_def by blast
  have "\<not> fst (peek r '';'')" using r by (auto simp: fst_peek str_def)
  then have "parseline n (unparse c 0 @ r) = okE c' (skip r)"
    using h(1,2) unfolding m u parseline.simps by (simp add: amps_def)
  then show "\<exists>c'. parseline n (unparse c 0 @ r) = okE c' (skip r) \<and> map_cmd word c' = c" using h(3) by auto
qed

lemma line_exec: "reads_line c \<Longrightarrow> unparse c 3 = paren True (unparse c 0) \<Longrightarrow> reads_exec c"
  unfolding reads_exec_def
proof (intro allI impI)
  fix n rs r
  assume l: "reads_line c" and u: "unparse c 3 = paren True (unparse c 0)" and rs: "list_all wf_redir rs"
    and r: "ch (skip r) \<in> {0, 124, 41, 38, 59}" and n: "4 * length (unparse c 3 @ redtext rs @ r) + 2 \<le> n"
  obtain k where k: "n = Suc (Suc k)" using n by (cases n; cases "n - 1") auto
  let ?r = "41 # 32 # redtext rs @ r"
  have t: "unparse c 3 @ redtext rs @ r = 40 # 32 # unparse c 0 @ ?r" by (simp add: u paren_def str_def)
  have "ch (skip ?r) \<in> {0, 41}" "4 * length (unparse c 0 @ ?r) + 4 \<le> k" using n unfolding t k by auto
  then obtain c' where c': "parseline k (unparse c 0 @ ?r) = okE c' (skip ?r)" "map_cmd word c' = c"
    using l unfolding reads_line_def by blast
  have "ch (skip r) \<notin> {60, 62}" using r by auto
  then obtain d where d: "parseredirs c' (redtext rs @ r) = okE d (skip r)" "map_cmd word d = foldl redir c rs"
    using parseredirs_text [OF rs] c'(2) by blast
  have "parseexec n (unparse c 3 @ redtext rs @ r) = okE d (skip r)"
    unfolding t k parseexec.simps
    by (simp add: fst_peek str_def Let_def parseblock.simps gettoken_sym parseline_skip c'(1) d(1))
  then show "\<exists>c'. parseexec n (unparse c 3 @ redtext rs @ r) = okE c' (skip r) \<and> map_cmd word c' = foldl redir c rs"
    using d(2) by blast
qed

lemma exec_words:
  assumes "list_all wf_word ws" and "length ws < MAXARGS"
  shows "reads_exec (EXEC ws)"
  unfolding reads_exec_def
proof (intro allI impI)
  fix n rs r
  assume rs: "list_all wf_redir rs" and r: "ch (skip r) \<in> {0, 124, 41, 38, 59}"
    and n: "4 * length (unparse (EXEC ws) 3 @ redtext rs @ r) + 2 \<le> n"
  let ?s = "argtext ws @ redtext rs @ r"
  obtain m where m: "n = Suc m" using n by (cases n) auto
  have r': "ch (skip r) \<notin> {60, 62}" using r by auto
  have "\<exists>c'. bindE (parseredirs (EXEC []) ?s) (parseargs 0) = okE c' (skip r) \<and> map_cmd word c' = foldl redir (EXEC ws) rs"
  proof (cases "ws = []")
    case True
    obtain c' where "parseredirs (EXEC []) (redtext rs @ r) = okE c' (skip r)" "map_cmd word c' = foldl redir (EXEC []) rs"
      using parseredirs_text [OF rs r', of "EXEC []"] by auto
    then show ?thesis using True parseargs_stop [OF r] by (simp add: argtext_def)
  next
    case False
    have "ch (skip ?s) \<notin> {60, 62}" using ch_skip_arg [OF assms(1) False, of "redtext rs @ r"] by (simp add: plain_char)
    then have "parseredirs (EXEC []) ?s = okE (EXEC []) (skip ?s)" by (rule parseredirs_none)
    then show ?thesis
      using parseargs_text [OF rs r assms(1), of 0 "EXEC []"] False assms(2) by (simp add: fold_add_arg)
  qed
  moreover have "\<not> fst (peek ?s ''('')"
  proof (cases "ws = [] \<and> rs = []")
    case True
    then show ?thesis using r by (auto simp: fst_peek str_def argtext_def redtext_def)
  next
    case False
    have "ch (skip ?s) \<noteq> 40"
    proof (cases "ws = []")
      case True
      then obtain f mode fd rs' where "rs = (f, mode, fd) # rs'" using False by (cases rs) auto
      then show ?thesis using True by (simp add: argtext_def redtext_def redir_op_def str_def)
    next
      case False
      then show ?thesis using ch_skip_arg [OF assms(1) False, of "redtext rs @ r"] by (simp add: plain_char)
    qed
    then show ?thesis by (simp add: fst_peek str_def)
  qed
  ultimately show "\<exists>c'. parseexec n (unparse (EXEC ws) 3 @ redtext rs @ r) = okE c' (skip r) \<and>
      map_cmd word c' = foldl redir (EXEC ws) rs"
    unfolding m parseexec.simps unparse.simps by (simp add: Let_def)
qed

lemma exec_redir:
  assumes "reads_exec c" and "wf_redir (f, mode, fd)"
  shows "reads_exec (REDIR c f mode fd)"
  unfolding reads_exec_def
proof (intro allI impI)
  fix n rs r
  assume h: "list_all wf_redir rs" "ch (skip r) \<in> {0, 124, 41, 38, 59}"
    "4 * length (unparse (REDIR c f mode fd) 3 @ redtext rs @ r) + 2 \<le> n"
  have t: "unparse (REDIR c f mode fd) 3 @ redtext rs @ r = unparse c 3 @ redtext ((f, mode, fd) # rs) @ r"
    by (simp add: redtext_def)
  have "\<exists>c'. parseexec n (unparse c 3 @ redtext ((f, mode, fd) # rs) @ r) = okE c' (skip r) \<and>
      map_cmd word c' = foldl redir c ((f, mode, fd) # rs)"
    by (rule assms(1) [unfolded reads_exec_def, rule_format]) (use h(1,2) h(3) [unfolded t] assms(2) in simp_all)
  then show "\<exists>c'. parseexec n (unparse (REDIR c f mode fd) 3 @ redtext rs @ r) = okE c' (skip r) \<and>
      map_cmd word c' = foldl redir (REDIR c f mode fd) rs"
    unfolding t by simp
qed

lemma pipe_pipe:
  assumes "reads_exec a" and "reads_pipe b"
  shows "reads_pipe (PIPE a b)"
  unfolding reads_pipe_def
proof (intro allI impI)
  fix n r
  assume r: "ch (skip r) \<in> {0, 41, 38, 59}" and n: "4 * length (unparse (PIPE a b) 2 @ r) + 3 \<le> n"
  obtain m where m: "n = Suc m" using n by (cases n) auto
  let ?r = "124 # 32 # unparse b 2 @ r"
  have t: "unparse (PIPE a b) 2 @ r = unparse a 3 @ redtext [] @ ?r" by (simp add: paren_def str_def redtext_def)
  have "\<exists>c'. parseexec m (unparse a 3 @ redtext [] @ ?r) = okE c' (skip ?r) \<and> map_cmd word c' = foldl redir a []"
    by (rule assms(1) [unfolded reads_exec_def, rule_format]) (use n [unfolded t m] in simp_all)
  then obtain a' where a': "parseexec m (unparse a 3 @ redtext [] @ ?r) = okE a' ?r" "map_cmd word a' = a" by auto
  have "4 * length (unparse b 2 @ r) + 3 \<le> m" using n unfolding t m by simp
  then obtain b' where b': "parsepipe m (unparse b 2 @ r) = okE b' (skip r)" "map_cmd word b' = b"
    using assms(2) r unfolding reads_pipe_def by blast
  have "parsepipe n (unparse (PIPE a b) 2 @ r) = okE (PIPE a' b') (skip r)"
    unfolding t m parsepipe.simps a'(1) by (simp add: fst_peek str_def Let_def gettoken_sym parsepipe_skip b'(1))
  then show "\<exists>c'. parsepipe n (unparse (PIPE a b) 2 @ r) = okE c' (skip r) \<and> map_cmd word c' = PIPE a b"
    using a'(2) b'(2) by auto
qed

lemma back_back:
  assumes "reads_back c"
  shows "reads_back (BACK c)"
  unfolding reads_back_def
proof (intro allI impI)
  fix n k r
  assume r: "ch (skip r) \<in> {0, 41, 59}" and n: "4 * length (unparse (BACK c) 1 @ amps k @ r) + 3 \<le> n"
  have t: "unparse (BACK c) 1 @ amps k @ r = unparse c 1 @ amps (Suc k) @ r" by (simp add: paren_def amps_def)
  have "\<exists>c' d s. parsepipe n (unparse c 1 @ amps (Suc k) @ r) = okE d s \<and> parseback d s = (c', skip r) \<and>
        map_cmd word c' = (BACK ^^ Suc k) c"
    using assms r n unfolding t reads_back_def by blast
  then show "\<exists>c' d s. parsepipe n (unparse (BACK c) 1 @ amps k @ r) = okE d s \<and> parseback d s = (c', skip r) \<and>
        map_cmd word c' = (BACK ^^ k) (BACK c)"
    unfolding t by (simp add: funpow_swap1)
qed

lemma line_list:
  assumes "reads_back a" and "reads_line b"
  shows "reads_line (LIST a b)"
  unfolding reads_line_def
proof (intro allI impI)
  fix n r
  assume r: "ch (skip r) \<in> {0, 41}" and n: "4 * length (unparse (LIST a b) 0 @ r) + 4 \<le> n"
  obtain m where m: "n = Suc m" using n by (cases n) auto
  let ?r = "59 # 32 # unparse b 0 @ r"
  have t: "unparse (LIST a b) 0 @ r = unparse a 1 @ amps 0 @ ?r" by (simp add: paren_def str_def amps_def)
  have "ch (skip ?r) \<in> {0, 41, 59}" "4 * length (unparse a 1 @ amps 0 @ ?r) + 3 \<le> m" using n unfolding t m by auto
  then obtain a' d s where a': "parsepipe m (unparse a 1 @ amps 0 @ ?r) = okE d s" "parseback d s = (a', skip ?r)"
    "map_cmd word a' = (BACK ^^ 0) a" using assms(1) unfolding reads_back_def by blast
  have "4 * length (unparse b 0 @ r) + 4 \<le> m" using n unfolding t m by simp
  then obtain b' where b': "parseline m (unparse b 0 @ r) = okE b' (skip r)" "map_cmd word b' = b"
    using assms(2) r unfolding reads_line_def by blast
  have "parseline n (unparse (LIST a b) 0 @ r) = okE (LIST a' b') (skip r)"
    unfolding t m parseline.simps a'(1)
    by (simp add: a'(2) fst_peek str_def Let_def gettoken_sym parseline_skip b'(1))
  then show "\<exists>c'. parseline n (unparse (LIST a b) 0 @ r) = okE c' (skip r) \<and> map_cmd word c' = LIST a b"
    using a'(3) b'(2) by auto
qed

lemma reads_all: "wf_cmd c \<Longrightarrow> reads_exec c \<and> reads_pipe c \<and> reads_back c \<and> reads_line c"
proof (induction c)
  case (EXEC ws)
  then have "reads_exec (EXEC ws)" by (simp add: exec_words)
  then show ?case using exec_pipe pipe_back back_line by simp
next
  case (REDIR c f mode fd)
  then have "reads_exec (REDIR c f mode fd)" by (simp add: exec_redir)
  then show ?case using exec_pipe pipe_back back_line by simp
next
  case (PIPE a b)
  then have p: "reads_pipe (PIPE a b)" by (simp add: pipe_pipe)
  then have b: "reads_back (PIPE a b)" by (rule pipe_back) (simp add: paren_def)
  then have l: "reads_line (PIPE a b)" by (rule back_line) (simp add: paren_def)
  then show ?case using p b line_exec [OF l] by (simp add: paren_def)
next
  case (LIST a b)
  then have l: "reads_line (LIST a b)" by (simp add: line_list)
  then have e: "reads_exec (LIST a b)" by (rule line_exec) (simp add: paren_def)
  then have p: "reads_pipe (LIST a b)" by (rule exec_pipe) (simp add: paren_def)
  then show ?case using l e pipe_back [OF p] by (simp add: paren_def)
next
  case (BACK c)
  then have b: "reads_back (BACK c)" by (simp add: back_back)
  then have l: "reads_line (BACK c)" by (rule back_line) (simp add: paren_def)
  then have e: "reads_exec (BACK c)" by (rule line_exec) (simp add: paren_def)
  then show ?case using b l exec_pipe [OF e] by (simp add: paren_def)
qed

lemma unparse_no_nul: "wf_cmd c \<Longrightarrow> 0 \<notin> set (unparse c lvl)"
proof -
  have w: "0 \<notin> set w" if "wf_word w" for w using that by (auto simp: wf_word_def list_all_iff plain_def)
  show "wf_cmd c \<Longrightarrow> 0 \<notin> set (unparse c lvl)"
    by (induction c arbitrary: lvl)
      (auto simp: argtext_def redtext_def redir_op_def paren_def str_def list_all_iff wf_redir_def dest: w)
qed

section \<open>Properties\<close>

text \<open>
  C33: the parser of the shell ends on every line without exhausting its fuel (four units for each character and
  four more), so \<^verbatim>\<open>parsecmd\<close> either panics or returns a command; and every word of a command it returns is a
  nonempty run of characters of the line that are neither blanks nor symbols, exactly the string found at
  its pointer after \<^verbatim>\<open>nulterminate\<close> has cut the line.
\<close>

theorem parser_ends:
  assumes "0 \<notin> set s"
  shows "parsecmd s \<noteq> None \<and>
    (\<forall>c. parsecmd s = Some (Inr c) \<longrightarrow> (\<forall>w \<in> set_cmd c. wf_word w \<and> sublist w s))"
proof -
  have g: "good s s (parseline (4 * length s + 4) s)" by (rule parse_good(1) [OF assms]) simp_all
  then consider e where "parseline (4 * length s + 4) s = Some (Inl e)"
    | c r where "parseline (4 * length s + 4) s = Some (Inr (c, r))" "tokens s c" unfolding good_def by blast
  then show ?thesis
  proof cases
    case 1
    then show ?thesis by (simp add: parsecmd_def)
  next
    case 2
    have w: "wf_word (word w) \<and> sublist (word w) s" if "w \<in> set_cmd c" for w
    proof -
      have t: "tok_ok s w" using 2(2) that by (simp add: tokens_def)
      then have "suffix (word w @ snd w) s" unfolding tok_ok_def by metis
      then have "sublist (word w) s" unfolding suffix_def sublist_def by auto
      then show ?thesis using t unfolding tok_ok_def wf_word_def by blast
    qed
    show ?thesis
    proof (cases "snd (peek r []) = []")
      case True
      then show ?thesis using parsecmd_words [OF assms 2(1)] w by (auto simp: cmd.set_map)
    next
      case False
      then show ?thesis using 2(1) by (simp add: parsecmd_def)
    qed
  qed
qed

theorem parser_ends_witness: "parsecmd (str ''ls | wc > out &'') \<noteq> None"
  using parser_ends [of "str ''ls | wc > out &''"] by (simp add: str_def)

text \<open>
  C34: printing and parsing are inverse: for every command, however its lists, pipelines, background commands,
  redirections and blocks are nested, that has fewer than ten words in each simple command, \<^verbatim>\<open>parsecmd\<close> of the
  line that prints it returns that command.
\<close>

theorem parse_unparse:
  assumes "wf_cmd c"
  shows "parsecmd (unparse c 0) = Some (Inr c)"
proof -
  obtain c' where c': "parseline (4 * length (unparse c 0) + 4) (unparse c 0) = okE c' []" "map_cmd word c' = c"
    using reads_all [OF assms] unfolding reads_line_def
    by (metis append_Nil2 ch_simps(1) dropWhile.simps(1) insertI1 order.refl)
  show ?thesis
    using parsecmd_words [OF unparse_no_nul [OF assms], of 0 c' "[]"] c' by (simp add: okE_def)
qed

theorem parse_unparse_witness:
  "parsecmd (str ''( a b > f | c ; d & ) < g '') =
     Some (Inr (REDIR (LIST (PIPE (REDIR (EXEC [str ''a'', str ''b'']) (str ''f'') (or (or O_WRONLY O_CREATE) O_TRUNC) 1) (EXEC [str ''c'']))
        (BACK (EXEC [str ''d'']))) (str ''g'') O_RDONLY 0))"
proof -
  let ?c = "REDIR (LIST (PIPE (REDIR (EXEC [str ''a'', str ''b'']) (str ''f'') (or (or O_WRONLY O_CREATE) O_TRUNC) 1) (EXEC [str ''c'']))
        (BACK (EXEC [str ''d'']))) (str ''g'') O_RDONLY 0"
  have "wf_cmd ?c" by (simp add: wf_word_def wf_redir_def plain_char str_def MAXARGS_def)
  moreover have "unparse ?c 0 = str ''( a b > f | c ; d & ) < g ''"
    by (simp add: paren_def argtext_def redtext_def redir_op_def O_consts str_def)
  ultimately show ?thesis using parse_unparse [of ?c] by simp
qed

lemma okP_for_any: "(\<And>x w. okP h (f x) w (\<lambda>_ _. True) (\<lambda>_ _. True)) \<Longrightarrow> okP h (forK xs f) w (\<lambda>_ _. True) (\<lambda>_ _. True)"
  by (rule okP_for [where I = "\<lambda>_ _. True"]) auto

lemma okP_print: "(\<And>w. Q () w) \<Longrightarrow> okP h (u_fprintf fd fmt ap) w Q (\<lambda>_ _. True)"
  unfolding u_fprintf_def u_vprintf_def u_putc_def
  by (rule okP_mono [OF okP_for_any]) (auto intro!: okP_do)

lemma okP_always: "okP h m w (\<lambda>_ _. False) E \<Longrightarrow> okP h m w Q E"
  by (erule okP_mono) auto

lemma okP_panic: "okP h (sh_panic msg) w Q (\<lambda>_ _. True)"
  unfolding sh_panic_def by (auto intro!: okP_then okP_print okP_exit)

lemma okP_fork1: "(\<And>x w. Q x w) \<Longrightarrow> okP h fork1 w Q (\<lambda>_ _. True)"
  unfolding fork1_def by (auto intro!: okP_bind okP_call okP_panic okP_ret)

lemma okP_whenU: "(c \<Longrightarrow> okP h m w (\<lambda>_ _. False) E) \<Longrightarrow> (\<not> c \<Longrightarrow> Q () w) \<Longrightarrow> okP h (whenK c m) w Q E"
  by (auto simp: whenK_def intro: okP_ret okP_always)

lemmas okP_rules = okP_then okP_bind okP_print okP_exit okP_panic okP_fork1 okP_whenU okP_do okP_call okP_sys

text \<open>
  C35: \<^verbatim>\<open>runcmd\<close> never returns to its caller: on every path, whatever the kernel answers to its system calls, it
  ends by exiting, after finitely many calls.
\<close>

theorem runcmd_never_returns: "okP h (runcmd c) w (\<lambda>_ _. False) (\<lambda>_ _. True)"
proof (induction c arbitrary: w)
  case (EXEC argv)
  show ?case by (auto intro!: okP_rules)
next
  case (REDIR c f mode fd)
  show ?case by (auto intro!: okP_rules okP_always [OF REDIR])
next
  case (PIPE l r)
  show ?case by (auto simp: Let_def intro!: okP_rules okP_always [OF PIPE(1)] okP_always [OF PIPE(2)])
next
  case (LIST l r)
  show ?case by (auto intro!: okP_rules okP_always [OF LIST(1)] okP_always [OF LIST(2)])
next
  case (BACK c)
  show ?case by (auto intro!: okP_rules okP_always [OF BACK])
qed

end
