(* ===== verification/Virtio.thy ===== *)
theory Virtio
  imports Kernel_State Ring
begin

text \<open>
  \<^verbatim>\<open>kernel/virtio_disk.c\<close>: the driver of the disk and the rings it shares with the device. Any number of
  processes are inside \<^verbatim>\<open>virtio_disk_rw\<close>; the parts of the routines between two points where \<^verbatim>\<open>vdisk_lock\<close> is
  given up (\<^verbatim>\<open>sleep\<close> and \<^verbatim>\<open>release\<close>) are single steps. A pointer that the driver hands to the device is the
  object it points to. The device is not part of the kernel: it is the relation \<open>dev\<close>, of which the
  theorems assume what the virtio specification says of a block device (\<open>virtio_spec\<close>): it takes the heads
  of chains from the available ring, carries out the requests in any order, stores a status and puts
  the heads on the used ring. The status is 0 when it has transferred the data; it may also report an error, with
  which the data it was to store are unknown. It may make its steps at any time, so the writes of the registers that notify it and
  that acknowledge the interrupt are not part of the state; a process that sleeps may go on at any time, which
  includes every time it is woken.
\<close>

section \<open>State\<close>

definition NUM :: nat where "NUM = 8"

definition VRING_DESC_F_NEXT :: u16 where "VRING_DESC_F_NEXT = 1"
definition VRING_DESC_F_WRITE :: u16 where "VRING_DESC_F_WRITE = 2"
definition VIRTIO_BLK_T_IN :: u32 where "VIRTIO_BLK_T_IN = 0"
definition VIRTIO_BLK_T_OUT :: u32 where "VIRTIO_BLK_T_OUT = 1"

text \<open>The objects the driver points the device to: a command header, a buffer's data, a status byte.\<close>

datatype vaddr = VNull | VOp nat | VData nat | VStatus nat

record virtq_desc =
  vaddr :: vaddr
  vlen :: u32
  vflags :: u16
  vnext :: u16

record virtio_blk_req =
  rtype :: u32
  rreserved :: u32
  rsector :: u64

record vinfo =
  ibuf :: "nat option"
  istatus :: u8

record virtq_avail =
  av_idx :: u16
  av_ring :: "u16 list"

record virtq_used =
  us_idx :: u16
  us_ring :: "u32 list"

text \<open>\<^verbatim>\<open>struct disk\<close>; the arrays \<^verbatim>\<open>desc\<close>, \<^verbatim>\<open>free\<close>, \<^verbatim>\<open>info\<close> and \<^verbatim>\<open>ops\<close> are functions of the index.\<close>

record vdisk =
  vdesc :: "nat \<Rightarrow> virtq_desc"
  avail :: virtq_avail
  used :: virtq_used
  vfree :: "nat \<Rightarrow> bool"
  used_idx :: u16
  vinf :: "nat \<Rightarrow> vinfo"
  vops :: "nat \<Rightarrow> virtio_blk_req"

section \<open>Initialisation\<close>

text \<open>
  The registers of the device, by their offset. Reading one is the device's answer \<open>R\<close>; the writes are
  collected in their order. The result is the message of a panic or the initial state; \<^verbatim>\<open>pages\<close> is the
  address of the memory of the rings, which \<^verbatim>\<open>memset\<close> has cleared.
\<close>

definition VIRTIO_MMIO_MAGIC_VALUE :: u32 where "VIRTIO_MMIO_MAGIC_VALUE = 0x000"
definition VIRTIO_MMIO_VERSION :: u32 where "VIRTIO_MMIO_VERSION = 0x004"
definition VIRTIO_MMIO_DEVICE_ID :: u32 where "VIRTIO_MMIO_DEVICE_ID = 0x008"
definition VIRTIO_MMIO_VENDOR_ID :: u32 where "VIRTIO_MMIO_VENDOR_ID = 0x00C"
definition VIRTIO_MMIO_DEVICE_FEATURES :: u32 where "VIRTIO_MMIO_DEVICE_FEATURES = 0x010"
definition VIRTIO_MMIO_DRIVER_FEATURES :: u32 where "VIRTIO_MMIO_DRIVER_FEATURES = 0x020"
definition VIRTIO_MMIO_GUEST_PAGE_SIZE :: u32 where "VIRTIO_MMIO_GUEST_PAGE_SIZE = 0x028"
definition VIRTIO_MMIO_QUEUE_SEL :: u32 where "VIRTIO_MMIO_QUEUE_SEL = 0x030"
definition VIRTIO_MMIO_QUEUE_NUM_MAX :: u32 where "VIRTIO_MMIO_QUEUE_NUM_MAX = 0x034"
definition VIRTIO_MMIO_QUEUE_NUM :: u32 where "VIRTIO_MMIO_QUEUE_NUM = 0x038"
definition VIRTIO_MMIO_QUEUE_PFN :: u32 where "VIRTIO_MMIO_QUEUE_PFN = 0x040"
definition VIRTIO_MMIO_STATUS :: u32 where "VIRTIO_MMIO_STATUS = 0x070"
definition VIRTIO_CONFIG_S_ACKNOWLEDGE :: u32 where "VIRTIO_CONFIG_S_ACKNOWLEDGE = 1"
definition VIRTIO_CONFIG_S_DRIVER :: u32 where "VIRTIO_CONFIG_S_DRIVER = 2"
definition VIRTIO_CONFIG_S_DRIVER_OK :: u32 where "VIRTIO_CONFIG_S_DRIVER_OK = 4"
definition VIRTIO_CONFIG_S_FEATURES_OK :: u32 where "VIRTIO_CONFIG_S_FEATURES_OK = 8"
definition VIRTIO_BLK_F_RO :: nat where "VIRTIO_BLK_F_RO = 5"
definition VIRTIO_BLK_F_SCSI :: nat where "VIRTIO_BLK_F_SCSI = 7"
definition VIRTIO_BLK_F_CONFIG_WCE :: nat where "VIRTIO_BLK_F_CONFIG_WCE = 11"
definition VIRTIO_BLK_F_MQ :: nat where "VIRTIO_BLK_F_MQ = 12"
definition VIRTIO_F_ANY_LAYOUT :: nat where "VIRTIO_F_ANY_LAYOUT = 27"
definition VIRTIO_RING_F_INDIRECT_DESC :: nat where "VIRTIO_RING_F_INDIRECT_DESC = 28"
definition VIRTIO_RING_F_EVENT_IDX :: nat where "VIRTIO_RING_F_EVENT_IDX = 29"

definition desc0 :: virtq_desc where
  "desc0 = \<lparr>vaddr = VNull, vlen = 0, vflags = 0, vnext = 0\<rparr>"

definition features_of :: "u32 \<Rightarrow> u32" where
  "features_of f = foldl (\<lambda>f k. f AND NOT (push_bit k 1)) f
     [VIRTIO_BLK_F_RO, VIRTIO_BLK_F_SCSI, VIRTIO_BLK_F_CONFIG_WCE, VIRTIO_BLK_F_MQ, VIRTIO_F_ANY_LAYOUT,
      VIRTIO_RING_F_EVENT_IDX, VIRTIO_RING_F_INDIRECT_DESC]"

definition virtio_disk_init :: "(u32 \<Rightarrow> u32) \<Rightarrow> u64 \<Rightarrow> vdisk \<Rightarrow> (u32 \<times> u32) list \<times> (string + vdisk)" where
  "virtio_disk_init R pages d =
     (if R VIRTIO_MMIO_MAGIC_VALUE \<noteq> 0x74726976 \<or> R VIRTIO_MMIO_VERSION \<noteq> 1 \<or>
         R VIRTIO_MMIO_DEVICE_ID \<noteq> 2 \<or> R VIRTIO_MMIO_VENDOR_ID \<noteq> 0x554D4551
      then ([], Inl ''could not find virtio disk'')
      else let s1 = VIRTIO_CONFIG_S_ACKNOWLEDGE; s2 = s1 OR VIRTIO_CONFIG_S_DRIVER;
          s3 = s2 OR VIRTIO_CONFIG_S_FEATURES_OK; s4 = s3 OR VIRTIO_CONFIG_S_DRIVER_OK;
          ws = [(VIRTIO_MMIO_STATUS, s1), (VIRTIO_MMIO_STATUS, s2),
                (VIRTIO_MMIO_DRIVER_FEATURES, features_of (R VIRTIO_MMIO_DEVICE_FEATURES)),
                (VIRTIO_MMIO_STATUS, s3), (VIRTIO_MMIO_STATUS, s4),
                (VIRTIO_MMIO_GUEST_PAGE_SIZE, 4096), (VIRTIO_MMIO_QUEUE_SEL, 0)];
          maxq = R VIRTIO_MMIO_QUEUE_NUM_MAX in
        if maxq = 0 then (ws, Inl ''virtio disk has no queue 0'')
        else if maxq < of_nat NUM then (ws, Inl ''virtio disk max queue too short'')
        else (ws @ [(VIRTIO_MMIO_QUEUE_NUM, of_nat NUM), (VIRTIO_MMIO_QUEUE_PFN, ucast (drop_bit 12 pages))],
              Inr (d\<lparr>vdesc := (\<lambda>_. desc0), avail := \<lparr>av_idx = 0, av_ring = replicate NUM 0\<rparr>,
                     used := \<lparr>us_idx = 0, us_ring = replicate NUM 0\<rparr>,
                     vfree := (\<lambda>i. if i < NUM then True else vfree d i)\<rparr>)))"

section \<open>Descriptors\<close>

definition alloc_desc :: "vdisk \<Rightarrow> nat option \<times> vdisk" where
  "alloc_desc d =
     (case find (vfree d) [0..<NUM] of
        None \<Rightarrow> (None, d)
      | Some i \<Rightarrow> (Some i, d\<lparr>vfree := (vfree d)(i := False)\<rparr>))"

text \<open>\<open>Inl\<close> is the message of the panic.\<close>

definition free_desc :: "nat \<Rightarrow> vdisk \<Rightarrow> string + vdisk" where
  "free_desc i d =
     (if i \<ge> NUM then Inl ''free_desc 1''
      else if vfree d i then Inl ''free_desc 2''
      else Inr (d\<lparr>vdesc := (vdesc d)(i := desc0), vfree := (vfree d)(i := True)\<rparr>))"

text \<open>Freeing a chain ends even when the chain is a cycle: the second visit of a descriptor panics.\<close>

function free_chain :: "nat \<Rightarrow> vdisk \<Rightarrow> string + vdisk" where
  "free_chain i d =
     (let flag = vflags (vdesc d i); nxt = unat (vnext (vdesc d i)) in
      case free_desc i d of
        Inl e \<Rightarrow> Inl e
      | Inr d' \<Rightarrow> if flag AND VRING_DESC_F_NEXT \<noteq> 0 then free_chain nxt d' else Inr d')"
  by pat_completeness auto
termination
proof (relation "measure (\<lambda>(i, d). card {j. j < NUM \<and> \<not> vfree d j})")
  fix i d flag nxt d'
  assume "free_desc i d = Inr d'"
  then have "i < NUM" "\<not> vfree d i" "vfree d' = (vfree d)(i := True)"
    by (auto simp: free_desc_def split: if_splits)
  then have "{j. j < NUM \<and> \<not> vfree d' j} \<subset> {j. j < NUM \<and> \<not> vfree d j}" by auto
  then have "card {j. j < NUM \<and> \<not> vfree d' j} < card {j. j < NUM \<and> \<not> vfree d j}" by (intro psubset_card_mono) simp
  then show "((nxt, d'), i, d) \<in> measure (\<lambda>(i, d). card {j. j < NUM \<and> \<not> vfree d j})" by simp
qed simp

declare free_chain.simps [simp del]

fun free_all :: "nat list \<Rightarrow> vdisk \<Rightarrow> string + vdisk" where
  "free_all [] d = Inr d"
| "free_all (i # is) d = (case free_desc i d of Inl e \<Rightarrow> Inl e | Inr d' \<Rightarrow> free_all is d')"

text \<open>The loop of \<^verbatim>\<open>alloc3_desc\<close> with \<open>n\<close> rounds to go; \<open>None\<close> is the return value -1.\<close>

fun alloc_loop :: "nat \<Rightarrow> nat list \<Rightarrow> vdisk \<Rightarrow> string + nat list option \<times> vdisk" where
  "alloc_loop 0 idx d = Inr (Some idx, d)"
| "alloc_loop (Suc n) idx d =
     (case alloc_desc d of
        (None, d) \<Rightarrow> (case free_all idx d of Inl e \<Rightarrow> Inl e | Inr d \<Rightarrow> Inr (None, d))
      | (Some i, d) \<Rightarrow> alloc_loop n (idx @ [i]) d)"

definition alloc3_desc :: "vdisk \<Rightarrow> string + nat list option \<times> vdisk" where
  "alloc3_desc d = alloc_loop 3 [] d"

section \<open>Requests\<close>

text \<open>
  The driver, the buffers as far as the driver uses them, the disk's sectors of 512 bytes, and the device's
  place in the available ring with the heads of the chains it is working on. \<open>vthr\<close> says where each
  process is in \<^verbatim>\<open>virtio_disk_rw\<close>; \<open>vdead\<close> holds the message of a panic. \<open>dev_status\<close> records every status the
  device has reported; no step looks at it.
\<close>

datatype vpc =
    VIdle
  | VAsk nat bool "u8 list \<times> u8 list"
  | VWait nat bool nat "u8 list \<times> u8 list"
  | VDone nat bool "u8 list \<times> u8 list"

record vsys =
  vd :: vdisk
  vdata :: "nat \<Rightarrow> u8 list"
  vbno :: "nat \<Rightarrow> u32"
  vbusy :: "nat \<Rightarrow> bool"
  media :: "u64 \<Rightarrow> u8 list"
  dev_idx :: u16
  dev_work :: "nat list"
  dev_status :: "u8 list"
  vthr :: "nat \<Rightarrow> vpc"
  vdead :: "string option"

text \<open>\<^verbatim>\<open>b->blockno * (BSIZE / 512)\<close>, computed on 32 bits.\<close>

definition sector_of :: "u32 \<Rightarrow> u64" where
  "sector_of n = ucast (n * 2)"

definition set_op :: "nat \<Rightarrow> virtio_blk_req \<Rightarrow> vdisk \<Rightarrow> vdisk" where
  "set_op i v d = d\<lparr>vops := (vops d)(i := v)\<rparr>"

definition set_desc :: "nat \<Rightarrow> virtq_desc \<Rightarrow> vdisk \<Rightarrow> vdisk" where
  "set_desc i v d = d\<lparr>vdesc := (vdesc d)(i := v)\<rparr>"

definition set_info :: "nat \<Rightarrow> (vinfo \<Rightarrow> vinfo) \<Rightarrow> vdisk \<Rightarrow> vdisk" where
  "set_info i f d = d\<lparr>vinf := (vinf d)(i := f (vinf d i))\<rparr>"

definition avail_put :: "nat \<Rightarrow> vdisk \<Rightarrow> vdisk" where
  "avail_put i d = d\<lparr>avail := (avail d)\<lparr>av_ring := (av_ring (avail d))[unat (av_idx (avail d)) mod NUM := of_nat i],
     av_idx := av_idx (avail d) + 1\<rparr>\<rparr>"

lemma vdisk_sets [simp]:
  "vdesc (set_op i r d) = vdesc d" "vdesc (set_desc i v d) = (vdesc d)(i := v)" "vdesc (set_info i f d) = vdesc d" "vdesc (avail_put i d) = vdesc d"
  "avail (set_op i r d) = avail d" "avail (set_desc i v d) = avail d" "avail (set_info i f d) = avail d"
  "used (set_op i r d) = used d" "used (set_desc i v d) = used d" "used (set_info i f d) = used d" "used (avail_put i d) = used d"
  "vfree (set_op i r d) = vfree d" "vfree (set_desc i v d) = vfree d" "vfree (set_info i f d) = vfree d" "vfree (avail_put i d) = vfree d"
  "used_idx (set_op i r d) = used_idx d" "used_idx (set_desc i v d) = used_idx d" "used_idx (set_info i f d) = used_idx d" "used_idx (avail_put i d) = used_idx d"
  "vinf (set_op i r d) = vinf d" "vinf (set_desc i v d) = vinf d" "vinf (set_info i f d) = (vinf d)(i := f (vinf d i))" "vinf (avail_put i d) = vinf d"
  "vops (set_op i r d) = (vops d)(i := r)" "vops (set_desc i v d) = vops d" "vops (set_info i f d) = vops d" "vops (avail_put i d) = vops d"
  "av_idx (avail (avail_put i d)) = av_idx (avail d) + 1"
  "av_ring (avail (avail_put i d)) = (av_ring (avail d))[unat (av_idx (avail d)) mod NUM := of_nat i]"
  by (simp_all add: set_op_def set_desc_def set_info_def avail_put_def)

text \<open>Formatting the three descriptors and handing the chain to the device, in the order of the stores.\<close>

definition rw_format :: "nat \<Rightarrow> bool \<Rightarrow> u32 \<Rightarrow> nat list \<Rightarrow> vdisk \<Rightarrow> vdisk" where
  "rw_format b write n idx d =
     (let i0 = idx ! 0; i1 = idx ! 1; i2 = idx ! 2 in
      avail_put i0
     (set_info i0 (\<lambda>v. v\<lparr>ibuf := Some b\<rparr>)
     (set_desc i2 \<lparr>vaddr = VStatus i0, vlen = 1, vflags = VRING_DESC_F_WRITE, vnext = 0\<rparr>
     (set_info i0 (\<lambda>v. v\<lparr>istatus := 0xff\<rparr>)
     (set_desc i1 \<lparr>vaddr = VData b, vlen = 1024,
        vflags = (if write then 0 else VRING_DESC_F_WRITE) OR VRING_DESC_F_NEXT, vnext = of_nat i2\<rparr>
     (set_desc i0 \<lparr>vaddr = VOp i0, vlen = 16, vflags = VRING_DESC_F_NEXT, vnext = of_nat i1\<rparr>
     (set_op i0 \<lparr>rtype = (if write then VIRTIO_BLK_T_OUT else VIRTIO_BLK_T_IN), rreserved = 0, rsector = sector_of n\<rparr> d)))))))"

definition rw_submit :: "nat \<Rightarrow> bool \<Rightarrow> nat list \<Rightarrow> vsys \<Rightarrow> vsys" where
  "rw_submit b write idx s =
     s\<lparr>vbusy := (vbusy s)(b := True), vd := rw_format b write (vbno s b) idx (vd s)\<rparr>"

text \<open>The part of \<^verbatim>\<open>virtio_disk_rw\<close> up to its first wait: for descriptors, or for the request.\<close>

definition rw_start :: "nat \<Rightarrow> nat \<Rightarrow> bool \<Rightarrow> u8 list \<times> u8 list \<Rightarrow> vsys \<Rightarrow> vsys" where
  "rw_start p b write g s =
     (case alloc3_desc (vd s) of
        Inl e \<Rightarrow> s\<lparr>vdead := Some e\<rparr>
      | Inr (None, d) \<Rightarrow> s\<lparr>vd := d\<rparr>
      | Inr (Some idx, d) \<Rightarrow>
          let s = rw_submit b write idx (s\<lparr>vd := d\<rparr>)
          in s\<lparr>vthr := (vthr s)(p := VWait b write (idx ! 0) g)\<rparr>)"

text \<open>The loop \<^verbatim>\<open>while(b->disk == 1) sleep(...)\<close> and what follows it.\<close>

definition rw_finish :: "nat \<Rightarrow> nat \<Rightarrow> bool \<Rightarrow> nat \<Rightarrow> u8 list \<times> u8 list \<Rightarrow> vsys \<Rightarrow> vsys" where
  "rw_finish p b write i0 g s =
     (if vbusy s b then s
      else let d = vd s; d = d\<lparr>vinf := (vinf d)(i0 := (vinf d i0)\<lparr>ibuf := None\<rparr>)\<rparr> in
        case free_chain i0 d of
          Inl e \<Rightarrow> s\<lparr>vdead := Some e\<rparr>
        | Inr d \<Rightarrow> s\<lparr>vd := d, vthr := (vthr s)(p := VDone b write g)\<rparr>)"

text \<open>The loop of \<^verbatim>\<open>virtio_disk_intr\<close>; \<open>n\<close> is the number of entries between the two indices, so it never runs out.\<close>

fun intr_loop :: "nat \<Rightarrow> vsys \<Rightarrow> vsys" where
  "intr_loop 0 s = s"
| "intr_loop (Suc n) s =
     (if used_idx (vd s) = us_idx (used (vd s)) then s
      else let d = vd s; id = unat (us_ring (used d) ! (unat (used_idx d) mod NUM)) in
        if istatus (vinf d id) \<noteq> 0 then s\<lparr>vdead := Some ''virtio_disk_intr status''\<rparr>
        else case ibuf (vinf d id) of
            None \<Rightarrow> s\<lparr>vdead := Some ''wild access''\<rparr>
          | Some b \<Rightarrow> intr_loop n (s\<lparr>vbusy := (vbusy s)(b := False), vd := d\<lparr>used_idx := used_idx d + 1\<rparr>\<rparr>))"

definition virtio_disk_intr :: "vsys \<Rightarrow> vsys" where
  "virtio_disk_intr s = intr_loop (unat (us_idx (used (vd s)) - used_idx (vd s))) s"

section \<open>The device and the machine\<close>

definition dev_take :: "vsys \<Rightarrow> vsys" where
  "dev_take s = s\<lparr>dev_idx := dev_idx s + 1,
     dev_work := dev_work s @ [unat (av_ring (avail (vd s)) ! (unat (dev_idx s) mod NUM))]\<rparr>"

definition blk_transfer :: "bool \<Rightarrow> nat \<Rightarrow> u64 \<Rightarrow> vsys \<Rightarrow> vsys" where
  "blk_transfer out b sec s =
     (if out then s\<lparr>media := (media s)(sec := take 512 (vdata s b), sec + 1 := drop 512 (vdata s b))\<rparr>
      else s\<lparr>vdata := (vdata s)(b := media s sec @ media s (sec + 1))\<rparr>)"

text \<open>A request that fails: the device may have stored anything where it was to store the data.\<close>

definition blk_error :: "bool \<Rightarrow> nat \<Rightarrow> u64 \<Rightarrow> vsys \<Rightarrow> vsys \<Rightarrow> bool" where
  "blk_error out b sec s r \<longleftrightarrow>
     (if out then \<exists>x y. length x = 512 \<and> length y = 512 \<and> r = s\<lparr>media := (media s)(sec := x, sec + 1 := y)\<rparr>
      else \<exists>x. length x = 1024 \<and> r = s\<lparr>vdata := (vdata s)(b := x)\<rparr>)"

definition dev_done :: "nat \<Rightarrow> nat \<Rightarrow> u8 \<Rightarrow> vsys \<Rightarrow> vsys" where
  "dev_done h j st s =
     (let d = vd s in
      s\<lparr>vd := d\<lparr>vinf := (vinf d)(j := (vinf d j)\<lparr>istatus := st\<rparr>),
                 used := \<lparr>us_idx = us_idx (used d) + 1, us_ring = (us_ring (used d))[unat (us_idx (used d)) mod NUM := of_nat h]\<rparr>\<rparr>,
        dev_work := remove1 h (dev_work s), dev_status := dev_status s @ [st]\<rparr>)"

text \<open>
  What the specification says of the device: it takes the next chain, or it completes one of those it has
  taken, with success or with an error. It reads the chain from the descriptors; of a chain that is not a block
  request nothing is known.
\<close>

definition virtio_spec :: "vsys \<Rightarrow> vsys \<Rightarrow> bool" where
  "virtio_spec s t \<longleftrightarrow>
     (dev_idx s \<noteq> av_idx (avail (vd s)) \<and> t = dev_take s) \<or>
     (\<exists>h \<in> set (dev_work s).
        let d = vd s; d0 = vdesc d h; d1 = vdesc d (unat (vnext d0)); d2 = vdesc d (unat (vnext d1)) in
        case (vaddr d0, vaddr d1, vaddr d2) of
          (VOp k, VData b, VStatus j) \<Rightarrow>
            vlen d0 = 16 \<and> vlen d1 = 1024 \<and> vlen d2 = 1 \<and>
            vflags d0 = VRING_DESC_F_NEXT \<and> vflags d2 = VRING_DESC_F_WRITE \<and>
            vflags d1 = (if rtype (vops d k) = VIRTIO_BLK_T_OUT then 0 else VRING_DESC_F_WRITE) OR VRING_DESC_F_NEXT \<longrightarrow>
            (\<exists>st r. t = dev_done h j st r \<and>
               (if st = 0 then r = blk_transfer (rtype (vops d k) = VIRTIO_BLK_T_OUT) b (rsector (vops d k)) s
                else blk_error (rtype (vops d k) = VIRTIO_BLK_T_OUT) b (rsector (vops d k)) s r))
        | _ \<Rightarrow> True)"

text \<open>The buffer a process has a request for, and the bytes of a block on the disk.\<close>

fun vreq :: "vpc \<Rightarrow> nat option" where
  "vreq VIdle = None"
| "vreq (VAsk b w g) = Some b"
| "vreq (VWait b w i g) = Some b"
| "vreq (VDone b w g) = Some b"

definition dblk :: "(u64 \<Rightarrow> u8 list) \<Rightarrow> u32 \<Rightarrow> u8 list" where
  "dblk m n = m (sector_of n) @ m (sector_of n + 1)"

text \<open>
  The steps: a process that holds the lock of a buffer calls \<^verbatim>\<open>virtio_disk_rw\<close> (no other process has a
  request for the buffer or for its block), goes on after a wait, or returns; the interrupt handler runs;
  the device makes a step; a buffer without request is used by the rest of the kernel. The pair recorded
  with a request is the data of the buffer and the block on the disk at the time of the call. A CPU that panics in the
  driver keeps \<^verbatim>\<open>vdisk_lock\<close>, so no step under the lock follows.
\<close>

inductive vstep :: "(vsys \<Rightarrow> vsys \<Rightarrow> bool) \<Rightarrow> vsys \<Rightarrow> vsys \<Rightarrow> bool" for dev where
  v_call: "vthr s p = VIdle \<Longrightarrow> vbno s b < 2 ^ 31 \<Longrightarrow>
     (\<And>q c. vreq (vthr s q) = Some c \<Longrightarrow> c \<noteq> b \<and> vbno s c \<noteq> vbno s b) \<Longrightarrow>
     vstep dev s (s\<lparr>vthr := (vthr s)(p := VAsk b w (vdata s b, dblk (media s) (vbno s b)))\<rparr>)"
| v_start: "vthr s p = VAsk b w g \<Longrightarrow> vdead s = None \<Longrightarrow> vstep dev s (rw_start p b w g s)"
| v_finish: "vthr s p = VWait b w i g \<Longrightarrow> vdead s = None \<Longrightarrow> vstep dev s (rw_finish p b w i g s)"
| v_return: "vthr s p = VDone b w g \<Longrightarrow> vstep dev s (s\<lparr>vthr := (vthr s)(p := VIdle)\<rparr>)"
| v_intr: "vdead s = None \<Longrightarrow> vstep dev s (virtio_disk_intr s)"
| v_dev: "dev s t \<Longrightarrow> vstep dev s t"
| v_edit: "(\<And>q. vreq (vthr s q) \<noteq> Some b) \<Longrightarrow> length x = 1024 \<Longrightarrow>
     vstep dev s (s\<lparr>vdata := (vdata s)(b := x), vbno := (vbno s)(b := n)\<rparr>)"

text \<open>The state after \<^verbatim>\<open>virtio_disk_init\<close> has returned; \<^verbatim>\<open>disk\<close> is a static variable, zero at the start.\<close>

definition vinit :: "vsys \<Rightarrow> bool" where
  "vinit s \<longleftrightarrow> (\<exists>R pages d ws. used_idx d = 0 \<and> virtio_disk_init R pages d = (ws, Inr (vd s))) \<and>
     vdead s = None \<and> (\<forall>p. vthr s p = VIdle) \<and> dev_idx s = 0 \<and> dev_work s = [] \<and> dev_status s = [] \<and>
     (\<forall>b. length (vdata s b) = 1024) \<and> (\<forall>x. length (media s x) = 512)"

lemma virtio_disk_init_ok:
  assumes "virtio_disk_init R pages d = (ws, Inr d')"
  shows "vfree d' j = (j < NUM \<or> vfree d j)" "avail d' = \<lparr>av_idx = 0, av_ring = replicate NUM 0\<rparr>"
    "used d' = \<lparr>us_idx = 0, us_ring = replicate NUM 0\<rparr>" "used_idx d' = used_idx d"
  using assms by (auto simp: virtio_disk_init_def Let_def split: if_splits)

inductive vreach :: "(vsys \<Rightarrow> vsys \<Rightarrow> bool) \<Rightarrow> vsys \<Rightarrow> bool" for dev where
  vr_init: "vinit s \<Longrightarrow> vreach dev s"
| vr_step: "vreach dev s \<Longrightarrow> vstep dev s t \<Longrightarrow> vreach dev t"

section \<open>The invariant\<close>

definition chain_ok :: "vdisk \<Rightarrow> nat \<Rightarrow> bool \<Rightarrow> nat \<Rightarrow> u32 \<Rightarrow> bool" where
  "chain_ok d b w i n \<longleftrightarrow> (\<exists>i1 i2. distinct [i, i1, i2] \<and> set [i, i1, i2] \<subseteq> {..<NUM} \<and>
     vdesc d i = \<lparr>vaddr = VOp i, vlen = 16, vflags = VRING_DESC_F_NEXT, vnext = of_nat i1\<rparr> \<and>
     vdesc d i1 = \<lparr>vaddr = VData b, vlen = 1024, vflags = (if w then 0 else VRING_DESC_F_WRITE) OR VRING_DESC_F_NEXT, vnext = of_nat i2\<rparr> \<and>
     vdesc d i2 = \<lparr>vaddr = VStatus i, vlen = 1, vflags = VRING_DESC_F_WRITE, vnext = 0\<rparr> \<and>
     ibuf (vinf d i) = Some b \<and>
     vops d i = \<lparr>rtype = (if w then VIRTIO_BLK_T_OUT else VIRTIO_BLK_T_IN), rreserved = 0, rsector = sector_of n\<rparr>)"

definition chain :: "vdisk \<Rightarrow> nat \<Rightarrow> nat set" where
  "chain d i = {i, unat (vnext (vdesc d i)), unat (vnext (vdesc d (unat (vnext (vdesc d i)))))}"

definition av_items :: "vsys \<Rightarrow> nat list" where
  "av_items s = map unat (ring_items (av_ring (avail (vd s))) (dev_idx s) (av_idx (avail (vd s))))"

definition us_items :: "vsys \<Rightarrow> nat list" where
  "us_items s = map unat (ring_items (us_ring (used (vd s))) (used_idx (vd s)) (us_idx (used (vd s))))"

definition in_flight :: "vsys \<Rightarrow> nat list" where
  "in_flight s = av_items s @ dev_work s @ us_items s"

text \<open>What the buffer and the block are before and after the transfer.\<close>

definition before_rw :: "vsys \<Rightarrow> nat \<Rightarrow> u8 list \<times> u8 list \<Rightarrow> bool" where
  "before_rw s b g \<longleftrightarrow> vdata s b = fst g \<and> dblk (media s) (vbno s b) = snd g"

definition after_rw :: "vsys \<Rightarrow> nat \<Rightarrow> bool \<Rightarrow> u8 list \<times> u8 list \<Rightarrow> bool" where
  "after_rw s b w g \<longleftrightarrow> vdata s b = (if w then fst g else snd g) \<and> dblk (media s) (vbno s b) = (if w then fst g else snd g)"

text \<open>
  A request on the used ring whose status is not 0 stays there: the interrupt handler panics when it comes to it.
\<close>

definition dev_failed :: "vsys \<Rightarrow> bool" where
  "dev_failed s \<longleftrightarrow> (\<exists>st \<in> set (dev_status s). st \<noteq> 0)"

definition req_ok :: "vsys \<Rightarrow> vpc \<Rightarrow> bool" where
  "req_ok s v \<longleftrightarrow> (case v of
     VIdle \<Rightarrow> True
   | VAsk b w g \<Rightarrow> before_rw s b g
   | VWait b w i g \<Rightarrow> chain_ok (vd s) b w i (vbno s b) \<and>
       (if vbusy s b \<and> i \<notin> set (us_items s) then before_rw s b g
        else if istatus (vinf (vd s) i) = 0 then after_rw s b w g else vbusy s b \<and> dev_failed s)
   | VDone b w g \<Rightarrow> after_rw s b w g)"

definition waits :: "vsys \<Rightarrow> nat \<Rightarrow> nat \<Rightarrow> bool" where
  "waits s p i \<longleftrightarrow> (\<exists>b w g. vthr s p = VWait b w i g)"

definition sane :: "vsys \<Rightarrow> bool" where
  "sane s \<longleftrightarrow> (vdead s = None \<or> vdead s = Some ''virtio_disk_intr status'' \<and> dev_failed s) \<and> length (av_ring (avail (vd s))) = NUM \<and> length (us_ring (used (vd s))) = NUM \<and>
     (\<forall>b. length (vdata s b) = 1024) \<and> (\<forall>x. length (media s x) = 512)"

definition excl :: "vsys \<Rightarrow> bool" where
  "excl s \<longleftrightarrow> (\<forall>p b. vreq (vthr s p) = Some b \<longrightarrow> vbno s b < 2 ^ 31) \<and>
     (\<forall>p q b c. p \<noteq> q \<and> vreq (vthr s p) = Some b \<and> vreq (vthr s q) = Some c \<longrightarrow> b \<noteq> c \<and> vbno s b \<noteq> vbno s c)"

definition chains :: "vsys \<Rightarrow> bool" where
  "chains s \<longleftrightarrow>
     (\<forall>p q i k. p \<noteq> q \<and> waits s p i \<and> waits s q k \<longrightarrow> chain (vd s) i \<inter> chain (vd s) k = {}) \<and>
     (\<forall>j < NUM. \<not> vfree (vd s) j \<longleftrightarrow> (\<exists>p i. waits s p i \<and> j \<in> chain (vd s) i))"

definition queued :: "vsys \<Rightarrow> bool" where
  "queued s \<longleftrightarrow> distinct (in_flight s) \<and>
     (\<forall>i. i \<in> set (in_flight s) \<longleftrightarrow> (\<exists>p b w g. vthr s p = VWait b w i g \<and> vbusy s b))"

definition vinv :: "vsys \<Rightarrow> bool" where
  "vinv s \<longleftrightarrow> sane s \<and> excl s \<and> chains s \<and> queued s \<and> (\<forall>p. req_ok s (vthr s p))"

section \<open>Descriptors\<close>

lemma find_free:
  "find P [0..<n] = Some i \<Longrightarrow> i < n \<and> P i" "find P [0..<n] = None \<Longrightarrow> j < n \<Longrightarrow> \<not> P j"
  by (auto simp: find_Some_iff find_None_iff)

lemma alloc_desc_cases:
  obtains "alloc_desc d = (None, d)" "\<forall>j < NUM. \<not> vfree d j"
  | i where "alloc_desc d = (Some i, d\<lparr>vfree := (vfree d)(i := False)\<rparr>)" "i < NUM" "vfree d i"
proof (cases "find (vfree d) [0..<NUM]")
  case None
  then show ?thesis using that(1) find_free(2) [OF None] by (simp add: alloc_desc_def)
next
  case (Some i)
  then show ?thesis using that(2) find_free(1) [OF Some] by (simp add: alloc_desc_def)
qed

lemma card_listed: "A \<subseteq> set xs \<Longrightarrow> length xs < n \<Longrightarrow> card A < n"
  using card_mono [of "set xs" A] card_length [of xs] by simp

text \<open>The descriptors that fail to be enough are given back, and only free ones were touched.\<close>

lemma alloc3_cases:
  obtains (fail) d' where "alloc3_desc d = Inr (None, d')" "vfree d' = vfree d"
      "\<And>j. \<not> (j < NUM \<and> vfree d j) \<Longrightarrow> vdesc d' j = vdesc d j"
      "avail d' = avail d" "used d' = used d" "used_idx d' = used_idx d" "vinf d' = vinf d" "vops d' = vops d"
      "card {j. j < NUM \<and> vfree d j} < 3"
  | (ok) i0 i1 i2 where "alloc3_desc d = Inr (Some [i0, i1, i2], d\<lparr>vfree := (vfree d)(i0 := False, i1 := False, i2 := False)\<rparr>)"
      "distinct [i0, i1, i2]" "i0 < NUM" "i1 < NUM" "i2 < NUM" "vfree d i0" "vfree d i1" "vfree d i2"
proof (cases rule: alloc_desc_cases [of d])
  case 1
  then have "{j. j < NUM \<and> vfree d j} = {}" by auto
  then have "card {j. j < NUM \<and> vfree d j} < 3" by (simp only: card.empty)
  moreover have "alloc3_desc d = Inr (None, d)" using 1(1) by (simp add: alloc3_desc_def eval_nat_numeral)
  ultimately show ?thesis using fail [of d] by simp
next
  case (2 i0)
  let ?d = "d\<lparr>vfree := (vfree d)(i0 := False)\<rparr>"
  show ?thesis
  proof (cases rule: alloc_desc_cases [of ?d])
    case 1
    let ?e = "?d\<lparr>vdesc := (vdesc d)(i0 := desc0), vfree := (vfree ?d)(i0 := True)\<rparr>"
    have "{j. j < NUM \<and> vfree d j} \<subseteq> set [i0]" using 1(2) by (auto split: if_splits)
    then have "card {j. j < NUM \<and> vfree d j} < 3" by (rule card_listed) simp
    moreover have "alloc3_desc d = Inr (None, ?e)" using 1(1) 2 by (simp add: alloc3_desc_def eval_nat_numeral free_desc_def)
    ultimately show ?thesis using 2 by (intro fail [of ?e]) (auto simp: fun_eq_iff)
  next
    case (2 i1)
    let ?d2 = "?d\<lparr>vfree := (vfree ?d)(i1 := False)\<rparr>"
    note i0 = \<open>i0 < NUM\<close> \<open>vfree d i0\<close> \<open>alloc_desc d = (Some i0, ?d)\<close>
    have i1: "i1 \<noteq> i0" "vfree d i1" using 2(3) by (auto split: if_splits)
    show ?thesis
    proof (cases rule: alloc_desc_cases [of ?d2])
      case 1
      let ?e = "?d2\<lparr>vdesc := (vdesc d)(i0 := desc0, i1 := desc0), vfree := (vfree ?d2)(i0 := True, i1 := True)\<rparr>"
      have "{j. j < NUM \<and> vfree d j} \<subseteq> set [i0, i1]" using 1(2) by (auto split: if_splits)
      then have "card {j. j < NUM \<and> vfree d j} < 3" by (rule card_listed) simp
      moreover have "alloc3_desc d = Inr (None, ?e)"
        using 1(1) 2 i0 i1 by (simp add: alloc3_desc_def eval_nat_numeral free_desc_def)
      ultimately show ?thesis using 2 i0 i1 by (intro fail [of ?e]) (auto simp: fun_eq_iff)
    next
      case (2 i2)
      have "i2 \<noteq> i1" "i2 \<noteq> i0" "vfree d i2" using 2(3) by (auto split: if_splits)
      then show ?thesis
        using 2 i0 i1 \<open>alloc_desc ?d = (Some i1, ?d2)\<close> \<open>i1 < NUM\<close>
        by (intro ok [of i0 i1 i2]) (auto simp: alloc3_desc_def eval_nat_numeral)
    qed
  qed
qed

section \<open>Steps that change only where a process is\<close>

lemma items_thr [simp]:
  "av_items (s\<lparr>vthr := f\<rparr>) = av_items s" "us_items (s\<lparr>vthr := f\<rparr>) = us_items s" "in_flight (s\<lparr>vthr := f\<rparr>) = in_flight s"
  by (simp_all add: av_items_def us_items_def in_flight_def)

lemma rw_thr [simp]:
  "before_rw (s\<lparr>vthr := f\<rparr>) b g = before_rw s b g" "after_rw (s\<lparr>vthr := f\<rparr>) b w g = after_rw s b w g"
  "req_ok (s\<lparr>vthr := f\<rparr>) v = req_ok s v" "sane (s\<lparr>vthr := f\<rparr>) = sane s"
  by (simp_all add: before_rw_def after_rw_def req_ok_def sane_def dev_failed_def split: vpc.split)

lemma vinv_move:
  assumes "vinv s" and "\<And>b w i g. vthr s p \<noteq> VWait b w i g" and "\<And>b w i g. v \<noteq> VWait b w i g"
    and "req_ok s v"
    and "\<And>b. vreq v = Some b \<Longrightarrow> vbno s b < 2 ^ 31"
    and "\<And>b q c. vreq v = Some b \<Longrightarrow> q \<noteq> p \<Longrightarrow> vreq (vthr s q) = Some c \<Longrightarrow> c \<noteq> b \<and> vbno s c \<noteq> vbno s b"
  shows "vinv (s\<lparr>vthr := (vthr s)(p := v)\<rparr>)"
proof -
  let ?t = "s\<lparr>vthr := (vthr s)(p := v)\<rparr>"
  have w: "waits ?t q i = waits s q i" for q i using assms(2,3) by (auto simp: waits_def)
  have ex: "excl s" using assms(1) unfolding vinv_def by blast
  have "excl ?t"
    unfolding excl_def
  proof (intro conjI allI impI)
    show "vbno ?t b < 2 ^ 31" if "vreq (vthr ?t q) = Some b" for q b
      using that assms(5) ex unfolding excl_def by (cases "q = p") auto
    fix q r b c
    assume h: "q \<noteq> r \<and> vreq (vthr ?t q) = Some b \<and> vreq (vthr ?t r) = Some c"
    have "b \<noteq> c \<and> vbno s b \<noteq> vbno s c"
    proof (cases "q = p \<or> r = p")
      case True
      then show ?thesis using h assms(6) [of b r c] assms(6) [of c q b] by auto
    next
      case False
      then have "vreq (vthr s q) = Some b" "vreq (vthr s r) = Some c" using h by auto
      then show ?thesis using ex h unfolding excl_def by blast
    qed
    then show "b \<noteq> c" "vbno ?t b \<noteq> vbno ?t c" by simp_all
  qed
  moreover have "chains ?t" using assms(1) unfolding vinv_def chains_def w by simp
  moreover have "queued ?t"
  proof -
    have "(\<exists>q b w g. vthr ?t q = VWait b w i g \<and> vbusy s b) \<longleftrightarrow> (\<exists>q b w g. vthr s q = VWait b w i g \<and> vbusy s b)" for i
    proof -
      have "vthr ?t q = VWait b w i g \<longleftrightarrow> vthr s q = VWait b w i g" for q b w g using assms(2,3) by (cases "q = p") auto
      then show ?thesis by simp
    qed
    then show ?thesis using assms(1) unfolding vinv_def queued_def by simp
  qed
  ultimately show ?thesis using assms(1,4) unfolding vinv_def by simp
qed

lemma vinv_call:
  assumes "vinv s" and "vthr s p = VIdle" and "vbno s b < 2 ^ 31"
    and "\<And>q c. vreq (vthr s q) = Some c \<Longrightarrow> c \<noteq> b \<and> vbno s c \<noteq> vbno s b"
  shows "vinv (s\<lparr>vthr := (vthr s)(p := VAsk b w (vdata s b, dblk (media s) (vbno s b)))\<rparr>)"
  by (rule vinv_move) (use assms in \<open>auto simp: req_ok_def before_rw_def\<close>)

lemma vinv_return:
  assumes "vinv s" and "vthr s p = VDone b w g"
  shows "vinv (s\<lparr>vthr := (vthr s)(p := VIdle)\<rparr>)"
  by (rule vinv_move) (use assms in \<open>auto simp: req_ok_def\<close>)

section \<open>Chains\<close>

lemma unat_u16: "i < NUM \<Longrightarrow> unat (of_nat i :: u16) = i"
  by (simp add: NUM_def unat_of_nat)

lemma unat_u32: "i < NUM \<Longrightarrow> unat (of_nat i :: u32) = i"
  by (simp add: NUM_def unat_of_nat)

lemma chain_okE:
  assumes "chain_ok d b w i n"
  obtains i1 i2 where "distinct [i, i1, i2]" "i < NUM" "i1 < NUM" "i2 < NUM"
    "vdesc d i = \<lparr>vaddr = VOp i, vlen = 16, vflags = VRING_DESC_F_NEXT, vnext = of_nat i1\<rparr>"
    "vdesc d i1 = \<lparr>vaddr = VData b, vlen = 1024, vflags = (if w then 0 else VRING_DESC_F_WRITE) OR VRING_DESC_F_NEXT, vnext = of_nat i2\<rparr>"
    "vdesc d i2 = \<lparr>vaddr = VStatus i, vlen = 1, vflags = VRING_DESC_F_WRITE, vnext = 0\<rparr>"
    "ibuf (vinf d i) = Some b"
    "vops d i = \<lparr>rtype = (if w then VIRTIO_BLK_T_OUT else VIRTIO_BLK_T_IN), rreserved = 0, rsector = sector_of n\<rparr>"
    "chain d i = {i, i1, i2}"
proof -
  from assms obtain i1 i2 where c: "distinct [i, i1, i2]" "set [i, i1, i2] \<subseteq> {..<NUM}"
    "vdesc d i = \<lparr>vaddr = VOp i, vlen = 16, vflags = VRING_DESC_F_NEXT, vnext = of_nat i1\<rparr>"
    "vdesc d i1 = \<lparr>vaddr = VData b, vlen = 1024, vflags = (if w then 0 else VRING_DESC_F_WRITE) OR VRING_DESC_F_NEXT, vnext = of_nat i2\<rparr>"
    "vdesc d i2 = \<lparr>vaddr = VStatus i, vlen = 1, vflags = VRING_DESC_F_WRITE, vnext = 0\<rparr>"
    "ibuf (vinf d i) = Some b"
    "vops d i = \<lparr>rtype = (if w then VIRTIO_BLK_T_OUT else VIRTIO_BLK_T_IN), rreserved = 0, rsector = sector_of n\<rparr>"
    unfolding chain_ok_def by blast
  have "chain d i = {i, i1, i2}" using c(2-4) by (simp add: chain_def unat_u16)
  then show ?thesis using c that by auto
qed

text \<open>A chain depends on the descriptors of the chain and on the request at its head only.\<close>

lemma chain_cong:
  assumes "chain_ok d b w i n" and "\<And>j. j \<in> chain d i \<Longrightarrow> vdesc d' j = vdesc d j"
    and "ibuf (vinf d' i) = ibuf (vinf d i)" and "vops d' i = vops d i"
  shows "chain_ok d' b w i n" and "chain d' i = chain d i"
proof -
  obtain i1 i2 where c: "distinct [i, i1, i2]" "i < NUM" "i1 < NUM" "i2 < NUM"
    "vdesc d i = \<lparr>vaddr = VOp i, vlen = 16, vflags = VRING_DESC_F_NEXT, vnext = of_nat i1\<rparr>"
    "vdesc d i1 = \<lparr>vaddr = VData b, vlen = 1024, vflags = (if w then 0 else VRING_DESC_F_WRITE) OR VRING_DESC_F_NEXT, vnext = of_nat i2\<rparr>"
    "vdesc d i2 = \<lparr>vaddr = VStatus i, vlen = 1, vflags = VRING_DESC_F_WRITE, vnext = 0\<rparr>"
    "ibuf (vinf d i) = Some b"
    "vops d i = \<lparr>rtype = (if w then VIRTIO_BLK_T_OUT else VIRTIO_BLK_T_IN), rreserved = 0, rsector = sector_of n\<rparr>"
    "chain d i = {i, i1, i2}" using assms(1) by (rule chain_okE)
  have e: "vdesc d' i = vdesc d i" "vdesc d' i1 = vdesc d i1" "vdesc d' i2 = vdesc d i2" using assms(2) c(10) by auto
  show ok: "chain_ok d' b w i n"
    unfolding chain_ok_def by (intro exI [of _ i1] exI [of _ i2]) (use c e assms(3,4) in simp)
  show "chain d' i = chain d i" using c(10) e(1,2) c(5,6) unat_u16 [OF c(3)] unat_u16 [OF c(4)] unfolding chain_def by simp
qed

lemma vinvD:
  assumes "vinv s" and "vthr s p = VWait b w i g"
  shows "chain_ok (vd s) b w i (vbno s b)" and "\<And>j. j \<in> chain (vd s) i \<Longrightarrow> j < NUM \<and> \<not> vfree (vd s) j"
    and "vthr s q = VWait c v k h \<Longrightarrow> p \<noteq> q \<Longrightarrow> chain (vd s) i \<inter> chain (vd s) k = {}"
    and "i \<in> chain (vd s) i"
proof -
  have r: "req_ok s (vthr s p)" using assms(1) unfolding vinv_def by blast
  then show ok: "chain_ok (vd s) b w i (vbno s b)" using assms(2) by (simp add: req_ok_def)
  have w: "waits s p i" using assms(2) by (auto simp: waits_def)
  show "j < NUM \<and> \<not> vfree (vd s) j" if "j \<in> chain (vd s) i" for j
  proof -
    obtain i1 i2 where "i < NUM" "i1 < NUM" "i2 < NUM" "chain (vd s) i = {i, i1, i2}" using ok by (rule chain_okE)
    then have "j < NUM" using that by auto
    then show ?thesis using assms(1) w that unfolding vinv_def chains_def by blast
  qed
  show "chain (vd s) i \<inter> chain (vd s) k = {}" if "vthr s q = VWait c v k h" "p \<noteq> q"
  proof -
    have "waits s q k" using that by (auto simp: waits_def)
    then show ?thesis using assms(1) w that(2) unfolding vinv_def chains_def by blast
  qed
  show "i \<in> chain (vd s) i" by (simp add: chain_def)
qed

text \<open>What a step may do to the request of another process.\<close>

lemma req_ok_cong:
  assumes "req_ok s v"
    and "\<And>b. vreq v = Some b \<Longrightarrow> vdata t b = vdata s b \<and> vbno t b = vbno s b \<and> dblk (media t) (vbno s b) = dblk (media s) (vbno s b)"
    and "\<And>b w i g. v = VWait b w i g \<Longrightarrow> chain_ok (vd t) b w i (vbno s b) \<and> vbusy t b = vbusy s b \<and>
      (i \<in> set (us_items t) \<longleftrightarrow> i \<in> set (us_items s)) \<and> istatus (vinf (vd t) i) = istatus (vinf (vd s) i)"
    and "dev_failed s \<longrightarrow> dev_failed t"
  shows "req_ok t v"
proof (cases v)
  case VIdle
  then show ?thesis by (simp add: req_ok_def)
next
  case (VAsk b w g)
  then show ?thesis using assms(1) assms(2) [of b] by (simp add: req_ok_def before_rw_def)
next
  case (VWait b w i g)
  then show ?thesis using assms(1) assms(2) [of b] assms(3) [OF VWait] assms(4)
    by (auto simp: req_ok_def before_rw_def after_rw_def split: if_splits)
next
  case (VDone b w g)
  then show ?thesis using assms(1) assms(2) [of b] by (simp add: req_ok_def after_rw_def)
qed

lemma vinv_parts:
  assumes "vinv s"
  shows "sane s" "excl s" "chains s" "queued s" "req_ok s (vthr s p)"
  using assms unfolding vinv_def by blast+

lemma chainsD:
  assumes "chains s"
  shows "p \<noteq> q \<Longrightarrow> waits s p i \<Longrightarrow> waits s q k \<Longrightarrow> chain (vd s) i \<inter> chain (vd s) k = {}"
    and "j < NUM \<Longrightarrow> \<not> vfree (vd s) j \<longleftrightarrow> (\<exists>p i. waits s p i \<and> j \<in> chain (vd s) i)"
  using assms unfolding chains_def by blast+

lemma us_in_flight: "i \<in> set (us_items s) \<Longrightarrow> i \<in> set (in_flight s)"
  by (simp add: in_flight_def)

lemma vinv_start_fail:
  assumes inv: "vinv s" and d': "vfree d' = vfree (vd s)" "\<And>j. \<not> (j < NUM \<and> vfree (vd s) j) \<Longrightarrow> vdesc d' j = vdesc (vd s) j"
      "avail d' = avail (vd s)" "used d' = used (vd s)" "used_idx d' = used_idx (vd s)" "vinf d' = vinf (vd s)" "vops d' = vops (vd s)"
  shows "vinv (s\<lparr>vd := d'\<rparr>)"
proof -
  let ?t = "s\<lparr>vd := d'\<rparr>"
  have it: "av_items ?t = av_items s" "us_items ?t = us_items s" "in_flight ?t = in_flight s"
    using d' by (simp_all add: av_items_def us_items_def in_flight_def)
  have ch: "chain_ok d' b w i (vbno s b)" "chain d' i = chain (vd s) i" if "vthr s p = VWait b w i g" for p b w i g
  proof -
    have "vdesc d' j = vdesc (vd s) j" if "j \<in> chain (vd s) i" for j
      using vinvD(2) [OF inv \<open>vthr s p = VWait b w i g\<close> that] d'(2) by blast
    note C = chain_cong [OF vinvD(1) [OF inv that] this]
    show "chain_ok d' b w i (vbno s b)" "chain d' i = chain (vd s) i" using C d' by simp_all
  qed
  have w: "waits ?t p i = waits s p i" for p i by (simp add: waits_def)
  have cw: "chain d' i = chain (vd s) i" if "waits s p i" for p i using that ch(2) unfolding waits_def by blast
  have "chains ?t"
    unfolding chains_def w
  proof (intro conjI allI impI)
    show "chain (vd ?t) i \<inter> chain (vd ?t) k = {}" if "p \<noteq> q \<and> waits s p i \<and> waits s q k" for p q i k
      using that cw [of p i] cw [of q k] chainsD(1) [OF vinv_parts(3) [OF inv], of p q i k] by simp
    show "\<not> vfree (vd ?t) j \<longleftrightarrow> (\<exists>p i. waits s p i \<and> j \<in> chain (vd ?t) i)" if "j < NUM" for j
    proof -
      have "(\<exists>p i. waits s p i \<and> j \<in> chain d' i) \<longleftrightarrow> (\<exists>p i. waits s p i \<and> j \<in> chain (vd s) i)"
        using cw by (simp cong: conj_cong)
      then show ?thesis using chainsD(2) [OF vinv_parts(3) [OF inv] that] d'(1) by simp
    qed
  qed
  moreover have "req_ok ?t (vthr s p)" for p
    by (rule req_ok_cong [OF vinv_parts(5) [OF inv]]) (use ch(1) it d' in \<open>auto simp: dblk_def dev_failed_def\<close>)
  moreover have "sane ?t" using vinv_parts(1) [OF inv] d' by (simp add: sane_def dev_failed_def)
  moreover have "excl ?t" using vinv_parts(2) [OF inv] by (simp add: excl_def)
  moreover have "queued ?t" using vinv_parts(4) [OF inv] it by (simp add: queued_def)
  ultimately show ?thesis by (simp add: vinv_def)
qed

lemma in_flight_short:
  assumes "vinv s" and "i < NUM" and "i \<notin> set (in_flight s)"
  shows "length (in_flight s) < NUM"
proof -
  have "j < NUM" if j: "j \<in> set (in_flight s)" for j
  proof -
    obtain p b w g where "vthr s p = VWait b w j g" using vinv_parts(4) [OF assms(1)] j unfolding queued_def by blast
    then show ?thesis using vinvD(2,4) [OF assms(1)] by blast
  qed
  then have "set (in_flight s) \<subseteq> {..<NUM} - {i}" using assms(3) by auto
  then have "card (set (in_flight s)) \<le> NUM - 1" using card_mono [of "{..<NUM} - {i}"] assms(2) by fastforce
  moreover have "distinct (in_flight s)" using vinv_parts(4) [OF assms(1)] by (simp add: queued_def)
  ultimately show ?thesis using distinct_card [of "in_flight s"] by (simp add: NUM_def)
qed

lemma length_items: "length (av_items s) = unat (av_idx (avail (vd s)) - dev_idx s)"
  "length (us_items s) = unat (us_idx (used (vd s)) - used_idx (vd s))"
  by (simp_all add: av_items_def us_items_def)

lemma ring16:
  assumes "length d = NUM" and "unat (w - r) < NUM"
  shows "ring_items (d[unat w mod NUM := c]) r (w + 1 :: u16) = ring_items d r w @ [c]"
  using ring_put [of w r d c] assms by (simp add: NUM_def)

lemma vinv_submit:
  assumes inv: "vinv s" and p: "vthr s p = VAsk b w g"
    and i: "distinct [i0, i1, i2]" "i0 < NUM" "i1 < NUM" "i2 < NUM" "vfree (vd s) i0" "vfree (vd s) i1" "vfree (vd s) i2"
    and t: "t = (rw_submit b w [i0, i1, i2] (s\<lparr>vd := (vd s)\<lparr>vfree := (vfree (vd s))(i0 := False, i1 := False, i2 := False)\<rparr>\<rparr>))
      \<lparr>vthr := (vthr s)(p := VWait b w i0 g)\<rparr>"
  shows "vinv t"
proof -
  have F: "vdead t = vdead s" "vdata t = vdata s" "vbno t = vbno s" "media t = media s" "dev_idx t = dev_idx s"
    "dev_work t = dev_work s" "dev_failed t = dev_failed s" "vbusy t = (vbusy s)(b := True)" "vthr t = (vthr s)(p := VWait b w i0 g)"
    "used (vd t) = used (vd s)" "used_idx (vd t) = used_idx (vd s)"
    "vfree (vd t) = (vfree (vd s))(i0 := False, i1 := False, i2 := False)"
    "av_idx (avail (vd t)) = av_idx (avail (vd s)) + 1"
    "av_ring (avail (vd t)) = (av_ring (avail (vd s)))[unat (av_idx (avail (vd s))) mod NUM := of_nat i0]"
    by (simp_all add: t rw_submit_def rw_format_def dev_failed_def)
  have D: "vdesc (vd t) = (vdesc (vd s))(i0 := \<lparr>vaddr = VOp i0, vlen = 16, vflags = VRING_DESC_F_NEXT, vnext = of_nat i1\<rparr>,
      i1 := \<lparr>vaddr = VData b, vlen = 1024, vflags = (if w then 0 else VRING_DESC_F_WRITE) OR VRING_DESC_F_NEXT, vnext = of_nat i2\<rparr>,
      i2 := \<lparr>vaddr = VStatus i0, vlen = 1, vflags = VRING_DESC_F_WRITE, vnext = 0\<rparr>)"
    "vops (vd t) = (vops (vd s))(i0 := \<lparr>rtype = (if w then VIRTIO_BLK_T_OUT else VIRTIO_BLK_T_IN), rreserved = 0, rsector = sector_of (vbno s b)\<rparr>)"
    "vinf (vd t) = (vinf (vd s))(i0 := (vinf (vd s) i0)\<lparr>istatus := 0xff, ibuf := Some b\<rparr>)"
    by (simp_all add: t rw_submit_def rw_format_def)
  have new: "chain_ok (vd t) b w i0 (vbno s b)"
    unfolding chain_ok_def by (rule exI [of _ i1], rule exI [of _ i2]) (use D i in auto)
  then have newc: "chain (vd t) i0 = {i0, i1, i2}"
    using D i unat_u16 [OF i(3)] unat_u16 [OF i(4)] by (simp add: chain_def)
  have old: "chain_ok (vd t) c v k (vbno s c)" "chain (vd t) k = chain (vd s) k" "{i0, i1, i2} \<inter> chain (vd s) k = {}"
    "i0 \<noteq> k" "c \<noteq> b" if "vthr s q = VWait c v k h" "q \<noteq> p" for q c v k h
  proof -
    note nf = vinvD(2) [OF inv that(1)]
    show dj: "{i0, i1, i2} \<inter> chain (vd s) k = {}" using nf i(5-7) by blast
    show "i0 \<noteq> k" using dj vinvD(4) [OF inv that(1)] by blast
    have "vdesc (vd t) j = vdesc (vd s) j" if "j \<in> chain (vd s) k" for j using that dj D(1) by auto
    note C = chain_cong [OF vinvD(1) [OF inv \<open>vthr s q = VWait c v k h\<close>] this]
    show "chain_ok (vd t) c v k (vbno s c)" "chain (vd t) k = chain (vd s) k" using C D(2,3) \<open>i0 \<noteq> k\<close> by simp_all
    have "vreq (vthr s q) = Some c" "vreq (vthr s p) = Some b" using that(1) p by simp_all
    then show "c \<noteq> b" using vinv_parts(2) [OF inv] that(2) unfolding excl_def by blast
  qed
  have fresh: "i0 \<notin> set (in_flight s)"
  proof
    assume "i0 \<in> set (in_flight s)"
    then obtain q c v h where "vthr s q = VWait c v i0 h" using vinv_parts(4) [OF inv] unfolding queued_def by blast
    then show False using vinvD(2,4) [OF inv] i(5) by blast
  qed
  have us: "us_items t = us_items s" by (simp add: us_items_def F)
  have "length (av_items s) < NUM" using in_flight_short [OF inv i(2) fresh] by (simp add: in_flight_def)
  then have av: "av_items t = av_items s @ [i0]"
    using ring16 [of "av_ring (avail (vd s))" "av_idx (avail (vd s))" "dev_idx s" "of_nat i0"] vinv_parts(1) [OF inv] unat_u16 [OF i(2)]
    by (simp add: av_items_def F sane_def)
  have req: "req_ok t (vthr t q)" for q
  proof (cases "q = p")
    case True
    have "req_ok s (vthr s p)" by (rule vinv_parts(5) [OF inv])
    then have "before_rw t b g" using p by (simp add: req_ok_def before_rw_def F)
    moreover have "i0 \<notin> set (us_items t)" using fresh us us_in_flight by auto
    ultimately show ?thesis using True new by (simp add: req_ok_def F)
  next
    case False
    have "req_ok t (vthr s q)"
    proof (rule req_ok_cong [OF vinv_parts(5) [OF inv]])
      fix c v k h
      assume "vthr s q = VWait c v k h"
      note O = old [OF this False]
      show "chain_ok (vd t) c v k (vbno s c) \<and> vbusy t c = vbusy s c \<and>
          (k \<in> set (us_items t) \<longleftrightarrow> k \<in> set (us_items s)) \<and> istatus (vinf (vd t) k) = istatus (vinf (vd s) k)"
        using O(1,4,5) us by (simp add: F D(3))
    qed (simp_all add: F)
    then show ?thesis using False F by simp
  qed
  have W: "waits t q k \<longleftrightarrow> (if q = p then k = i0 else waits s q k)" for q k by (auto simp: waits_def F)
  have wc: "chain (vd t) k = chain (vd s) k" "{i0, i1, i2} \<inter> chain (vd s) k = {}" if "waits s q k" "q \<noteq> p" for q k
    using that old(2,3) unfolding waits_def by blast+
  have np: "\<not> waits s p k" for k using p by (simp add: waits_def)
  have "chains t"
    unfolding chains_def
  proof (intro conjI allI impI)
    fix q r k l
    assume h: "q \<noteq> r \<and> waits t q k \<and> waits t r l"
    show "chain (vd t) k \<inter> chain (vd t) l = {}"
    proof (cases "q = p \<or> r = p")
      case True
      then show ?thesis using h W newc wc [of r l] wc [of q k] by (auto split: if_splits)
    next
      case False
      then show ?thesis
        using h W wc(1) [of q k] wc(1) [of r l] chainsD(1) [OF vinv_parts(3) [OF inv], of q r k l] by simp
    qed
  next
    fix j assume "j < NUM"
    have "(\<exists>q k. waits t q k \<and> j \<in> chain (vd t) k) \<longleftrightarrow> j \<in> {i0, i1, i2} \<or> (\<exists>q k. waits s q k \<and> j \<in> chain (vd s) k)"
    proof
      assume "\<exists>q k. waits t q k \<and> j \<in> chain (vd t) k"
      then obtain q k where "waits t q k" "j \<in> chain (vd t) k" by blast
      then show "j \<in> {i0, i1, i2} \<or> (\<exists>q k. waits s q k \<and> j \<in> chain (vd s) k)"
        using W newc wc(1) by (cases "q = p") auto
    next
      assume "j \<in> {i0, i1, i2} \<or> (\<exists>q k. waits s q k \<and> j \<in> chain (vd s) k)"
      then show "\<exists>q k. waits t q k \<and> j \<in> chain (vd t) k"
      proof
        assume "j \<in> {i0, i1, i2}"
        then show ?thesis using W newc by (intro exI [of _ p] exI [of _ i0]) simp
      next
        assume "\<exists>q k. waits s q k \<and> j \<in> chain (vd s) k"
        then obtain q k where "waits s q k" "j \<in> chain (vd s) k" by blast
        moreover have "q \<noteq> p" using calculation(1) np by blast
        ultimately show ?thesis using W wc(1) by (intro exI [of _ q] exI [of _ k]) simp
      qed
    qed
    moreover have "\<not> vfree (vd s) j \<longleftrightarrow> (\<exists>q k. waits s q k \<and> j \<in> chain (vd s) k)"
      by (rule chainsD(2) [OF vinv_parts(3) [OF inv] \<open>j < NUM\<close>])
    ultimately show "\<not> vfree (vd t) j \<longleftrightarrow> (\<exists>q k. waits t q k \<and> j \<in> chain (vd t) k)" using F(12) by auto
  qed
  moreover have "queued t"
    unfolding queued_def
  proof (intro conjI allI)
    have o: "set (in_flight t) = insert i0 (set (in_flight s))" by (auto simp: in_flight_def av us F)
    show "distinct (in_flight t)"
      using fresh vinv_parts(4) [OF inv] by (auto simp: in_flight_def av us F queued_def)
    fix k
    have "(\<exists>q c v h. vthr t q = VWait c v k h \<and> vbusy t c) \<longleftrightarrow> k = i0 \<or> (\<exists>q c v h. vthr s q = VWait c v k h \<and> vbusy s c)"
    proof
      assume "\<exists>q c v h. vthr t q = VWait c v k h \<and> vbusy t c"
      then obtain q c v h where q: "vthr t q = VWait c v k h" "vbusy t c" by blast
      then show "k = i0 \<or> (\<exists>q c v h. vthr s q = VWait c v k h \<and> vbusy s c)"
      proof (cases "q = p")
        case False
        then have s: "vthr s q = VWait c v k h" using q(1) F(9) by simp
        then have "vbusy s c" using q(2) F(8) old(5) [OF s False] by simp
        then show ?thesis using s by blast
      qed (use q(1) F(9) in simp)
    next
      assume "k = i0 \<or> (\<exists>q c v h. vthr s q = VWait c v k h \<and> vbusy s c)"
      then show "\<exists>q c v h. vthr t q = VWait c v k h \<and> vbusy t c"
      proof
        assume "k = i0"
        then show ?thesis by (intro exI [of _ p] exI [of _ b] exI [of _ w] exI [of _ g]) (simp add: F)
      next
        assume "\<exists>q c v h. vthr s q = VWait c v k h \<and> vbusy s c"
        then obtain q c v h where q: "vthr s q = VWait c v k h" "vbusy s c" by blast
        moreover have "q \<noteq> p" using q(1) p by auto
        ultimately show ?thesis by (intro exI [of _ q] exI [of _ c] exI [of _ v] exI [of _ h]) (simp add: F)
      qed
    qed
    then show "k \<in> set (in_flight t) \<longleftrightarrow> (\<exists>q c v h. vthr t q = VWait c v k h \<and> vbusy t c)"
      using o vinv_parts(4) [OF inv] by (simp add: queued_def)
  qed
  moreover have "sane t" using vinv_parts(1) [OF inv] by (simp add: sane_def F)
  moreover have "excl t"
  proof -
    have "vreq (vthr t q) = vreq (vthr s q)" for q using p F by auto
    then show ?thesis using vinv_parts(2) [OF inv] by (simp add: excl_def F)
  qed
  ultimately show ?thesis using req by (simp add: vinv_def)
qed

section \<open>The end of a request\<close>

lemma flag_values:
  "VRING_DESC_F_NEXT AND VRING_DESC_F_NEXT \<noteq> 0" "VRING_DESC_F_WRITE AND VRING_DESC_F_NEXT = 0"
  "((if w then 0 else VRING_DESC_F_WRITE) OR VRING_DESC_F_NEXT) AND VRING_DESC_F_NEXT \<noteq> 0"
  by (simp_all add: VRING_DESC_F_NEXT_def VRING_DESC_F_WRITE_def)

lemma free_chain_three:
  assumes "distinct [i, i1, i2]" "i < NUM" "i1 < NUM" "i2 < NUM" "\<not> vfree d i" "\<not> vfree d i1" "\<not> vfree d i2"
    and "vflags (vdesc d i) AND VRING_DESC_F_NEXT \<noteq> 0" "unat (vnext (vdesc d i)) = i1"
    and "vflags (vdesc d i1) AND VRING_DESC_F_NEXT \<noteq> 0" "unat (vnext (vdesc d i1)) = i2"
    and "vflags (vdesc d i2) AND VRING_DESC_F_NEXT = 0"
  shows "free_chain i d = Inr (d\<lparr>vdesc := (vdesc d)(i := desc0, i1 := desc0, i2 := desc0),
    vfree := (vfree d)(i := True, i1 := True, i2 := True)\<rparr>)"
proof -
  have f: "free_desc j e = Inr (e\<lparr>vdesc := (vdesc e)(j := desc0), vfree := (vfree e)(j := True)\<rparr>)" if "j < NUM" "\<not> vfree e j" for j e
    using that by (simp add: free_desc_def)
  show ?thesis
    using assms
    by (subst free_chain.simps, simp add: f [of i] Let_def, subst free_chain.simps, simp add: f [of i1] Let_def,
        subst free_chain.simps) (simp add: f [of i2] Let_def)
qed

lemma vinv_finish:
  assumes inv: "vinv s" and p: "vthr s p = VWait b w i g"
  shows "vinv (rw_finish p b w i g s)"
proof (cases "vbusy s b")
  case True
  then show ?thesis using inv by (simp add: rw_finish_def)
next
  case False
  obtain i1 i2 where c: "distinct [i, i1, i2]" "i < NUM" "i1 < NUM" "i2 < NUM"
    "vdesc (vd s) i = \<lparr>vaddr = VOp i, vlen = 16, vflags = VRING_DESC_F_NEXT, vnext = of_nat i1\<rparr>"
    "vdesc (vd s) i1 = \<lparr>vaddr = VData b, vlen = 1024, vflags = (if w then 0 else VRING_DESC_F_WRITE) OR VRING_DESC_F_NEXT, vnext = of_nat i2\<rparr>"
    "vdesc (vd s) i2 = \<lparr>vaddr = VStatus i, vlen = 1, vflags = VRING_DESC_F_WRITE, vnext = 0\<rparr>"
    "chain (vd s) i = {i, i1, i2}" using vinvD(1) [OF inv p] by (rule chain_okE)
  have nf: "\<not> vfree (vd s) i" "\<not> vfree (vd s) i1" "\<not> vfree (vd s) i2" using vinvD(2) [OF inv p] c(8) by blast+
  define d where "d = (vd s)\<lparr>vinf := (vinf (vd s))(i := (vinf (vd s) i)\<lparr>ibuf := None\<rparr>),
    vdesc := (vdesc (vd s))(i := desc0, i1 := desc0, i2 := desc0), vfree := (vfree (vd s))(i := True, i1 := True, i2 := True)\<rparr>"
  define t where "t = s\<lparr>vd := d, vthr := (vthr s)(p := VDone b w g)\<rparr>"
  have "free_chain i ((vd s)\<lparr>vinf := (vinf (vd s))(i := (vinf (vd s) i)\<lparr>ibuf := None\<rparr>)\<rparr>) = Inr d"
    unfolding d_def
    by (subst free_chain_three [of i i1 i2])
      (use c nf flag_values unat_u16 [OF c(3)] unat_u16 [OF c(4)] in simp_all)
  then have ft: "rw_finish p b w i g s = t" using False by (simp add: rw_finish_def t_def)
  have F: "vdead t = vdead s" "vdata t = vdata s" "vbno t = vbno s" "media t = media s" "vbusy t = vbusy s"
    "vthr t = (vthr s)(p := VDone b w g)" "vd t = d" "avail d = avail (vd s)" "used d = used (vd s)" "used_idx d = used_idx (vd s)"
    "vops d = vops (vd s)" "dev_idx t = dev_idx s" "dev_work t = dev_work s" "dev_failed t = dev_failed s" by (simp_all add: t_def d_def dev_failed_def)
  have it: "us_items t = us_items s" "in_flight t = in_flight s" by (simp_all add: us_items_def in_flight_def av_items_def F)
  have old: "chain_ok d c' v k (vbno s c')" "chain d k = chain (vd s) k" "{i, i1, i2} \<inter> chain (vd s) k = {}" "k \<noteq> i"
    if q: "vthr s q = VWait c' v k h" "q \<noteq> p" for q c' v k h
  proof -
    show dj: "{i, i1, i2} \<inter> chain (vd s) k = {}" using vinvD(3) [OF inv p q(1)] q(2) c(8) by auto
    then show ki: "k \<noteq> i" using vinvD(4) [OF inv q(1)] by blast
    have "vdesc d j = vdesc (vd s) j" if "j \<in> chain (vd s) k" for j using that dj by (auto simp: d_def)
    note C = chain_cong [OF vinvD(1) [OF inv q(1)] this]
    show "chain_ok d c' v k (vbno s c')" "chain d k = chain (vd s) k" using C ki by (simp_all add: d_def)
  qed
  have req: "req_ok t (vthr t q)" for q
  proof (cases "q = p")
    case True
    have "req_ok s (vthr s p)" by (rule vinv_parts(5) [OF inv])
    then show ?thesis using True p False by (simp add: req_ok_def after_rw_def F split: if_splits)
  next
    case qp: False
    have "req_ok t (vthr s q)"
    proof (rule req_ok_cong [OF vinv_parts(5) [OF inv]])
      fix c' v k h
      assume "vthr s q = VWait c' v k h"
      note O = old [OF this qp]
      show "chain_ok (vd t) c' v k (vbno s c') \<and> vbusy t c' = vbusy s c' \<and>
          (k \<in> set (us_items t) \<longleftrightarrow> k \<in> set (us_items s)) \<and> istatus (vinf (vd t) k) = istatus (vinf (vd s) k)"
        using O(1,4) it by (simp add: F) (simp add: d_def)
    qed (simp_all add: F)
    then show ?thesis using qp F by simp
  qed
  have W: "waits t q k \<longleftrightarrow> q \<noteq> p \<and> waits s q k" for q k by (auto simp: waits_def F)
  have wp: "waits s p k \<longleftrightarrow> k = i" for k using p by (auto simp: waits_def)
  have wc: "chain d k = chain (vd s) k" "{i, i1, i2} \<inter> chain (vd s) k = {}" if "waits s q k" "q \<noteq> p" for q k
    using that old(2,3) unfolding waits_def by blast+
  have "chains t"
    unfolding chains_def
  proof (intro conjI allI impI)
    fix q r k l
    assume h: "q \<noteq> r \<and> waits t q k \<and> waits t r l"
    then show "chain (vd t) k \<inter> chain (vd t) l = {}"
      using W wc(1) [of q k] wc(1) [of r l] chainsD(1) [OF vinv_parts(3) [OF inv], of q r k l] by (simp add: F)
  next
    fix j assume j: "j < NUM"
    have "(\<exists>q k. waits t q k \<and> j \<in> chain d k) \<longleftrightarrow> j \<notin> {i, i1, i2} \<and> (\<exists>q k. waits s q k \<and> j \<in> chain (vd s) k)"
    proof
      assume "\<exists>q k. waits t q k \<and> j \<in> chain d k"
      then obtain q k where "waits t q k" "j \<in> chain d k" by blast
      then have q: "waits s q k" "q \<noteq> p" "j \<in> chain d k" using W by simp_all
      then have "j \<in> chain (vd s) k" "j \<notin> {i, i1, i2}" using wc [OF q(1,2)] by auto
      then show "j \<notin> {i, i1, i2} \<and> (\<exists>q k. waits s q k \<and> j \<in> chain (vd s) k)" using q(1) by blast
    next
      assume a: "j \<notin> {i, i1, i2} \<and> (\<exists>q k. waits s q k \<and> j \<in> chain (vd s) k)"
      then obtain q k where q: "waits s q k" "j \<in> chain (vd s) k" by blast
      have "q \<noteq> p"
      proof
        assume "q = p"
        then have "k = i" using q(1) wp by simp
        then show False using a q(2) c(8) by simp
      qed
      then have "waits t q k" "j \<in> chain d k" using W q wc(1) [OF q(1)] by simp_all
      then show "\<exists>q k. waits t q k \<and> j \<in> chain d k" by blast
    qed
    then show "\<not> vfree (vd t) j \<longleftrightarrow> (\<exists>q k. waits t q k \<and> j \<in> chain (vd t) k)"
      using chainsD(2) [OF vinv_parts(3) [OF inv] j] by (simp add: F) (simp add: d_def)
  qed
  moreover have "queued t"
  proof -
    have "(\<exists>q c' v h. vthr t q = VWait c' v k h \<and> vbusy t c') \<longleftrightarrow> (\<exists>q c' v h. vthr s q = VWait c' v k h \<and> vbusy s c')" for k
    proof -
      have "vthr t q = VWait c' v k h \<and> vbusy t c' \<longleftrightarrow> vthr s q = VWait c' v k h \<and> vbusy s c'" for q c' v h
        using p False by (cases "q = p") (auto simp: F)
      then show ?thesis by simp
    qed
    then show ?thesis using vinv_parts(4) [OF inv] by (simp add: queued_def it)
  qed
  moreover have "sane t" using vinv_parts(1) [OF inv] by (simp add: sane_def F)
  moreover have "excl t"
  proof -
    have "vreq (vthr t q) = vreq (vthr s q)" for q using p F by auto
    then show ?thesis using vinv_parts(2) [OF inv] by (simp add: excl_def F)
  qed
  ultimately show ?thesis unfolding ft using req by (simp add: vinv_def)
qed

section \<open>The interrupt handler\<close>

lemma us_first:
  assumes "us_idx (used (vd s)) \<noteq> used_idx (vd s)" and "length (us_ring (used (vd s))) = NUM"
  shows "us_items s = unat (us_ring (used (vd s)) ! (unat (used_idx (vd s)) mod NUM)) #
      us_items (s\<lparr>vbusy := f, vd := (vd s)\<lparr>used_idx := used_idx (vd s) + 1\<rparr>\<rparr>)"
  using ring_drop(1) [OF assms(1), of "us_ring (used (vd s))"] assms(2) by (simp add: us_items_def)

lemma intr_head:
  assumes inv: "vinv s" and ne: "used_idx (vd s) \<noteq> us_idx (used (vd s))"
    and id: "i = unat (us_ring (used (vd s)) ! (unat (used_idx (vd s)) mod NUM))"
  obtains p b w g where "vthr s p = VWait b w i g" "vbusy s b" "i \<in> set (us_items s)"
    "\<forall>f. us_items s = i # us_items (s\<lparr>vbusy := f, vd := (vd s)\<lparr>used_idx := used_idx (vd s) + 1\<rparr>\<rparr>)"
proof -
  have len: "length (us_ring (used (vd s))) = NUM" using vinv_parts(1) [OF inv] by (simp add: sane_def)
  have us: "us_items s = i # us_items (s\<lparr>vbusy := f, vd := (vd s)\<lparr>used_idx := used_idx (vd s) + 1\<rparr>\<rparr>)" for f
    unfolding id using us_first [OF _ len] ne by simp
  have iu: "i \<in> set (us_items s)" by (subst us [of "vbusy s"]) simp
  then have "i \<in> set (in_flight s)" by (simp add: in_flight_def)
  then obtain p b w g where "vthr s p = VWait b w i g" "vbusy s b" using vinv_parts(4) [OF inv] unfolding queued_def by blast
  then show ?thesis using iu us by (intro that) blast+
qed

lemma vinv_intr_ok:
  assumes inv: "vinv s" and ne: "used_idx (vd s) \<noteq> us_idx (used (vd s))"
    and id: "i = unat (us_ring (used (vd s)) ! (unat (used_idx (vd s)) mod NUM))" and st: "istatus (vinf (vd s) i) = 0"
  shows "\<exists>b. ibuf (vinf (vd s) i) = Some b \<and>
    vinv (s\<lparr>vbusy := (vbusy s)(b := False), vd := (vd s)\<lparr>used_idx := used_idx (vd s) + 1\<rparr>\<rparr>)"
proof -
  obtain p b w g where p: "vthr s p = VWait b w i g" "vbusy s b" and iu: "i \<in> set (us_items s)"
    and us: "\<forall>f. us_items s = i # us_items (s\<lparr>vbusy := f, vd := (vd s)\<lparr>used_idx := used_idx (vd s) + 1\<rparr>\<rparr>)"
    by (rule intr_head [OF inv ne id])
  have "req_ok s (VWait b w i g)" using vinv_parts(5) [OF inv, of p] p(1) by simp
  then have ok: "chain_ok (vd s) b w i (vbno s b)" "after_rw s b w g" "istatus (vinf (vd s) i) = 0"
    using iu st by (auto simp: req_ok_def split: if_splits)
  have ib: "ibuf (vinf (vd s) i) = Some b" using ok(1) by (rule chain_okE)
  define t where "t = s\<lparr>vbusy := (vbusy s)(b := False), vd := (vd s)\<lparr>used_idx := used_idx (vd s) + 1\<rparr>\<rparr>"
  have F: "vthr t = vthr s" "vdata t = vdata s" "vbno t = vbno s" "media t = media s" "vdead t = vdead s"
    "vdesc (vd t) = vdesc (vd s)" "vfree (vd t) = vfree (vd s)" "vinf (vd t) = vinf (vd s)" "vops (vd t) = vops (vd s)"
    "avail (vd t) = avail (vd s)" "used (vd t) = used (vd s)" "vbusy t = (vbusy s)(b := False)"
    "dev_work t = dev_work s" "dev_idx t = dev_idx s" "dev_failed t = dev_failed s" by (simp_all add: t_def dev_failed_def)
  have ust: "us_items s = i # us_items t" unfolding t_def by (rule us [rule_format])
  have dist: "distinct (in_flight s)" using vinv_parts(4) [OF inv] by (simp add: queued_def)
  have "chain_ok (vd t) c v k n = chain_ok (vd s) c v k n" "chain (vd t) k = chain (vd s) k" for c v k n
    by (simp_all add: chain_ok_def chain_def F)
  note C = this
  have other: "k \<noteq> i \<and> c \<noteq> b" if "vthr s q = VWait c v k h" "q \<noteq> p" for q c v k h
  proof -
    have "chain (vd s) i \<inter> chain (vd s) k = {}" using vinvD(3) [OF inv p(1) that(1)] that(2) by auto
    moreover have "vreq (vthr s q) = Some c" "vreq (vthr s p) = Some b" using that(1) p(1) by simp_all
    ultimately show ?thesis
      using vinvD(4) [OF inv that(1)] vinvD(4) [OF inv p(1)] vinv_parts(2) [OF inv] that(2) unfolding excl_def by blast
  qed
  have "req_ok t (vthr t q)" for q
  proof (cases "q = p")
    case True
    then show ?thesis using p(1) ok C by (simp add: req_ok_def F after_rw_def)
  next
    case False
    have "req_ok t (vthr s q)"
    proof (rule req_ok_cong [OF vinv_parts(5) [OF inv]])
      fix c v k h
      assume q: "vthr s q = VWait c v k h"
      have "k \<noteq> i" "c \<noteq> b" using other [OF q False] by auto
      then show "chain_ok (vd t) c v k (vbno s c) \<and> vbusy t c = vbusy s c \<and>
          (k \<in> set (us_items t) \<longleftrightarrow> k \<in> set (us_items s)) \<and> istatus (vinf (vd t) k) = istatus (vinf (vd s) k)"
        using vinvD(1) [OF inv q] C ust by (simp add: F)
    qed (simp_all add: F)
    then show ?thesis by (simp add: F)
  qed
  moreover have "queued t"
  proof -
    have inf: "in_flight s = av_items t @ dev_work t @ i # us_items t" "in_flight t = av_items t @ dev_work t @ us_items t"
      using ust by (simp_all add: in_flight_def av_items_def F)
    then have "distinct (in_flight t)" and st: "set (in_flight t) = set (in_flight s) - {i}" using dist by auto
    moreover have "(\<exists>q c v h. vthr t q = VWait c v k h \<and> vbusy t c) \<longleftrightarrow>
        k \<noteq> i \<and> (\<exists>q c v h. vthr s q = VWait c v k h \<and> vbusy s c)" for k
    proof
      assume "\<exists>q c v h. vthr t q = VWait c v k h \<and> vbusy t c"
      then obtain q c v h where q: "vthr s q = VWait c v k h" "vbusy t c" unfolding F by blast
      have "q \<noteq> p" using q p(1) by (auto simp: F)
      then have "k \<noteq> i" "vbusy s c" using other [OF q(1)] q(2) by (simp_all add: F)
      then show "k \<noteq> i \<and> (\<exists>q c v h. vthr s q = VWait c v k h \<and> vbusy s c)" using q(1) by blast
    next
      assume "k \<noteq> i \<and> (\<exists>q c v h. vthr s q = VWait c v k h \<and> vbusy s c)"
      then obtain q c v h where k: "k \<noteq> i" and q: "vthr s q = VWait c v k h" "vbusy s c" by blast
      have "q \<noteq> p" using k q(1) p(1) by auto
      then have "vbusy t c" using other [OF q(1)] q(2) by (simp add: F)
      then show "\<exists>q c v h. vthr t q = VWait c v k h \<and> vbusy t c" using q(1) unfolding F by blast
    qed
    ultimately show ?thesis using vinv_parts(4) [OF inv] st unfolding queued_def by (simp add: conj_commute)
  qed
  moreover have "waits t q k = waits s q k" for q k by (simp add: waits_def F)
  then have "chains t" using vinv_parts(3) [OF inv] by (simp add: chains_def C F)
  moreover have "sane t" using vinv_parts(1) [OF inv] by (simp add: sane_def F)
  moreover have "excl t" using vinv_parts(2) [OF inv] by (simp add: excl_def F)
  ultimately have "vinv t" by (simp add: vinv_def)
  then show ?thesis using ib unfolding t_def by blast
qed

lemma vinv_intr_bad:
  assumes inv: "vinv s" and ne: "used_idx (vd s) \<noteq> us_idx (used (vd s))"
    and id: "i = unat (us_ring (used (vd s)) ! (unat (used_idx (vd s)) mod NUM))" and st: "istatus (vinf (vd s) i) \<noteq> 0"
  shows "dev_failed s"
proof -
  obtain p b w g where "vthr s p = VWait b w i g" "i \<in> set (us_items s)" by (rule intr_head [OF inv ne id])
  then show ?thesis using vinv_parts(5) [OF inv, of p] st by (simp add: req_ok_def)
qed

lemma vinv_dead:
  assumes "vinv s" and "dev_failed s"
  shows "vinv (s\<lparr>vdead := Some ''virtio_disk_intr status''\<rparr>)"
proof -
  let ?t = "s\<lparr>vdead := Some ''virtio_disk_intr status''\<rparr>"
  have i: "us_items ?t = us_items s" "in_flight ?t = in_flight s" "dev_failed ?t = dev_failed s"
    by (simp_all add: us_items_def in_flight_def av_items_def dev_failed_def)
  have "req_ok ?t (vthr s q)" for q
    by (rule req_ok_cong [OF vinv_parts(5) [OF assms(1)]]) (use vinvD(1) [OF assms(1)] i in simp_all)
  then show ?thesis
    using vinv_parts(1-4) [OF assms(1)] assms(2) i
    by (simp add: vinv_def sane_def excl_def chains_def queued_def waits_def)
qed

lemma vinv_intr_loop: "vinv s \<Longrightarrow> vinv (intr_loop n s)"
proof (induction n arbitrary: s)
  case (Suc n)
  show ?case
  proof (cases "used_idx (vd s) = us_idx (used (vd s))")
    case False
    let ?i = "unat (us_ring (used (vd s)) ! (unat (used_idx (vd s)) mod NUM))"
    show ?thesis
    proof (cases "istatus (vinf (vd s) ?i) = 0")
      case True
      then show ?thesis using vinv_intr_ok [OF Suc.prems False refl] Suc.IH False by (auto simp: Let_def)
    next
      case bad: False
      then show ?thesis
        using vinv_dead [OF Suc.prems vinv_intr_bad [OF Suc.prems False refl]] False by (simp add: Let_def)
    qed
  qed (use Suc.prems in simp)
qed simp

section \<open>The device\<close>

lemma vinv_take:
  assumes inv: "vinv s" and ne: "dev_idx s \<noteq> av_idx (avail (vd s))"
  shows "vinv (dev_take s)"
proof -
  let ?h = "unat (av_ring (avail (vd s)) ! (unat (dev_idx s) mod NUM))"
  define t where "t = dev_take s"
  have F: "vd t = vd s" "vdata t = vdata s" "vbno t = vbno s" "media t = media s" "vdead t = vdead s" "vbusy t = vbusy s"
    "vthr t = vthr s" "dev_work t = dev_work s @ [?h]" "dev_idx t = dev_idx s + 1" "dev_failed t = dev_failed s"
    by (simp_all add: t_def dev_take_def dev_failed_def)
  have len: "length (av_ring (avail (vd s))) = NUM" using vinv_parts(1) [OF inv] by (simp add: sane_def)
  have av: "av_items s = ?h # av_items t"
    using ring_drop(1) [OF ne [symmetric], of "av_ring (avail (vd s))"] len by (simp add: av_items_def F)
  have us: "us_items t = us_items s" by (simp add: us_items_def F)
  have fl: "set (in_flight t) = set (in_flight s)" "distinct (in_flight t) = distinct (in_flight s)"
    by (auto simp: in_flight_def av us F)
  have "req_ok t (vthr s q)" for q
    by (rule req_ok_cong [OF vinv_parts(5) [OF inv]]) (use vinvD(1) [OF inv] in \<open>simp_all add: F us\<close>)
  then show ?thesis
    using vinv_parts(1-4) [OF inv] unfolding t_def [symmetric] vinv_def
    by (simp add: sane_def excl_def chains_def queued_def waits_def F fl)
qed

lemma unat_sector: "n < 2 ^ 31 \<Longrightarrow> unat (sector_of n) = 2 * unat n"
proof -
  assume "n < 2 ^ 31"
  then have n: "unat n < 2 ^ 31" by (simp add: word_less_nat_alt)
  then have "unat (n * 2) = unat n * 2" by (simp add: unat_word_ariths)
  then show ?thesis using n by (simp add: sector_of_def unsigned_ucast_eq take_bit_nat_eq_self)
qed

lemma sectors_apart:
  assumes "n < 2 ^ 31" and "m < 2 ^ 31" and "n \<noteq> m"
  shows "sector_of n \<noteq> sector_of m" "sector_of n \<noteq> sector_of m + 1" "sector_of n + 1 \<noteq> sector_of m" "sector_of n + 1 \<noteq> sector_of m + 1"
proof -
  have s: "unat (sector_of k) = 2 * unat k" "unat (sector_of k + 1) = 2 * unat k + 1" if "k < 2 ^ 31" for k
  proof -
    show u: "unat (sector_of k) = 2 * unat k" by (rule unat_sector [OF that])
    have "unat k < 2 ^ 31" using that by (simp add: word_less_nat_alt)
    then show "unat (sector_of k + 1) = 2 * unat k + 1" using u by (simp add: unat_word_ariths)
  qed
  have "unat n \<noteq> unat m" using assms(3) unsigned_word_eqI [of n m] by blast
  then have "2 * unat n \<noteq> 2 * unat m" "2 * unat n \<noteq> 2 * unat m + 1" "2 * unat n + 1 \<noteq> 2 * unat m" "2 * unat n + 1 \<noteq> 2 * unat m + 1"
    by presburger+
  then show "sector_of n \<noteq> sector_of m" "sector_of n \<noteq> sector_of m + 1" "sector_of n + 1 \<noteq> sector_of m" "sector_of n + 1 \<noteq> sector_of m + 1"
    using s [OF assms(1)] s [OF assms(2)] by metis+
qed

lemma transfer_block:
  assumes "before_rw s b g"
  shows "after_rw (blk_transfer w b (sector_of (vbno s b)) s) b w g"
  using assms by (simp add: after_rw_def before_rw_def blk_transfer_def dblk_def)

text \<open>With success or not, a request changes its buffer or its block only.\<close>

lemma transfer_is_error:
  assumes "length (vdata s b) = 1024" and "\<And>x. length (media s x) = 512"
  shows "blk_error w b n s (blk_transfer w b n s)"
proof (cases w)
  case True
  then show ?thesis
    unfolding blk_error_def blk_transfer_def if_P [OF True]
    by (intro exI [of _ "take 512 (vdata s b)"] exI [of _ "drop 512 (vdata s b)"]) (use assms(1) in simp)
next
  case False
  then show ?thesis
    unfolding blk_error_def blk_transfer_def if_not_P [OF False]
    by (intro exI [of _ "media s n @ media s (n + 1)"]) (use assms(2) in simp)
qed

lemma request_frame:
  assumes "vbno s b < 2 ^ 31" and "length (vdata s b) = 1024" and "\<And>x. length (media s x) = 512"
    and r: "r = blk_transfer w b (sector_of (vbno s b)) s \<or> blk_error w b (sector_of (vbno s b)) s r"
  shows "\<And>x. length (media r x) = 512" "\<And>c. length (vdata r c) = (if c = b then 1024 else length (vdata s c))"
    "\<And>c. c \<noteq> b \<Longrightarrow> vdata r c = vdata s c"
    "\<And>m. m < 2 ^ 31 \<Longrightarrow> m \<noteq> vbno s b \<Longrightarrow> dblk (media r) m = dblk (media s) m"
    "vbno r = vbno s" "vd r = vd s" "vbusy r = vbusy s" "vthr r = vthr s" "vdead r = vdead s" "dev_idx r = dev_idx s"
    "dev_work r = dev_work s" "dev_status r = dev_status s"
proof -
  let ?n = "sector_of (vbno s b)"
  have err: "blk_error w b ?n s r" using r transfer_is_error [OF assms(2,3)] by blast
  obtain x y z where e: "r = s\<lparr>media := (media s)(?n := x, ?n + 1 := y)\<rparr> \<and> w \<or> r = s\<lparr>vdata := (vdata s)(b := z)\<rparr> \<and> \<not> w"
    and l: "length x = 512" "length y = 512" "length z = 1024"
  proof (cases w)
    case True
    then have "\<exists>x y. length x = 512 \<and> length y = 512 \<and> r = s\<lparr>media := (media s)(?n := x, ?n + 1 := y)\<rparr>"
      using err by (simp add: blk_error_def)
    then show ?thesis using that [of _ _ "vdata s b"] True assms(2) by blast
  next
    case False
    then have "\<exists>z. length z = 1024 \<and> r = s\<lparr>vdata := (vdata s)(b := z)\<rparr>"
      using err by (simp add: blk_error_def)
    then show ?thesis using that [of "media s ?n" "media s ?n"] False assms(3) by blast
  qed
  have m: "media r x = media s x" if "x \<noteq> ?n" "x \<noteq> ?n + 1" for x using e that by auto
  show "length (media r x) = 512" for x using e l assms(3) by auto
  show "length (vdata r c) = (if c = b then 1024 else length (vdata s c))" for c using e l assms(2) by auto
  show "vdata r c = vdata s c" if "c \<noteq> b" for c using e that by auto
  show "dblk (media r) k = dblk (media s) k" if "k < 2 ^ 31" "k \<noteq> vbno s b" for k
    using sectors_apart [OF that(1) assms(1) that(2)] by (simp add: dblk_def m)
  show "vbno r = vbno s" "vd r = vd s" "vbusy r = vbusy s" "vthr r = vthr s" "vdead r = vdead s" "dev_idx r = dev_idx s"
    "dev_work r = dev_work s" "dev_status r = dev_status s" using e by auto
qed

lemma vinv_done:
  assumes inv: "vinv s" and h: "h \<in> set (dev_work s)" and p: "vthr s p = VWait b w h g" "vbusy s b"
    and r: "if st = 0 then r = blk_transfer w b (sector_of (vbno s b)) s else blk_error w b (sector_of (vbno s b)) s r"
  shows "vinv (dev_done h h st r)"
proof -
  define t where "t = dev_done h h st r"
  have "vreq (vthr s p) = Some b" using p(1) by simp
  then have "vbno s b < 2 ^ 31" using vinv_parts(2) [OF inv] unfolding excl_def by blast
  then have S: "vbno s b < 2 ^ 31" "length (vdata s b) = 1024" "\<And>x. length (media s x) = 512" "\<And>c. length (vdata s c) = 1024"
    using vinv_parts(1) [OF inv] by (simp_all add: sane_def)
  have dist: "distinct (in_flight s)" using vinv_parts(4) [OF inv] by (simp add: queued_def)
  then have hu: "h \<notin> set (us_items s)" "h \<notin> set (av_items s)" "distinct (dev_work s)" using h by (auto simp: in_flight_def)
  have "req_ok s (VWait b w h g)" using vinv_parts(5) [OF inv, of p] p(1) by simp
  then have bef: "before_rw s b g" using p(2) hu(1) by (simp add: req_ok_def)
  have "r = blk_transfer w b (sector_of (vbno s b)) s \<or> blk_error w b (sector_of (vbno s b)) s r"
    using r by (simp split: if_splits)
  note R = request_frame [OF S(1-3) this]
  have F: "vdata t = vdata r" "media t = media r" "vbno t = vbno s" "vbusy t = vbusy s" "vthr t = vthr s" "vdead t = vdead s"
    "dev_idx t = dev_idx s" "dev_work t = remove1 h (dev_work s)" "vdesc (vd t) = vdesc (vd s)" "vfree (vd t) = vfree (vd s)"
    "avail (vd t) = avail (vd s)" "used_idx (vd t) = used_idx (vd s)" "vops (vd t) = vops (vd s)"
    "vinf (vd t) = (vinf (vd s))(h := (vinf (vd s) h)\<lparr>istatus := st\<rparr>)" "dev_status t = dev_status s @ [st]"
    "us_idx (used (vd t)) = us_idx (used (vd s)) + 1"
    "us_ring (used (vd t)) = (us_ring (used (vd s)))[unat (us_idx (used (vd s))) mod NUM := of_nat h]"
    by (simp_all add: t_def dev_done_def Let_def R)
  have hN: "h < NUM" using vinvD(2,4) [OF inv p(1)] by blast
  have "length (us_items s) < NUM"
  proof -
    have "set (us_items s) \<subseteq> {..<NUM} - {h}"
    proof
      fix k assume k: "k \<in> set (us_items s)"
      then obtain q c v f where "vthr s q = VWait c v k f"
        using vinv_parts(4) [OF inv] us_in_flight unfolding queued_def by blast
      then show "k \<in> {..<NUM} - {h}" using vinvD(2,4) [OF inv] hu(1) k by blast
    qed
    then have "card (set (us_items s)) \<le> card ({..<NUM} - {h})" by (rule card_mono [rotated]) simp
    moreover have "card ({..<NUM} - {h}) < NUM" using hN by simp
    moreover have "distinct (us_items s)" using dist by (simp add: in_flight_def)
    ultimately show ?thesis using distinct_card [of "us_items s"] by simp
  qed
  then have us: "us_items t = us_items s @ [h]"
    using ring16 [of "us_ring (used (vd s))" "us_idx (used (vd s))" "used_idx (vd s)" "of_nat h"] vinv_parts(1) [OF inv] unat_u32 [OF hN]
    by (simp add: us_items_def F sane_def)
  have av: "av_items t = av_items s" by (simp add: av_items_def F)
  have C: "chain_ok (vd t) c v k n = chain_ok (vd s) c v k n" "chain (vd t) k = chain (vd s) k" for c v k n
    by (simp_all add: chain_ok_def chain_def F)
  have other: "k \<noteq> h" if "vthr s q = VWait c v k f" "q \<noteq> p" for q c v k f
    using vinvD(3) [OF inv p(1) that(1)] that(2) vinvD(4) [OF inv that(1)] vinvD(4) [OF inv p(1)] by blast
  have apart: "c \<noteq> b \<and> vbno s c \<noteq> vbno s b \<and> vbno s c < 2 ^ 31" if "vreq (vthr s q) = Some c" "q \<noteq> p" for q c
  proof -
    have "vreq (vthr s p) = Some b" using p(1) by simp
    then show ?thesis using vinv_parts(2) [OF inv] that unfolding excl_def by blast
  qed
  have "req_ok t (vthr t q)" for q
  proof (cases "q = p")
    case True
    have "after_rw t b w g" if "st = 0"
    proof -
      have "after_rw r b w g" using transfer_block [OF bef, of w] r that by simp
      then show ?thesis by (simp add: after_rw_def F R(5))
    qed
    moreover have "dev_failed t" if "st \<noteq> 0" using that by (simp add: dev_failed_def F)
    moreover have "chain_ok (vd s) b w h (vbno s b)" by (rule vinvD(1) [OF inv p(1)])
    ultimately show ?thesis using True p C us by (simp add: req_ok_def F)
  next
    case False
    have "req_ok t (vthr s q)"
    proof (rule req_ok_cong [OF vinv_parts(5) [OF inv]])
      fix c v k f
      assume q: "vthr s q = VWait c v k f"
      then show "chain_ok (vd t) c v k (vbno s c) \<and> vbusy t c = vbusy s c \<and>
          (k \<in> set (us_items t) \<longleftrightarrow> k \<in> set (us_items s)) \<and> istatus (vinf (vd t) k) = istatus (vinf (vd s) k)"
        using vinvD(1) [OF inv q] other [OF q False] C us by (simp add: F)
    next
      fix c
      assume "vreq (vthr s q) = Some c"
      note A = apart [OF this False]
      then show "vdata t c = vdata s c \<and> vbno t c = vbno s c \<and> dblk (media t) (vbno s c) = dblk (media s) (vbno s c)"
        using R(3) [of c] R(4) [of "vbno s c"] by (simp add: F)
    qed (simp add: dev_failed_def F)
    then show ?thesis by (simp add: F)
  qed
  moreover have "queued t"
  proof -
    have "set (in_flight t) = set (in_flight s)" using h hu(3) by (auto simp: in_flight_def av us F)
    moreover have "distinct (in_flight t)" using dist h by (auto simp: in_flight_def av us F notin_set_remove1)
    ultimately show ?thesis using vinv_parts(4) [OF inv] by (simp add: queued_def F)
  qed
  moreover have "waits t q k = waits s q k" for q k by (simp add: waits_def F)
  then have "chains t" using vinv_parts(3) [OF inv] by (simp add: chains_def C F)
  moreover have "sane t" using vinv_parts(1) [OF inv] R(1,2) S(4) by (auto simp: sane_def dev_failed_def F)
  moreover have "excl t" using vinv_parts(2) [OF inv] by (simp add: excl_def F)
  ultimately show ?thesis unfolding t_def [symmetric] by (simp add: vinv_def)
qed

lemma vinv_dev:
  assumes inv: "vinv s" and "virtio_spec s t"
  shows "vinv t"
  using assms(2) unfolding virtio_spec_def
proof
  assume "dev_idx s \<noteq> av_idx (avail (vd s)) \<and> t = dev_take s"
  then show ?thesis using vinv_take [OF inv] by blast
next
  assume "\<exists>h \<in> set (dev_work s).
        let d = vd s; d0 = vdesc d h; d1 = vdesc d (unat (vnext d0)); d2 = vdesc d (unat (vnext d1)) in
        case (vaddr d0, vaddr d1, vaddr d2) of
          (VOp k, VData b, VStatus j) \<Rightarrow>
            vlen d0 = 16 \<and> vlen d1 = 1024 \<and> vlen d2 = 1 \<and>
            vflags d0 = VRING_DESC_F_NEXT \<and> vflags d2 = VRING_DESC_F_WRITE \<and>
            vflags d1 = (if rtype (vops d k) = VIRTIO_BLK_T_OUT then 0 else VRING_DESC_F_WRITE) OR VRING_DESC_F_NEXT \<longrightarrow>
            (\<exists>st r. t = dev_done h j st r \<and>
               (if st = 0 then r = blk_transfer (rtype (vops d k) = VIRTIO_BLK_T_OUT) b (rsector (vops d k)) s
                else blk_error (rtype (vops d k) = VIRTIO_BLK_T_OUT) b (rsector (vops d k)) s r))
        | _ \<Rightarrow> True" (is "\<exists>h \<in> _. ?C h")
  then obtain h where h: "h \<in> set (dev_work s)" "?C h" by blast
  then have "h \<in> set (in_flight s)" by (simp add: in_flight_def)
  then obtain p b w g where p: "vthr s p = VWait b w h g" "vbusy s b" using vinv_parts(4) [OF inv] unfolding queued_def by blast
  obtain i1 i2 where c: "i1 < NUM" "i2 < NUM"
    "vdesc (vd s) h = \<lparr>vaddr = VOp h, vlen = 16, vflags = VRING_DESC_F_NEXT, vnext = of_nat i1\<rparr>"
    "vdesc (vd s) i1 = \<lparr>vaddr = VData b, vlen = 1024, vflags = (if w then 0 else VRING_DESC_F_WRITE) OR VRING_DESC_F_NEXT, vnext = of_nat i2\<rparr>"
    "vdesc (vd s) i2 = \<lparr>vaddr = VStatus h, vlen = 1, vflags = VRING_DESC_F_WRITE, vnext = 0\<rparr>"
    "vops (vd s) h = \<lparr>rtype = (if w then VIRTIO_BLK_T_OUT else VIRTIO_BLK_T_IN), rreserved = 0, rsector = sector_of (vbno s b)\<rparr>"
    using vinvD(1) [OF inv p(1)] by (rule chain_okE)
  have ty: "(if w then VIRTIO_BLK_T_OUT else VIRTIO_BLK_T_IN) = VIRTIO_BLK_T_OUT \<longleftrightarrow> w"
    by (simp add: VIRTIO_BLK_T_OUT_def VIRTIO_BLK_T_IN_def)
  have "\<exists>st r. t = dev_done h h st r \<and>
    (if st = 0 then r = blk_transfer w b (sector_of (vbno s b)) s else blk_error w b (sector_of (vbno s b)) s r)"
    using h(2) c unat_u16 [OF c(1)] unat_u16 [OF c(2)] by (simp add: Let_def ty cong: if_cong)
  then obtain st r where "t = dev_done h h st r"
    "if st = 0 then r = blk_transfer w b (sector_of (vbno s b)) s else blk_error w b (sector_of (vbno s b)) s r" by blast
  then show ?thesis using vinv_done [OF inv h(1) p] by simp
qed

section \<open>All reachable states\<close>

lemma vinv_edit:
  assumes inv: "vinv s" and nb: "\<And>q. vreq (vthr s q) \<noteq> Some b" and "length x = 1024"
  shows "vinv (s\<lparr>vdata := (vdata s)(b := x), vbno := (vbno s)(b := n)\<rparr>)"
proof -
  define t where "t = s\<lparr>vdata := (vdata s)(b := x), vbno := (vbno s)(b := n)\<rparr>"
  have F: "vd t = vd s" "media t = media s" "vbusy t = vbusy s" "vthr t = vthr s" "vdead t = vdead s" "dev_idx t = dev_idx s"
    "dev_work t = dev_work s" "vdata t = (vdata s)(b := x)" "vbno t = (vbno s)(b := n)" "dev_failed t = dev_failed s"
    by (simp_all add: t_def dev_failed_def)
  have it: "us_items t = us_items s" "in_flight t = in_flight s" by (simp_all add: us_items_def in_flight_def av_items_def F)
  have ne: "c \<noteq> b" if "vreq (vthr s q) = Some c" for q c using nb [of q] that by auto
  have "req_ok t (vthr s q)" for q
  proof (rule req_ok_cong [OF vinv_parts(5) [OF inv]])
    fix c v k f
    assume "vthr s q = VWait c v k f"
    then show "chain_ok (vd t) c v k (vbno s c) \<and> vbusy t c = vbusy s c \<and>
        (k \<in> set (us_items t) \<longleftrightarrow> k \<in> set (us_items s)) \<and> istatus (vinf (vd t) k) = istatus (vinf (vd s) k)"
      using vinvD(1) [OF inv] it by (simp add: F)
  next
    fix c
    assume "vreq (vthr s q) = Some c"
    then show "vdata t c = vdata s c \<and> vbno t c = vbno s c \<and> dblk (media t) (vbno s c) = dblk (media s) (vbno s c)"
      using ne by (auto simp: F)
  qed (simp add: F)
  moreover have "excl t"
    unfolding excl_def
  proof (intro conjI allI impI)
    show "vbno t c < 2 ^ 31" if "vreq (vthr t q) = Some c" for q c
      using that ne [of q c] vinv_parts(2) [OF inv] by (auto simp: excl_def F)
    fix q r c e
    assume "q \<noteq> r \<and> vreq (vthr t q) = Some c \<and> vreq (vthr t r) = Some e"
    then have h: "q \<noteq> r" "vreq (vthr s q) = Some c" "vreq (vthr s r) = Some e" by (simp_all add: F)
    have "c \<noteq> e \<and> vbno s c \<noteq> vbno s e" using vinv_parts(2) [OF inv] h unfolding excl_def by blast
    then show "c \<noteq> e" "vbno t c \<noteq> vbno t e" using ne [OF h(2)] ne [OF h(3)] by (simp_all add: F)
  qed
  moreover have "sane t" using vinv_parts(1) [OF inv] assms(3) by (simp add: sane_def F)
  moreover have "chains t" "queued t"
    using vinv_parts(3,4) [OF inv] by (simp_all add: chains_def queued_def waits_def it F)
  ultimately show ?thesis unfolding t_def [symmetric] by (simp add: vinv_def F)
qed

lemma vinv_start:
  assumes inv: "vinv s" and p: "vthr s p = VAsk b w g"
  shows "vinv (rw_start p b w g s)"
proof (cases rule: alloc3_cases [of "vd s"])
  case (fail d')
  have "vinv (s\<lparr>vd := d'\<rparr>)" by (rule vinv_start_fail [OF inv fail(2-8)])
  then show ?thesis using fail(1) by (simp add: rw_start_def)
next
  case (ok i0 i1 i2)
  show ?thesis
    by (rule vinv_submit [OF inv p ok(2-8)]) (use ok(1) in \<open>simp add: rw_start_def Let_def rw_submit_def\<close>)
qed

lemma vinv_init:
  assumes "vinit s"
  shows "vinv s"
proof -
  obtain R pages d ws where d: "used_idx d = 0" "virtio_disk_init R pages d = (ws, Inr (vd s))" using assms unfolding vinit_def by blast
  note D = virtio_disk_init_ok [OF d(2)]
  have "av_items s = []" "us_items s = []" using assms d(1) D by (simp_all add: vinit_def av_items_def us_items_def ring_items_def)
  then show ?thesis
    using assms D unfolding vinit_def vinv_def
    by (simp add: sane_def excl_def chains_def queued_def waits_def req_ok_def in_flight_def)
qed

lemma vinv_step:
  assumes "vstep dev s t" and "vinv s" and "\<And>s t. dev s t \<Longrightarrow> virtio_spec s t"
  shows "vinv t"
  using assms
proof (induction rule: vstep.induct)
  case (v_call s p b w)
  then show ?case using vinv_call by blast
next
  case (v_intr s)
  then show ?case by (simp add: virtio_disk_intr_def vinv_intr_loop)
qed (simp_all add: vinv_start vinv_finish vinv_return vinv_dev vinv_edit)

lemma vreach_inv:
  assumes "vreach dev s" and "\<And>s t. dev s t \<Longrightarrow> virtio_spec s t"
  shows "vinv s"
  using assms(1) by (induction rule: vreach.induct) (use vinv_init vinv_step assms(2) in blast)+

lemma chain_card:
  assumes "vinv s" and "vthr s p = VWait b w i g"
  shows "card (chain (vd s) i) = 3" "chain (vd s) i \<subseteq> {..<NUM}"
proof -
  obtain i1 i2 where c: "distinct [i, i1, i2]" "i < NUM" "i1 < NUM" "i2 < NUM"
    "vdesc (vd s) i = \<lparr>vaddr = VOp i, vlen = 16, vflags = VRING_DESC_F_NEXT, vnext = of_nat i1\<rparr>"
    "vdesc (vd s) i1 = \<lparr>vaddr = VData b, vlen = 1024, vflags = (if w then 0 else VRING_DESC_F_WRITE) OR VRING_DESC_F_NEXT, vnext = of_nat i2\<rparr>"
    using vinvD(1) [OF assms] by (rule chain_okE)
  then have "chain (vd s) i = set [i, i1, i2]" using unat_u16 by (simp add: chain_def)
  then show "card (chain (vd s) i) = 3" "chain (vd s) i \<subseteq> {..<NUM}" using c by (simp_all add: card_insert_if)
qed

lemma waiting_cards:
  assumes inv: "vinv s"
  shows "finite {p. \<exists>i. waits s p i}" "card {j. j < NUM \<and> \<not> vfree (vd s) j} = 3 * card {p. \<exists>i. waits s p i}"
proof -
  let ?W = "{p. \<exists>i. waits s p i}"
  define f where "f p = chain (vd s) (case vthr s p of VWait b w i g \<Rightarrow> i | _ \<Rightarrow> 0)" for p
  have fw: "f p = chain (vd s) i" if "waits s p i" for p i using that by (auto simp: f_def waits_def)
  have f: "card (f p) = 3 \<and> f p \<subseteq> {..<NUM}" if h: "p \<in> ?W" for p
  proof -
    obtain i b w g where "vthr s p = VWait b w i g" using h by (auto simp: waits_def)
    then show ?thesis using chain_card [OF inv] by (simp add: f_def)
  qed
  have dis: "f p \<inter> f q = {}" if pq: "p \<in> ?W" "q \<in> ?W" "p \<noteq> q" for p q
  proof -
    obtain i k where "waits s p i" "waits s q k" using pq by blast
    then show ?thesis using chainsD(1) [OF vinv_parts(3) [OF inv] pq(3)] fw by simp
  qed
  have card: "card (\<Union> (f ` A)) = 3 * card A" if A: "finite A" "A \<subseteq> ?W" for A
  proof -
    have "card (\<Union> (f ` A)) = (\<Sum>p\<in>A. card (f p))"
    proof (rule card_UN_disjoint [OF A(1)])
      show "\<forall>p\<in>A. finite (f p)" using f A(2) finite_subset by blast
      show "\<forall>p\<in>A. \<forall>q\<in>A. p \<noteq> q \<longrightarrow> f p \<inter> f q = {}" using dis A(2) by blast
    qed
    also have "\<dots> = (\<Sum>p\<in>A. 3)" using f A(2) by (intro sum.cong) blast+
    finally show ?thesis by simp
  qed
  have bound: "card A \<le> 2" if A: "finite A" "A \<subseteq> ?W" for A
  proof -
    have "card (\<Union> (f ` A)) \<le> card {..<NUM}" using f A(2) by (intro card_mono) blast+
    then show ?thesis using card [OF A] by (simp add: NUM_def)
  qed
  show fin: "finite ?W"
  proof (rule ccontr)
    assume "infinite ?W"
    then obtain A where "finite A" "card A = 3" "A \<subseteq> ?W" using infinite_arbitrarily_large by blast
    then show False using bound [of A] by simp
  qed
  have "{j. j < NUM \<and> \<not> vfree (vd s) j} = \<Union> (f ` ?W)"
  proof (intro equalityI subsetI)
    fix j assume "j \<in> {j. j < NUM \<and> \<not> vfree (vd s) j}"
    then obtain p i where "waits s p i" "j \<in> chain (vd s) i" using chainsD(2) [OF vinv_parts(3) [OF inv]] by blast
    then show "j \<in> \<Union> (f ` ?W)" using fw by blast
  next
    fix j assume "j \<in> \<Union> (f ` ?W)"
    then obtain p where p: "p \<in> ?W" "j \<in> f p" by blast
    then obtain i where "waits s p i" by blast
    then have "j \<in> chain (vd s) i" "j < NUM" using p fw f [OF p(1)] by auto
    then show "j \<in> {j. j < NUM \<and> \<not> vfree (vd s) j}"
      using chainsD(2) [OF vinv_parts(3) [OF inv]] \<open>waits s p i\<close> by blast
  qed
  then show "card {j. j < NUM \<and> \<not> vfree (vd s) j} = 3 * card ?W" using card [OF fin subset_refl] by simp
qed

lemma free_cards: "card {j. j < NUM \<and> \<not> vfree d j} + card {j. j < NUM \<and> vfree d j} = NUM"
proof -
  have "{j. j < NUM \<and> \<not> vfree d j} \<union> {j. j < NUM \<and> vfree d j} = {..<NUM}" by auto
  then have "card ({j. j < NUM \<and> \<not> vfree d j} \<union> {j. j < NUM \<and> vfree d j}) = NUM" by simp
  moreover have "card ({j. j < NUM \<and> \<not> vfree d j} \<union> {j. j < NUM \<and> vfree d j}) =
      card {j. j < NUM \<and> \<not> vfree d j} + card {j. j < NUM \<and> vfree d j}" by (rule card_Un_disjoint) auto
  ultimately show ?thesis by simp
qed

lemma in_flight_two:
  assumes inv: "vinv s"
  shows "length (in_flight s) \<le> 2"
proof -
  define f where "f p = (case vthr s p of VWait b w i g \<Rightarrow> i | _ \<Rightarrow> 0)" for p
  have "set (in_flight s) \<subseteq> f ` {p. \<exists>i. waits s p i}"
  proof
    fix i assume "i \<in> set (in_flight s)"
    then obtain p b w g where "vthr s p = VWait b w i g" using vinv_parts(4) [OF inv] unfolding queued_def by blast
    then show "i \<in> f ` {p. \<exists>i. waits s p i}" by (intro image_eqI [of _ _ p]) (auto simp: f_def waits_def)
  qed
  then have "card (set (in_flight s)) \<le> card {p. \<exists>i. waits s p i}"
    using waiting_cards(1) [OF inv] by (meson card_image_le card_mono finite_imageI le_trans)
  moreover have "card (set (in_flight s)) = length (in_flight s)"
    using vinv_parts(4) [OF inv] distinct_card [of "in_flight s"] unfolding queued_def by blast
  ultimately show ?thesis using waiting_cards(2) [OF inv] free_cards [of "vd s"] by (simp add: NUM_def)
qed

section \<open>The correctness of the driver\<close>

text \<open>
  C6: Against every device that follows the virtio specification, however its steps, the interrupts and the
  processes interleave, the driver panics only in the interrupt handler, with "virtio_disk_intr status", and only after the
  device has reported an error; with a device that reports none it never panics. When \<^verbatim>\<open>virtio_disk_rw\<close> has completed a
  request, a write has put the caller's data on the block and a read has filled the buffer with the block the disk held
  at the call: a request that failed is never taken for a completed one.
\<close>

theorem virtio_transfers:
  assumes "\<And>s t. dev s t \<Longrightarrow> virtio_spec s t" and "vreach dev s"
  shows "(vdead s = None \<or> vdead s = Some ''virtio_disk_intr status'' \<and> (\<exists>st. st \<in> set (dev_status s) \<and> st \<noteq> 0)) \<and>
    (\<forall>p b w mine theirs. vthr s p = VDone b w (mine, theirs) \<longrightarrow>
       vdata s b = (if w then mine else theirs) \<and> dblk (media s) (vbno s b) = (if w then mine else theirs))"
proof (intro conjI allI impI)
  have inv: "vinv s" by (rule vreach_inv [OF assms(2,1)])
  show "vdead s = None \<or> vdead s = Some ''virtio_disk_intr status'' \<and> (\<exists>st. st \<in> set (dev_status s) \<and> st \<noteq> 0)"
    using vinv_parts(1) [OF inv] by (auto simp: sane_def dev_failed_def)
  fix p b w mine theirs
  assume "vthr s p = VDone b w (mine, theirs)"
  then have "after_rw s b w (mine, theirs)" using vinv_parts(5) [OF inv, of p] by (simp add: req_ok_def)
  then show "vdata s b = (if w then mine else theirs)" "dblk (media s) (vbno s b) = (if w then mine else theirs)"
    by (simp_all add: after_rw_def)
qed

text \<open>A device that answers at once: the run of one read, and one in which the device reports an error.\<close>

definition v0 :: vsys where
  "v0 = \<lparr>vd = \<lparr>vdesc = (\<lambda>_. desc0), avail = \<lparr>av_idx = 0, av_ring = replicate 8 0\<rparr>, used = \<lparr>us_idx = 0, us_ring = replicate 8 0\<rparr>,
      vfree = (\<lambda>_. True), used_idx = 0, vinf = (\<lambda>_. \<lparr>ibuf = None, istatus = 0\<rparr>), vops = (\<lambda>_. \<lparr>rtype = 0, rreserved = 0, rsector = 0\<rparr>)\<rparr>,
     vdata = (\<lambda>_. replicate 1024 0), vbno = (\<lambda>b. 3 + of_nat b), vbusy = (\<lambda>_. False), media = (\<lambda>x. replicate 512 (ucast x)),
     dev_idx = 0, dev_work = [], dev_status = [], vthr = (\<lambda>_. VIdle), vdead = None\<rparr>"

definition g0 :: "u8 list \<times> u8 list" where
  "g0 = (replicate 1024 0, replicate 512 6 @ replicate 512 7)"

definition v1 :: vsys where "v1 = v0\<lparr>vthr := (vthr v0)(0 := VAsk 0 False g0)\<rparr>"
definition v2 :: vsys where "v2 = rw_start 0 0 False g0 v1"
definition v3 :: vsys where "v3 = dev_take v2"
definition v4 :: vsys where "v4 = dev_done 0 0 0 (blk_transfer False 0 6 v3)"
definition v5 :: vsys where "v5 = virtio_disk_intr v4"
definition v6 :: vsys where "v6 = rw_finish 0 0 False 0 g0 v5"
definition e4 :: vsys where "e4 = dev_done 0 0 1 v3"
definition e5 :: vsys where "e5 = virtio_disk_intr e4"

lemma alloc_desc_first:
  assumes "i < NUM" and "vfree d i" and "\<And>j. j < i \<Longrightarrow> \<not> vfree d j"
  shows "alloc_desc d = (Some i, d\<lparr>vfree := (vfree d)(i := False)\<rparr>)"
proof -
  have "find (vfree d) [0..<NUM] = Some i" using assms by (auto simp: find_Some_iff intro!: exI [of _ i])
  then show ?thesis by (simp add: alloc_desc_def)
qed

lemma alloc3_first:
  assumes "k < NUM" and "j = i + 1" "k = i + 2" and "vfree d i" "vfree d j" "vfree d k" and "\<And>j. j < i \<Longrightarrow> \<not> vfree d j"
  shows "alloc3_desc d = Inr (Some [i, j, k], d\<lparr>vfree := (vfree d)(i := False, j := False, k := False)\<rparr>)"
proof -
  let ?d1 = "d\<lparr>vfree := (vfree d)(i := False)\<rparr>"
  let ?d2 = "?d1\<lparr>vfree := (vfree ?d1)(j := False)\<rparr>"
  have "alloc_desc d = (Some i, ?d1)" "alloc_desc ?d1 = (Some j, ?d2)"
    "alloc_desc ?d2 = (Some k, ?d2\<lparr>vfree := (vfree ?d2)(k := False)\<rparr>)"
    by (rule alloc_desc_first; use assms in \<open>auto simp: less_Suc_eq numeral_2_eq_2\<close>)+
  then show ?thesis by (simp add: alloc3_desc_def numeral_3_eq_3)
qed

lemma v2_eq: "v2 = (rw_submit 0 False [0, 1, 2] (v1\<lparr>vd := (vd v1)\<lparr>vfree := (\<lambda>_. True)(0 := False, 1 := False, 2 := False)\<rparr>\<rparr>))
    \<lparr>vthr := (vthr v1)(0 := VWait 0 False 0 g0)\<rparr>"
proof -
  have "alloc3_desc (vd v1) = Inr (Some [0, 1, 2], (vd v1)\<lparr>vfree := (\<lambda>_. True)(0 := False, 1 := False, 2 := False)\<rparr>)"
    using alloc3_first [of 2 1 0 "vd v1"] by (simp add: v1_def v0_def NUM_def)
  then show ?thesis by (simp add: v2_def rw_start_def rw_submit_def Let_def)
qed

lemma v2_run: "vthr v2 0 = VWait 0 False 0 g0" "q \<noteq> 0 \<Longrightarrow> vthr v2 q = VIdle" "vbno v2 b = 3 + of_nat b"
    "dev_idx v2 = 0" "dev_work v2 = []" "av_idx (avail (vd v2)) = 1" "av_ring (avail (vd v2)) ! 0 = 0"
    "vdesc (vd v2) 0 = \<lparr>vaddr = VOp 0, vlen = 16, vflags = VRING_DESC_F_NEXT, vnext = 1\<rparr>"
    "vdesc (vd v2) (Suc 0) = \<lparr>vaddr = VData 0, vlen = 1024, vflags = VRING_DESC_F_WRITE OR VRING_DESC_F_NEXT, vnext = 2\<rparr>"
    "vdesc (vd v2) 2 = \<lparr>vaddr = VStatus 0, vlen = 1, vflags = VRING_DESC_F_WRITE, vnext = 0\<rparr>"
    "vops (vd v2) 0 = \<lparr>rtype = VIRTIO_BLK_T_IN, rreserved = 0, rsector = 6\<rparr>" "ibuf (vinf (vd v2) 0) = Some 0"
    "vbusy v2 = (\<lambda>_. False)(0 := True)" "used (vd v2) = \<lparr>us_idx = 0, us_ring = replicate 8 0\<rparr>" "used_idx (vd v2) = 0"
    "vfree (vd v2) = (\<lambda>_. True)(0 := False, 1 := False, 2 := False)" "vdead v2 = None" "vdata v2 = (\<lambda>_. replicate 1024 0)"
    "dev_status v2 = []"
  by (simp_all add: v2_eq v1_def v0_def rw_submit_def rw_format_def sector_of_def nth_list_update)

lemma v4_run: "vthr v4 = vthr v2" "vbusy v4 = vbusy v2" "vdesc (vd v4) = vdesc (vd v2)" "vfree (vd v4) = vfree (vd v2)"
    "used_idx (vd v4) = 0" "us_idx (used (vd v4)) = 1" "us_ring (used (vd v4)) ! 0 = 0" "istatus (vinf (vd v4) 0) = 0"
    "ibuf (vinf (vd v4) 0) = Some 0" "vdead v4 = None" "dev_status v4 = [0]"
  by (simp_all add: v4_def v3_def dev_take_def dev_done_def blk_transfer_def v2_run Let_def nth_list_update)

lemma v5_eq: "v5 = v4\<lparr>vbusy := (vbusy v4)(0 := False), vd := (vd v4)\<lparr>used_idx := 1\<rparr>\<rparr>"
  by (simp add: v5_def virtio_disk_intr_def v4_run Let_def)

lemma v0_init: "vinit v0"
proof -
  define R :: "u32 \<Rightarrow> u32" where "R = (\<lambda>_. 8)(VIRTIO_MMIO_MAGIC_VALUE := 0x74726976, VIRTIO_MMIO_VERSION := 1,
    VIRTIO_MMIO_DEVICE_ID := 2, VIRTIO_MMIO_VENDOR_ID := 0x554D4551)"
  have R: "R VIRTIO_MMIO_MAGIC_VALUE = 0x74726976" "R VIRTIO_MMIO_VERSION = 1" "R VIRTIO_MMIO_DEVICE_ID = 2"
    "R VIRTIO_MMIO_VENDOR_ID = 0x554D4551" "R VIRTIO_MMIO_QUEUE_NUM_MAX = 8"
    by (simp_all add: R_def VIRTIO_MMIO_MAGIC_VALUE_def VIRTIO_MMIO_VERSION_def VIRTIO_MMIO_DEVICE_ID_def
        VIRTIO_MMIO_VENDOR_ID_def VIRTIO_MMIO_QUEUE_NUM_MAX_def)
  have "\<exists>ws. virtio_disk_init R 0 (vd v0) = (ws, Inr (vd v0))"
    by (simp add: virtio_disk_init_def R Let_def NUM_def v0_def)
  moreover have "used_idx (vd v0) = 0" by (simp add: v0_def)
  ultimately have "\<exists>R pages d ws. used_idx d = 0 \<and> virtio_disk_init R pages d = (ws, Inr (vd v0))" by blast
  then show ?thesis by (simp add: vinit_def) (simp add: v0_def)
qed

lemma v2_reach: "vreach virtio_spec v2"
proof -
  have c: "g0 = (vdata v0 0, dblk (media v0) (vbno v0 0))" by (simp add: g0_def v0_def dblk_def sector_of_def)
  have "vreach virtio_spec v0" using v0_init by (rule vr_init)
  moreover have "vstep virtio_spec v0 v1"
    unfolding v1_def c by (rule v_call) (simp_all add: v0_def)
  ultimately have "vreach virtio_spec v1" by (rule vr_step)
  moreover have "vstep virtio_spec v1 v2" unfolding v2_def by (rule v_start) (simp_all add: v1_def v0_def)
  ultimately show ?thesis by (rule vr_step)
qed

lemma v3_reach: "vreach virtio_spec v3"
proof -
  have "vstep virtio_spec v2 v3" by (rule v_dev) (simp add: virtio_spec_def v2_run v3_def)
  then show ?thesis by (rule vr_step [OF v2_reach])
qed

lemma v3_run: "dev_work v3 = [0]" "vd v3 = vd v2" "vdead v3 = None" "vdata v3 = (\<lambda>_. replicate 1024 0)"
  by (simp_all add: v3_def dev_take_def v2_run)

lemma v3_completes:
  assumes "if st = 0 then r = blk_transfer False 0 6 v3 else blk_error False 0 6 v3 r"
  shows "virtio_spec v3 (dev_done 0 0 st r)"
proof -
  have "rtype (vops (vd v3) 0) \<noteq> VIRTIO_BLK_T_OUT" "rsector (vops (vd v3) 0) = 6"
    by (simp_all add: v3_run v2_run VIRTIO_BLK_T_IN_def VIRTIO_BLK_T_OUT_def)
  then show ?thesis
    unfolding virtio_spec_def
    by (intro disjI2 bexI [of _ 0]) (use assms in \<open>auto simp: v3_run v2_run Let_def intro!: exI [of _ st] exI [of _ r]\<close>)
qed

lemma v6_reach: "vreach virtio_spec v6"
proof -
  note v3_reach
  moreover have "vstep virtio_spec v3 v4"
    unfolding v4_def by (rule v_dev, rule v3_completes) simp
  ultimately have "vreach virtio_spec v4" by (rule vr_step)
  moreover have "vstep virtio_spec v4 v5" unfolding v5_def by (rule v_intr) (simp add: v4_run)
  ultimately have "vreach virtio_spec v5" by (rule vr_step)
  moreover have "vstep virtio_spec v5 v6"
    unfolding v6_def by (rule v_finish) (simp_all add: v5_eq v4_run v2_run)
  ultimately show ?thesis by (rule vr_step)
qed

lemma v6_done: "vthr v6 0 = VDone 0 False g0"
  by (simp add: v6_def rw_finish_def v5_eq v4_run v2_run Let_def NUM_def free_chain.simps free_desc_def
      VRING_DESC_F_NEXT_def VRING_DESC_F_WRITE_def)

lemma v6_status: "dev_status v6 = [0]"
  by (simp add: v6_def rw_finish_def v5_eq v4_run Let_def split: sum.split)

lemma e5_reach: "vreach virtio_spec e5"
proof -
  have "length (vdata v3 0) = 1024" by (simp add: v3_run)
  moreover have "v3 = v3\<lparr>vdata := (vdata v3)(0 := vdata v3 0)\<rparr>" by (intro vsys.equality) simp_all
  ultimately have "blk_error False 0 6 v3 v3" unfolding blk_error_def if_False by blast
  then have "virtio_spec v3 e4" unfolding e4_def by (intro v3_completes) simp
  then have "vreach virtio_spec e4" by (rule vr_step [OF v3_reach v_dev])
  moreover have "vstep virtio_spec e4 e5"
    unfolding e5_def by (rule v_intr) (simp add: e4_def dev_done_def v3_run Let_def)
  ultimately show ?thesis by (rule vr_step)
qed

lemma e5_dead: "vdead e5 = Some ''virtio_disk_intr status''"
  by (simp add: e5_def virtio_disk_intr_def e4_def v3_def dev_take_def dev_done_def v2_run Let_def nth_list_update)

theorem virtio_transfers_witness:
  "(vreach virtio_spec v6 \<and> vthr v6 0 = VDone 0 False g0 \<and> vdead v6 = None \<and> vdata v6 0 = replicate 512 6 @ replicate 512 7) \<and>
   (vreach virtio_spec e5 \<and> vdead e5 = Some ''virtio_disk_intr status'' \<and> (\<exists>st. st \<in> set (dev_status e5) \<and> st \<noteq> 0))"
  using virtio_transfers [OF _ v6_reach] v6_reach v6_done v6_status virtio_transfers [OF _ e5_reach] e5_reach e5_dead
  by (auto simp: g0_def)

text \<open>
  C7: The eight descriptors are always split between the free ones and the chains of the processes that wait for a
  request: every chain has three descriptors, the chains of different processes are disjoint, and a descriptor is free
  exactly when it is in no chain, so none is lost and none is used twice. At most two requests are ever with the
  device, in the rings or at work, so the 16-bit indices never overtake each other; a call finds no descriptors only
  when two requests are waiting.
\<close>

theorem virtio_descriptors:
  assumes "\<And>s t. dev s t \<Longrightarrow> virtio_spec s t" and "vreach dev s"
  shows "(\<forall>p b w i g. vthr s p = VWait b w i g \<longrightarrow> card (chain (vd s) i) = 3 \<and> chain (vd s) i \<subseteq> {..<NUM}) \<and>
    (\<forall>p q b w i g c v k h. p \<noteq> q \<and> vthr s p = VWait b w i g \<and> vthr s q = VWait c v k h \<longrightarrow>
       chain (vd s) i \<inter> chain (vd s) k = {}) \<and>
    (\<forall>j < NUM. vfree (vd s) j \<longleftrightarrow> \<not> (\<exists>p b w i g. vthr s p = VWait b w i g \<and> j \<in> chain (vd s) i)) \<and>
    unat (av_idx (avail (vd s)) - dev_idx s) + length (dev_work s) + unat (us_idx (used (vd s)) - used_idx (vd s)) \<le> 2 \<and>
    card {j. j < NUM \<and> vfree (vd s) j} + 3 * card {p. \<exists>b w i g. vthr s p = VWait b w i g} = NUM \<and>
    (\<forall>d. alloc3_desc (vd s) = Inr (None, d) \<longrightarrow> card {p. \<exists>b w i g. vthr s p = VWait b w i g} = 2)"
proof (intro conjI allI impI)
  have inv: "vinv s" by (rule vreach_inv [OF assms(2,1)])
  have W: "{p. \<exists>i. waits s p i} = {p. \<exists>b w i g. vthr s p = VWait b w i g}" by (auto simp: waits_def)
  show "card (chain (vd s) i) = 3" "chain (vd s) i \<subseteq> {..<NUM}" if "vthr s p = VWait b w i g" for p b w i g
    using chain_card [OF inv that] by simp_all
  show "chain (vd s) i \<inter> chain (vd s) k = {}"
    if "p \<noteq> q \<and> vthr s p = VWait b w i g \<and> vthr s q = VWait c v k h" for p q b w i g c v k h
    using that vinvD(3) [OF inv, of p b w i g q c v k h] by simp
  show "vfree (vd s) j \<longleftrightarrow> \<not> (\<exists>p b w i g. vthr s p = VWait b w i g \<and> j \<in> chain (vd s) i)" if "j < NUM" for j
    using chainsD(2) [OF vinv_parts(3) [OF inv] that] unfolding waits_def by blast
  show "unat (av_idx (avail (vd s)) - dev_idx s) + length (dev_work s) + unat (us_idx (used (vd s)) - used_idx (vd s)) \<le> 2"
    using in_flight_two [OF inv] by (simp add: in_flight_def length_items)
  show all: "card {j. j < NUM \<and> vfree (vd s) j} + 3 * card {p. \<exists>b w i g. vthr s p = VWait b w i g} = NUM"
    using waiting_cards(2) [OF inv] free_cards [of "vd s"] unfolding W by linarith
  fix d
  assume h: "alloc3_desc (vd s) = Inr (None, d)"
  show "card {p. \<exists>b w i g. vthr s p = VWait b w i g} = 2"
  proof (cases rule: alloc3_cases [of "vd s"])
    case (fail d')
    then show ?thesis using all by (simp add: NUM_def)
  next
    case (ok i0 i1 i2)
    then show ?thesis using h by simp
  qed
qed

text \<open>Two requests at once: a third call finds two free descriptors only.\<close>

definition w1 :: vsys where
  "w1 = v2\<lparr>vthr := (vthr v2)(1 := VAsk 1 True (vdata v2 1, dblk (media v2) (vbno v2 1)))\<rparr>"
definition w2 :: vsys where "w2 = rw_start 1 1 True (vdata v2 1, dblk (media v2) (vbno v2 1)) w1"

lemma w2_reach: "vreach virtio_spec w2"
proof -
  have "vstep virtio_spec v2 w1"
    unfolding w1_def
  proof (rule v_call)
    show "vthr v2 1 = VIdle" "vbno v2 1 < 2 ^ 31" by (simp_all add: v2_run)
    show "c \<noteq> 1 \<and> vbno v2 c \<noteq> vbno v2 1" if "vreq (vthr v2 q) = Some c" for q c
      using that v2_run(2) [of q] v2_run(1) by (cases "q = 0") (simp_all add: v2_run)
  qed
  then have "vreach virtio_spec w1" using v2_reach vr_step by blast
  moreover have "vstep virtio_spec w1 w2" unfolding w2_def by (rule v_start) (simp_all add: w1_def v2_run)
  ultimately show ?thesis by (rule vr_step)
qed

lemma w2_full: "\<exists>d. alloc3_desc (vd w2) = Inr (None, d)"
proof -
  have "alloc3_desc (vd w1) = Inr (Some [3, 4, 5], (vd w1)\<lparr>vfree := (vfree (vd w1))(3 := False, 4 := False, 5 := False)\<rparr>)"
    by (rule alloc3_first) (auto simp: w1_def v2_run NUM_def less_Suc_eq numeral_3_eq_3)
  then have f: "vfree (vd w2) = (\<lambda>_. True)(0 := False, 1 := False, 2 := False, 3 := False, 4 := False, 5 := False)"
    by (simp add: w2_def rw_start_def rw_submit_def rw_format_def Let_def) (simp add: w1_def v2_run)
  show ?thesis
  proof (cases rule: alloc3_cases [of "vd w2"])
    case (ok i0 i1 i2)
    have "i = 6 \<or> i = 7" if "i < NUM" "vfree (vd w2) i" for i
      using that by (simp add: f NUM_def split: if_splits) presburger
    then have "set [i0, i1, i2] \<subseteq> {6, 7}" using ok(3-8) by simp
    then have "card (set [i0, i1, i2]) \<le> card {6, 7 :: nat}" by (intro card_mono) simp_all
    then show ?thesis using ok(2) by simp
  qed blast
qed

theorem virtio_descriptors_witness:
  "vreach virtio_spec w2 \<and> (\<exists>d. alloc3_desc (vd w2) = Inr (None, d)) \<and> card {p. \<exists>b w i g. vthr w2 p = VWait b w i g} = 2"
  using virtio_descriptors [OF _ w2_reach] w2_reach w2_full by blast

end
