(* ===== verification/Umalloc.thy ===== *)
theory Umalloc
  imports Machine
begin

text \<open>
  \<^verbatim>\<open>user/umalloc.c\<close>: the memory allocator of user programs. A \<^verbatim>\<open>Header\<close> is at an address of 16 bytes; \<open>hptr\<close>
  and \<open>hsize\<close> are the fields of the header at an address, sizes counted in headers. The user's own stores go to
  the bytes after a header and do not change these fields. Addresses are below the end of the user's memory, so
  adding to one does not wrap. The kernel is asked for memory with \<^verbatim>\<open>sbrk\<close>; whether it grants a request is the
  parameter \<open>grant\<close>, and what it grants is at the end of the memory, as \<^verbatim>\<open>growproc\<close> has it.
\<close>

section \<open>The allocator\<close>

record mheap =
  hptr :: "nat \<Rightarrow> nat"
  hsize :: "nat \<Rightarrow> nat"
  hbase :: nat
  freep :: nat
  brk :: nat

definition set_ptr :: "nat \<Rightarrow> nat \<Rightarrow> mheap \<Rightarrow> mheap" where
  "set_ptr a v h = h\<lparr>hptr := (hptr h)(a := v)\<rparr>"

definition set_size :: "nat \<Rightarrow> nat \<Rightarrow> mheap \<Rightarrow> mheap" where
  "set_size a n h = h\<lparr>hsize := (hsize h)(a := n)\<rparr>"

lemma mheap_sets [simp]:
  "hptr (set_ptr a v h) = (hptr h)(a := v)" "hptr (set_size a n h) = hptr h"
  "hsize (set_ptr a v h) = hsize h" "hsize (set_size a n h) = (hsize h)(a := n)"
  "hbase (set_ptr a v h) = hbase h" "hbase (set_size a n h) = hbase h"
  "freep (set_ptr a v h) = freep h" "freep (set_size a n h) = freep h"
  "brk (set_ptr a v h) = brk h" "brk (set_size a n h) = brk h"
  by (simp_all add: set_ptr_def set_size_def)









section \<open>The list of free blocks\<close>

type_synonym block = "nat \<times> nat"

primrec links :: "mheap \<Rightarrow> nat \<Rightarrow> block list \<Rightarrow> nat \<Rightarrow> bool" where
  "links h a [] b = (a = b)"
| "links h a (x # xs) b = (a = fst x \<and> hsize h (fst x) = snd x \<and> links h (hptr h (fst x)) xs b)"



lemma links_size: "links h a xs b \<Longrightarrow> x \<in> set xs \<Longrightarrow> hsize h (fst x) = snd x"
  by (induction xs arbitrary: a) auto















section \<open>Freeing a block\<close>


definition join_right :: "nat \<Rightarrow> nat \<Rightarrow> mheap \<Rightarrow> mheap" where
  "join_right bp q h = (if bp + 16 * hsize h bp = q
     then set_ptr bp (hptr h q) (set_size bp (hsize h bp + hsize h q) h) else set_ptr bp q h)"

definition join_left :: "nat \<Rightarrow> nat \<Rightarrow> mheap \<Rightarrow> mheap" where
  "join_left bp p h = (if p + 16 * hsize h p = bp
     then set_ptr p (hptr h bp) (set_size p (hsize h p + hsize h bp) h) else set_ptr p bp h)"


lemma join_fields [simp]:
  "hbase (join_right bp q h) = hbase h" "freep (join_right bp q h) = freep h" "brk (join_right bp q h) = brk h"
  "hbase (join_left bp p h) = hbase h" "freep (join_left bp p h) = freep h" "brk (join_left bp p h) = brk h"
  "a \<noteq> bp \<Longrightarrow> hptr (join_right bp q h) a = hptr h a" "a \<noteq> bp \<Longrightarrow> hsize (join_right bp q h) a = hsize h a"
  "a \<noteq> p \<Longrightarrow> hptr (join_left bp p h) a = hptr h a" "a \<noteq> p \<Longrightarrow> hsize (join_left bp p h) a = hsize h a"
  by (simp_all add: join_right_def join_left_def)






section \<open>Taking a block\<close>








section \<open>The search of \<^verbatim>\<open>malloc\<close>\<close>




section \<open>More memory\<close>






section \<open>Runs of a program\<close>















section \<open>Properties\<close>










end
