(* ===== verification/Spec2Isabelle.thy ===== *)
theory Spec2Isabelle
  imports Trap Crash Spinlock Filters Shell Virtio Umalloc
begin

text \<open>
  A verification library for an xv6 kernel for RISC-V whose processes keep part of their pages in a swap file of their
  own, and for the user programs that come with it.

  \<^bold>\<open>The program.\<close> The kernel (\<^verbatim>\<open>src/kernel\<close>) boots in \<^verbatim>\<open>main.c\<close>, runs processes (\<^verbatim>\<open>proc.c\<close>) and serves their traps and system
  calls (\<^verbatim>\<open>trap.c\<close>, \<^verbatim>\<open>syscall.c\<close>, \<^verbatim>\<open>sysproc.c\<close>, \<^verbatim>\<open>sysfile.c\<close>, \<^verbatim>\<open>exec.c\<close>). Memory comes from the page allocator (\<^verbatim>\<open>kalloc.c\<close>) and is
  mapped by three-level page tables (\<^verbatim>\<open>vm.c\<close>), which also holds the paging policies. Files go through the file table
  (\<^verbatim>\<open>file.c\<close>) to inodes and directories (\<^verbatim>\<open>fs.c\<close>), to pipes (\<^verbatim>\<open>pipe.c\<close>) or to the console (\<^verbatim>\<open>console.c\<close>, \<^verbatim>\<open>uart.c\<close>); inodes go
  through the log (\<^verbatim>\<open>log.c\<close>) and the buffer cache (\<^verbatim>\<open>bio.c\<close>) to the disk driver (\<^verbatim>\<open>virtio_disk.c\<close>). Spin locks
  (\<^verbatim>\<open>spinlock.c\<close>) and sleep locks (\<^verbatim>\<open>sleeplock.c\<close>) protect the shared state. User programs (\<^verbatim>\<open>src/user\<close>) are a library
  (\<^verbatim>\<open>ulib.c\<close>, \<^verbatim>\<open>printf.c\<close>, \<^verbatim>\<open>umalloc.c\<close>), the shell (\<^verbatim>\<open>sh.c\<close>) and small tools.

  \<^bold>\<open>How routines are modelled.\<close> A kernel routine is a function from the state of the kernel, as one CPU sees it, to an
  \<open>outcome\<close> (\<open>XV6_Prelude\<close>): it returns a value and a state, it panics with a message, or it calls \<^verbatim>\<open>swtch\<close>, leaving the state
  and a continuation that the scheduler runs later on whatever state the kernel has by then. Loops that may sleep any number of
  times are unfoldings of a codatatype, so a routine that is woken and sleeps again is no special case. \<open>okK\<close> is total
  correctness: the routine returns, and the result and state satisfy the predicate. The state is the record \<open>kstate\<close>
  (\<open>Kernel_State\<close>): physical memory as bytes, the process table, locks held by the CPU, the free list, buffer cache, log, inodes,
  files, pipes, console and the disk. Machine integers are words of their width; a count or an index that the source bounds
  by an array size is a \<open>nat\<close>. A dereference of a null or wild pointer is a panic of its own (\<open>wildK\<close>). A user program is
  the same kind of routine whose calls are requests that a kernel answers (\<open>User_Program\<close>).

  \<^bold>\<open>The theories.\<close>
  \<^item> \<open>XV6_Prelude\<close>: outcomes, loops, rules of total correctness; \<open>Machine\<close>: words, pages, constants of \<^verbatim>\<open>riscv.h\<close>,
    \<^verbatim>\<open>param.h\<close>, \<^verbatim>\<open>memlayout.h\<close>; \<open>CString\<close>: \<^verbatim>\<open>string.c\<close>; \<open>Ring\<close>: ring buffers with wrapping indices and the locale of bounded queues,
    interpreted on the pipe and on the transmit buffer; \<open>Printf\<close>: \<^verbatim>\<open>printf.c\<close>.
  \<^item> \<open>Spinlock\<close>: \<^verbatim>\<open>spinlock.c\<close> on any number of CPUs, one step for each access to shared memory, together with the
    direct callers of \<^verbatim>\<open>push_off\<close> and \<^verbatim>\<open>pop_off\<close> and the write of \<^verbatim>\<open>intena\<close> in \<^verbatim>\<open>sched\<close>. Mutual exclusion, the exact panics, the
    \<^verbatim>\<open>push_off\<close> depth, and the run of an uncontended section. The other theories see a lock as a member of the set of
    locks the CPU holds.
  \<^item> \<open>Kalloc\<close>: \<^verbatim>\<open>kalloc.c\<close>, the free list threaded through the pages, as an instance of the locale of page allocators. \<open>PageTable\<close> and \<open>User_Memory\<close>: \<^verbatim>\<open>walk\<close>, \<^verbatim>\<open>mappages\<close> and
    the copies between kernel and user memory of \<^verbatim>\<open>vm.c\<close>, with the tree of tables as an invariant over physical memory. \<^verbatim>\<open>mappages\<close>
    maps exactly its range, and never a page twice.
  \<^item> \<open>Sched\<close> and \<open>Sleeplock\<close>: \<^verbatim>\<open>sleep\<close>, \<^verbatim>\<open>wakeup\<close>, \<^verbatim>\<open>sched\<close> of \<^verbatim>\<open>proc.c\<close> and \<^verbatim>\<open>sleeplock.c\<close>. A waiter looks at the lock again each
    time it is resumed, and leaves only as the owner.
  \<^item> \<open>Bio\<close>, \<open>Log\<close>, \<open>Crash\<close>: \<^verbatim>\<open>bio.c\<close> and \<^verbatim>\<open>log.c\<close>. The cache refines a map from block numbers to contents; \<^verbatim>\<open>commit\<close> and recovery
    are atomic for a crash after any prefix of their disk writes.
  \<^item> \<open>Virtio\<close>: \<^verbatim>\<open>virtio_disk.c\<close>, the rings shared with the device, with requests of any number of processes interleaved with
    interrupts and the device. The device is a parameter; its hypothesis is what the virtio specification says of a
    block device, which may report errors. Requests that complete have transferred their data, the driver panics only on a reported error,
    and the descriptors are split between the free ones and the disjoint chains of the requests.
  \<^item> \<open>Console\<close>, \<open>Pipe\<close>: \<^verbatim>\<open>console.c\<close>, \<^verbatim>\<open>uart.c\<close>, \<^verbatim>\<open>pipe.c\<close>, as refinements of a line editor and of a bounded queue.
  \<^item> \<open>Fs\<close>, \<open>File\<close>, \<open>Sysfile\<close>, \<open>SwapFile\<close>: \<^verbatim>\<open>fs.c\<close>, \<^verbatim>\<open>file.c\<close>, \<^verbatim>\<open>sysfile.c\<close>; definitions of every routine.
  \<^item> \<open>Paging\<close>: the user memory and paging routines of \<^verbatim>\<open>vm.c\<close>. The policies SCFIFO, NFUA and LAPA do what their names
    say and aging shifts the counters.
  \<^item> \<open>Proc\<close>, \<open>Exec\<close>, \<open>Trap\<close>: \<^verbatim>\<open>proc.c\<close>, \<^verbatim>\<open>exec.c\<close>, \<^verbatim>\<open>trap.c\<close>, \<^verbatim>\<open>syscall.c\<close>, \<^verbatim>\<open>sysproc.c\<close>, \<^verbatim>\<open>main.c\<close>; definitions of every routine.
  \<^item> \<open>User_Program\<close>, \<open>Umalloc\<close>, \<open>Filters\<close>, \<open>Shell\<close>: \<^verbatim>\<open>ulib.c\<close> and \<^verbatim>\<open>printf.c\<close>; \<^verbatim>\<open>umalloc.c\<close>, whose regions never
    overlap and whose free list loses nothing; \<^verbatim>\<open>cat\<close>, \<^verbatim>\<open>wc\<close>, \<^verbatim>\<open>grep\<close> and the small tools; the shell, whose parser is proved to
    end and to invert printing.
\<close>

text \<open>
  \<^bold>\<open>Bounds and fuel.\<close> The mutually recursive parser of the shell takes fuel \<open>4 * length + 4\<close>; every routine of the parser that calls
  another without consuming input is at most four calls deep, and \<open>parser_ends\<close> shows that the fuel never runs out. The loop of the
  interrupt handler takes the number of entries between the two ring indices. The walk of the free chain of descriptors and
  the loop of \<^verbatim>\<open>mappages\<close> have termination proofs; the branch \<open>address wrap\<close> of the latter only serves that proof: \<^verbatim>\<open>walk\<close> panics for
  an address at or above MAXVA, long before an address wraps. SCFIFO takes one turn more than there are
  pages as fuel, since each turn clears an accessed bit; \<open>SCFIFO_is_second_chance\<close> shows that it is enough. The loops of
  \<^verbatim>\<open>malloc\<close> and \<^verbatim>\<open>free\<close> are partial functions, for which returning is proved.

  \<^bold>\<open>Abstractions.\<close>
  \<^item> The doubly linked list of buffers is the list of their indices, most recently used first; reference counts are \<open>nat\<close>s.
  \<^item> \<open>virtio_disk_rw\<close> in \<open>Bio\<close> is one transfer that does not sleep: it is the contract that \<open>Virtio\<close> proves of the driver for every
    request that completes.
  \<^item> \<^verbatim>\<open>copyin\<close> and \<^verbatim>\<open>copyinstr\<close> return the bytes they store in the kernel's buffer. The lengths of \<^verbatim>\<open>memmove\<close> and its relatives in
    \<^verbatim>\<open>string.c\<close> are \<open>nat\<close>s; the callers pass at most a page. The one in \<^verbatim>\<open>ulib.c\<close> takes an \<^verbatim>\<open>int\<close>, so it is an \<open>int\<close> here.
  \<^item> The theorems about filters run them on \<open>stdio\<close>, a kernel whose files do not change, whose reads return any nonempty
    part of what is asked for, whose writes succeed in full and whose open fails only for a missing file; the definitions
    have the error paths as well.
  \<^item> The constructors of commands in \<open>Shell\<close> always get their memory, as the source does not check what \<^verbatim>\<open>malloc\<close> returns.
  \<^item> In \<open>Umalloc\<close> addresses are below the end of the user's memory and do not wrap; only \<^verbatim>\<open>malloc\<close> calls \<^verbatim>\<open>sbrk\<close>.
  \<^item> Device registers of the serial port are a script of the device's answers; the accessors of control registers are
    fields of the state.

  \<^bold>\<open>Not modelled.\<close> The assembly files, \<^verbatim>\<open>start.c\<close> and \<^verbatim>\<open>plic.c\<close> are register sequences without data of their own; the loop of
  the scheduler is the pair of steps that enter and leave a process; \<^verbatim>\<open>ramdisk.c\<close> is not part of the build; the test
  programs check the kernel from outside; \<^verbatim>\<open>mkfs\<close> runs on the host. There are no theorems about the contents of files and
  directories, about \<^verbatim>\<open>fork\<close>, \<^verbatim>\<open>exec\<close> and \<^verbatim>\<open>wait\<close> or about whole runs of the kernel: their definitions are there to be checked
  against the source and to be built on.
\<close>

end
